(* ===== verification/ME_Prelude.thy ===== *)
theory ME_Prelude
  imports Main "HOL-Library.Word"
begin

text \<open>
  Shared vocabulary of the development: the error values of the program, the result type that
  carries them, the range of a C++ \<open>long long\<close>, reachability and invariants of step
  relations, and the lemmas on lists, options and results that several components use.

  The collections declared here: \<open>result_simps\<close> rewrites results and their sequencing,
  \<open>frame_simps\<close> says which fields an operation leaves alone, \<open>wf_intros\<close> holds the
  rules that establish well-formedness.
\<close>

named_theorems result_simps "sequencing of results"
named_theorems frame_simps "fields an operation leaves unchanged"
named_theorems wf_intros "introduction of well-formedness"

section \<open>Errors and results\<close>

text \<open>
  Every \<open>throw\<close> of the program is one of the first four constructors, with its message.
  The next three are not exceptions but undefined behaviour of C++ that the model makes visible:
  use of an iterator whose list node is gone, signed overflow of \<open>long long\<close> arithmetic, and
  an access outside a container. \<open>OutOfFuel\<close> is the model's own: a recursion that ran out
  of its step bound.
\<close>

datatype error =
    MatchingEngineError string
  | RuntimeError string
  | InvalidArgument string
  | OutOfRange string
  | DanglingIterator
  | SignedOverflow
  | BadAccess
  | OutOfFuel

type_synonym 'a result = "error + 'a"

definition rbind :: "'a result \<Rightarrow> ('a \<Rightarrow> 'b result) \<Rightarrow> 'b result" where
  "rbind r f = (case r of Inl e \<Rightarrow> Inl e | Inr x \<Rightarrow> f x)"

lemma rbind_simps [simp, result_simps]:
  "rbind (Inl e) f = Inl e"
  "rbind (Inr x) f = f x"
  by (simp_all add: rbind_def)

lemma rbind_cong [fundef_cong]:
  "r = r' \<Longrightarrow> (\<And>x. r' = Inr x \<Longrightarrow> f x = g x) \<Longrightarrow> rbind r f = rbind r' g"
  by (cases r') simp_all

lemma rbind_assoc [result_simps]: "rbind (rbind r f) g = rbind r (\<lambda>x. rbind (f x) g)"
  by (cases r) simp_all

lemma rbind_eq_Inr [result_simps]: "rbind r f = Inr y \<longleftrightarrow> (\<exists>x. r = Inr x \<and> f x = Inr y)"
  by (cases r) simp_all

lemma rbind_eq_Inl [result_simps]:
  "rbind r f = Inl e \<longleftrightarrow> r = Inl e \<or> (\<exists>x. r = Inr x \<and> f x = Inl e)"
  by (cases r) simp_all

text \<open>Running a fallible operation over a list, left to right, as a \<open>for\<close> loop whose
  exception leaves the loop.\<close>

fun rfold :: "('a \<Rightarrow> 's \<Rightarrow> 's result) \<Rightarrow> 'a list \<Rightarrow> 's \<Rightarrow> 's result" where
  "rfold f [] s = Inr s"
| "rfold f (x # xs) s = rbind (f x s) (rfold f xs)"

lemma rfold_append: "rfold f (xs @ ys) s = rbind (rfold f xs s) (rfold f ys)"
proof (induction xs arbitrary: s)
  case Nil
  then show ?case by simp
next
  case (Cons x xs)
  then show ?case by (cases "f x s") simp_all
qed

lemma rfold_invariant:
  assumes "\<And>x s s'. x \<in> set xs \<Longrightarrow> P s \<Longrightarrow> f x s = Inr s' \<Longrightarrow> P s'"
    and "P s" and "rfold f xs s = Inr s'"
  shows "P s'"
  using assms
proof (induction xs arbitrary: s)
  case Nil
  then show ?case by simp
next
  case (Cons x xs)
  from Cons.prems(3) obtain t where t: "f x s = Inr t" "rfold f xs t = Inr s'"
    by (auto simp: rbind_eq_Inr)
  show ?case
  proof (rule Cons.IH [OF _ _ t(2)])
    show "P t" using Cons.prems(1) [OF _ Cons.prems(2) t(1)] by simp
  qed (use Cons.prems(1) in auto)
qed

section \<open>Arithmetic\<close>

lemma mod_add_left_inj:
  assumes "(a + i) mod m = (a + j) mod (m :: nat)" "i < m" "j < m"
  shows "i = j"
proof -
  from assms(1) obtain k l where "a + i + m * k = a + j + m * l" unfolding nat_mod_eq_iff by blast
  then have "(i + m * k) mod m = (j + m * l) mod m" by simp
  with assms(2,3) show ?thesis by simp
qed

lemma pow2_unat: "k < 64 \<Longrightarrow> unat (2 ^ k :: 64 word) = 2 ^ k"
proof -
  assume "k < 64"
  then have "(2 :: nat) ^ k < 2 ^ 64" by (intro power_strict_increasing) auto
  then show ?thesis using unat_of_nat [of "2 ^ k", where 'a = 64] by (simp add: take_bit_nat_eq_self)
qed

section \<open>The range of a C++ long long\<close>

text \<open>
  Quantities, prices and ids are \<open>long long\<close>. The model computes on \<open>int\<close>; where an
  intermediate value could leave the range, the range is checked and the check is a branch of
  the model or a bound that is proved.
\<close>

definition ll_min :: int where "ll_min = - (2 ^ 63)"
definition ll_max :: int where "ll_max = 2 ^ 63 - 1"

definition fits_ll :: "int \<Rightarrow> bool" where
  "fits_ll x \<longleftrightarrow> ll_min \<le> x \<and> x \<le> ll_max"

lemma fits_ll_iff: "fits_ll x \<longleftrightarrow> - 9223372036854775808 \<le> x \<and> x \<le> 9223372036854775807"
  by (simp add: fits_ll_def ll_min_def ll_max_def)

lemma sint_word_of_int_ll: "fits_ll x \<Longrightarrow> sint (word_of_int x :: 64 word) = x"
  by (simp add: fits_ll_def ll_min_def ll_max_def sint_sbintrunc' signed_take_bit_int_eq_self)

lemma fits_ll_sint: "fits_ll (sint (w :: 64 word))"
  using sint_range_size [of w] by (simp add: fits_ll_def ll_min_def ll_max_def word_size)

section \<open>Reachable states and invariants\<close>

inductive reachable :: "('s \<Rightarrow> bool) \<Rightarrow> ('s \<Rightarrow> 's \<Rightarrow> bool) \<Rightarrow> 's \<Rightarrow> bool"
  for init :: "'s \<Rightarrow> bool" and step :: "'s \<Rightarrow> 's \<Rightarrow> bool" where
  reachable_init: "init s \<Longrightarrow> reachable init step s"
| reachable_step: "reachable init step s \<Longrightarrow> step s t \<Longrightarrow> reachable init step t"

text \<open>What a component promises when it says that a predicate is an invariant: it holds where
  the component starts and every step keeps it.\<close>

locale invariant_system =
  fixes init :: "'s \<Rightarrow> bool" and step :: "'s \<Rightarrow> 's \<Rightarrow> bool" and inv :: "'s \<Rightarrow> bool"
  assumes inv_init: "init s \<Longrightarrow> inv s"
    and inv_step: "inv s \<Longrightarrow> step s t \<Longrightarrow> inv t"
begin

lemma reachable_inv: "reachable init step s \<Longrightarrow> inv s"
  by (induction rule: reachable.induct) (auto intro: inv_init inv_step)

end

text \<open>A refinement: every concrete step is, through the abstraction function, a step of the
  specification or no step at all.\<close>

locale refinement_system = invariant_system init step inv
  for init :: "'s \<Rightarrow> bool" and step :: "'s \<Rightarrow> 's \<Rightarrow> bool" and inv :: "'s \<Rightarrow> bool" +
  fixes abs_of :: "'s \<Rightarrow> 'a" and ainit :: "'a \<Rightarrow> bool" and astep :: "'a \<Rightarrow> 'a \<Rightarrow> bool"
  assumes abs_init: "init s \<Longrightarrow> ainit (abs_of s)"
    and abs_step: "inv s \<Longrightarrow> step s t \<Longrightarrow> abs_of t = abs_of s \<or> astep (abs_of s) (abs_of t)"
begin

lemma reachable_abs: "reachable init step s \<Longrightarrow> reachable ainit astep (abs_of s)"
proof (induction rule: reachable.induct)
  case (reachable_init s)
  then show ?case by (intro reachable.reachable_init abs_init)
next
  case (reachable_step s t)
  from reachable_step.hyps(1) have "inv s" by (rule reachable_inv)
  with reachable_step.hyps(2) abs_step [of s t] reachable_step.IH show ?case
    by (auto intro: reachable.reachable_step)
qed

end

end
