(* ===== verification/Order_Types.thy ===== *)
theory Order_Types
  imports ME_Prelude
begin

text \<open>
  The data of \<open>include/types.hpp\<close>: the enumerations with their printers and readers, the three
  commands, the trade record and the execution events with their payloads.

  A C++ string is a HOL \<open>string\<close> (a list of bytes) and a \<open>long long\<close> is an \<open>int\<close>. The
  payload, a \<open>std::map\<close> from names to integers or strings, is a partial function.
\<close>

section \<open>Enumerations\<close>

datatype side = Buy | Sell

definition opposite :: "side \<Rightarrow> side" where
  "opposite s = (if s = Buy then Sell else Buy)"

definition side_to_string :: "side \<Rightarrow> string" where
  "side_to_string s = (if s = Buy then ''BUY'' else ''SELL'')"

definition side_from_string :: "string \<Rightarrow> side" where
  "side_from_string v = (if v = ''BUY'' then Buy else Sell)"

datatype time_in_force = GTC | IOC | FOK | MARKET

fun tif_to_string :: "time_in_force \<Rightarrow> string" where
  "tif_to_string GTC = ''GTC''"
| "tif_to_string IOC = ''IOC''"
| "tif_to_string FOK = ''FOK''"
| "tif_to_string MARKET = ''MARKET''"

definition tif_from_string :: "string \<Rightarrow> time_in_force" where
  "tif_from_string v =
     (if v = ''IOC'' then IOC
      else if v = ''FOK'' then FOK
      else if v = ''MARKET'' then MARKET
      else GTC)"

datatype self_trade_prevention = StpNone | CancelAggressor | CancelPassive | CancelBoth

fun stp_to_string :: "self_trade_prevention \<Rightarrow> string" where
  "stp_to_string StpNone = ''NONE''"
| "stp_to_string CancelAggressor = ''CANCEL_AGGRESSOR''"
| "stp_to_string CancelPassive = ''CANCEL_PASSIVE''"
| "stp_to_string CancelBoth = ''CANCEL_BOTH''"

definition stp_from_string :: "string \<Rightarrow> self_trade_prevention" where
  "stp_from_string v =
     (if v = ''CANCEL_AGGRESSOR'' then CancelAggressor
      else if v = ''CANCEL_PASSIVE'' then CancelPassive
      else if v = ''CANCEL_BOTH'' then CancelBoth
      else StpNone)"

datatype event_type = Accepted | Executed | Rested | Cancelled | Rejected

fun event_type_to_string :: "event_type \<Rightarrow> string" where
  "event_type_to_string Accepted = ''ACCEPTED''"
| "event_type_to_string Executed = ''EXECUTED''"
| "event_type_to_string Rested = ''RESTED''"
| "event_type_to_string Cancelled = ''CANCELLED''"
| "event_type_to_string Rejected = ''REJECTED''"

text \<open>The enumerations are finite types: a statement about all their values is decided by
  running through them.\<close>

instantiation side :: enum
begin

definition enum_side :: "side list" where
  "enum_side = [Buy, Sell]"

definition enum_all_side :: "(side \<Rightarrow> bool) \<Rightarrow> bool" where
  "enum_all_side P \<longleftrightarrow> P Buy \<and> P Sell"

definition enum_ex_side :: "(side \<Rightarrow> bool) \<Rightarrow> bool" where
  "enum_ex_side P \<longleftrightarrow> P Buy \<or> P Sell"

instance
proof
  show univ: "UNIV = set (enum_class.enum :: side list)"
    using side.exhaust by (auto simp: enum_side_def)
  show "distinct (enum_class.enum :: side list)"
    by (simp add: enum_side_def)
  fix P :: "side \<Rightarrow> bool"
  show "enum_class.enum_all P \<longleftrightarrow> Ball UNIV P"
    by (simp add: enum_all_side_def univ enum_side_def)
  show "enum_class.enum_ex P \<longleftrightarrow> Bex UNIV P"
    by (simp add: enum_ex_side_def univ enum_side_def)
qed

end

instantiation time_in_force :: enum
begin

definition enum_time_in_force :: "time_in_force list" where
  "enum_time_in_force = [GTC, IOC, FOK, MARKET]"

definition enum_all_time_in_force :: "(time_in_force \<Rightarrow> bool) \<Rightarrow> bool" where
  "enum_all_time_in_force P \<longleftrightarrow> P GTC \<and> P IOC \<and> P FOK \<and> P MARKET"

definition enum_ex_time_in_force :: "(time_in_force \<Rightarrow> bool) \<Rightarrow> bool" where
  "enum_ex_time_in_force P \<longleftrightarrow> P GTC \<or> P IOC \<or> P FOK \<or> P MARKET"

instance
proof
  show univ: "UNIV = set (enum_class.enum :: time_in_force list)"
    using time_in_force.exhaust by (auto simp: enum_time_in_force_def)
  show "distinct (enum_class.enum :: time_in_force list)"
    by (simp add: enum_time_in_force_def)
  fix P :: "time_in_force \<Rightarrow> bool"
  show "enum_class.enum_all P \<longleftrightarrow> Ball UNIV P"
    by (simp add: enum_all_time_in_force_def univ enum_time_in_force_def)
  show "enum_class.enum_ex P \<longleftrightarrow> Bex UNIV P"
    by (simp add: enum_ex_time_in_force_def univ enum_time_in_force_def)
qed

end

section \<open>Commands\<close>

record add_order =
  ao_symbol :: string
  ao_order_id :: int
  ao_participant_id :: string
  ao_side :: side
  ao_price_ticks :: int
  ao_quantity :: int
  ao_time_in_force :: time_in_force
  ao_stp :: self_trade_prevention

record cancel_order =
  co_symbol :: string
  co_order_id :: int

record replace_order =
  rp_symbol :: string
  rp_order_id :: int
  rp_new_order_id :: int
  rp_new_price_ticks :: int
  rp_new_quantity :: int
  rp_time_in_force :: time_in_force

section \<open>Trades and events\<close>

record trade =
  tr_symbol :: string
  tr_price_ticks :: int
  tr_quantity :: int
  tr_buyer_order_id :: int
  tr_seller_order_id :: int
  tr_buyer_participant_id :: string
  tr_seller_participant_id :: string
  tr_passive_order_id :: int
  tr_aggressive_order_id :: int

datatype payload_value = PInt int | PStr string

type_synonym payload = "string \<rightharpoonup> payload_value"

record exec_event =
  ev_sequence :: int
  ev_type :: event_type
  ev_symbol :: string
  ev_payload :: payload

text \<open>\<open>payload.at(key)\<close> throws \<open>std::out_of_range\<close> on a missing key, \<open>std::get\<close> throws on
  the wrong alternative.\<close>

definition payload_int :: "payload \<Rightarrow> string \<Rightarrow> int result" where
  "payload_int p key =
     (case p key of
        None \<Rightarrow> Inl (OutOfRange ''map::at'')
      | Some (PInt n) \<Rightarrow> Inr n
      | Some (PStr _) \<Rightarrow> Inl (RuntimeError ''bad_variant_access''))"

definition payload_str :: "payload \<Rightarrow> string \<Rightarrow> string result" where
  "payload_str p key =
     (case p key of
        None \<Rightarrow> Inl (OutOfRange ''map::at'')
      | Some (PStr s) \<Rightarrow> Inr s
      | Some (PInt _) \<Rightarrow> Inl (RuntimeError ''bad_variant_access''))"

section \<open>Reading back what is printed\<close>

lemma opposite_simps [simp]: "opposite Buy = Sell" "opposite Sell = Buy"
  by (simp_all add: opposite_def)

lemma opposite_opposite [simp]: "opposite (opposite s) = s"
  by (cases s) simp_all

lemma all_side: "(\<forall>sd. P sd) \<longleftrightarrow> P Buy \<and> P Sell"
  by (metis side.exhaust)

lemma side_string_roundtrip [simp]: "side_from_string (side_to_string s) = s"
  by (cases s) (simp_all add: side_from_string_def side_to_string_def)

lemma tif_string_roundtrip [simp]: "tif_from_string (tif_to_string t) = t"
  by (cases t) (simp_all add: tif_from_string_def)

lemma stp_string_roundtrip [simp]: "stp_from_string (stp_to_string s) = s"
  by (cases s) (simp_all add: stp_from_string_def)

lemma event_type_to_string_inject [simp]:
  "event_type_to_string a = event_type_to_string b \<longleftrightarrow> a = b"
  by (cases a; cases b) simp_all

end
