(* ===== verification/Ordered_Map.thy ===== *)
theory Ordered_Map
  imports ME_Prelude
begin

text \<open>
  The ordered dictionary the order book is built on, C++'s \<open>std::map\<close>: an association list whose
  keys ascend. The operations are those the book uses: \<open>find\<close>, assignment to a key (or
  \<open>emplace\<close> of a new one), \<open>erase\<close>, the first entry \<open>begin()\<close> and the last entry
  \<open>std::prev(end())\<close>.

  The locale \<open>ordered_map\<close> is what the book relies on; it is interpreted on the association
  list at the end.
\<close>

type_synonym ('k, 'v) omap = "('k \<times> 'v) list"

definition om_inv :: "('k::linorder, 'v) omap \<Rightarrow> bool" where
  "om_inv m \<longleftrightarrow> sorted_wrt (<) (map fst m)"

definition om_find :: "'k \<Rightarrow> ('k, 'v) omap \<Rightarrow> 'v option" where
  "om_find k m = map_of m k"

fun om_assign :: "'k::linorder \<Rightarrow> 'v \<Rightarrow> ('k, 'v) omap \<Rightarrow> ('k, 'v) omap" where
  "om_assign k v [] = [(k, v)]"
| "om_assign k v (kv # m) =
     (if fst kv < k then kv # om_assign k v m
      else if fst kv = k then (k, v) # m
      else (k, v) # kv # m)"

definition om_erase :: "'k \<Rightarrow> ('k, 'v) omap \<Rightarrow> ('k, 'v) omap" where
  "om_erase k m = filter (\<lambda>kv. fst kv \<noteq> k) m"

definition om_begin :: "('k, 'v) omap \<Rightarrow> ('k \<times> 'v) option" where
  "om_begin m = (case m of [] \<Rightarrow> None | kv # _ \<Rightarrow> Some kv)"

definition om_rbegin :: "('k, 'v) omap \<Rightarrow> ('k \<times> 'v) option" where
  "om_rbegin m = (case rev m of [] \<Rightarrow> None | kv # _ \<Rightarrow> Some kv)"

section \<open>What a client of the dictionary relies on\<close>

locale ordered_map =
  fixes find :: "'k::linorder \<Rightarrow> 'm \<Rightarrow> 'v option"
    and assign :: "'k \<Rightarrow> 'v \<Rightarrow> 'm \<Rightarrow> 'm"
    and erase :: "'k \<Rightarrow> 'm \<Rightarrow> 'm"
    and first :: "'m \<Rightarrow> ('k \<times> 'v) option"
    and final :: "'m \<Rightarrow> ('k \<times> 'v) option"
    and inv :: "'m \<Rightarrow> bool"
  assumes find_assign: "inv m \<Longrightarrow> find k (assign j v m) = (if k = j then Some v else find k m)"
    and find_erase: "inv m \<Longrightarrow> find k (erase j m) = (if k = j then None else find k m)"
    and inv_assign: "inv m \<Longrightarrow> inv (assign k v m)"
    and inv_erase: "inv m \<Longrightarrow> inv (erase k m)"
    and first_Some: "inv m \<Longrightarrow> first m = Some (k, v) \<longleftrightarrow>
          find k m = Some v \<and> (\<forall>j w. find j m = Some w \<longrightarrow> k \<le> j)"
    and first_None: "inv m \<Longrightarrow> first m = None \<longleftrightarrow> (\<forall>k. find k m = None)"
    and final_Some: "inv m \<Longrightarrow> final m = Some (k, v) \<longleftrightarrow>
          find k m = Some v \<and> (\<forall>j w. find j m = Some w \<longrightarrow> j \<le> k)"
    and final_None: "inv m \<Longrightarrow> final m = None \<longleftrightarrow> (\<forall>k. find k m = None)"
begin

lemma first_le_final:
  assumes "inv m" "first m = Some (k, v)" "final m = Some (j, w)"
  shows "k \<le> j"
  using assms by (simp add: first_Some final_Some)

text \<open>Assigning to a key moves the first and the last key at most to that key.\<close>

lemma first_assign:
  assumes m: "inv m" and f: "first m = Some (k, v)"
  shows "\<exists>u. first (assign j w m) = Some (min j k, u)"
proof -
  have "first (assign j w m) = Some (min j k, if j \<le> k then w else v)"
    using f by (auto simp: first_Some [OF m] first_Some [OF inv_assign [OF m]]
      find_assign [OF m] min_def split: if_splits)
  then show ?thesis by blast
qed

lemma final_assign:
  assumes m: "inv m" and f: "final m = Some (k, v)"
  shows "\<exists>u. final (assign j w m) = Some (max j k, u)"
proof -
  have "final (assign j w m) = Some (max j k, if k \<le> j then w else v)"
    using f by (auto simp: final_Some [OF m] final_Some [OF inv_assign [OF m]]
      find_assign [OF m] max_def split: if_splits)
  then show ?thesis by blast
qed

text \<open>Erasing a key never brings a smaller first key or a larger last key.\<close>

lemma first_erase_le:
  assumes m: "inv m" and "first m = Some (k, v)" "first (erase j m) = Some (i, u)"
  shows "k \<le> i"
  using assms by (auto simp: first_Some [OF m] first_Some [OF inv_erase [OF m]]
      find_erase [OF m] split: if_splits)

lemma final_erase_le:
  assumes m: "inv m" and "final m = Some (k, v)" "final (erase j m) = Some (i, u)"
  shows "i \<le> k"
  using assms by (auto simp: final_Some [OF m] final_Some [OF inv_erase [OF m]]
      find_erase [OF m] split: if_splits)

end

section \<open>The association list provides it\<close>

lemma om_inv_simps [simp]:
  "om_inv []"
  "om_inv (kv # m) \<longleftrightarrow> (\<forall>x \<in> set m. fst kv < fst x) \<and> om_inv m"
  by (auto simp: om_inv_def)

lemma om_inv_append:
  "om_inv (m @ m') \<longleftrightarrow> om_inv m \<and> om_inv m' \<and> (\<forall>x \<in> set m. \<forall>y \<in> set m'. fst x < fst y)"
  by (induction m) auto

lemma om_inv_distinct: "om_inv m \<Longrightarrow> distinct (map fst m)"
  by (induction m) auto

lemma om_find_iff: "om_inv m \<Longrightarrow> om_find k m = Some v \<longleftrightarrow> (k, v) \<in> set m"
  by (simp add: om_find_def om_inv_distinct)

lemma om_find_None: "om_find k m = None \<longleftrightarrow> k \<notin> fst ` set m"
  by (simp add: om_find_def map_of_eq_None_iff)

lemma set_om_assign:
  "om_inv m \<Longrightarrow> set (om_assign k v m) = insert (k, v) {kv \<in> set m. fst kv \<noteq> k}"
proof (induction m)
  case Nil
  then show ?case by simp
next
  case (Cons kv m)
  then have "om_inv m" and above: "\<forall>x \<in> set m. fst kv < fst x" by simp_all
  with Cons.IH have IH: "set (om_assign k v m) = insert (k, v) {x \<in> set m. fst x \<noteq> k}" by simp
  show ?case using above by (auto simp: IH)
qed

lemma om_inv_assign [wf_intros]: "om_inv m \<Longrightarrow> om_inv (om_assign k v m)"
  by (induction m) (auto simp: set_om_assign)

lemma om_inv_erase [wf_intros]: "om_inv m \<Longrightarrow> om_inv (om_erase k m)"
  by (induction m) (auto simp: om_erase_def)

lemma set_om_erase: "set (om_erase k m) = {kv \<in> set m. fst kv \<noteq> k}"
  by (simp add: om_erase_def)

lemma om_find_assign:
  "om_inv m \<Longrightarrow> om_find k (om_assign j v m) = (if k = j then Some v else om_find k m)"
  by (induction m) (auto simp: om_find_def)

lemma om_find_erase: "om_find k (om_erase j m) = (if k = j then None else om_find k m)"
  by (induction m) (auto simp: om_find_def om_erase_def)

lemma om_begin_simps [simp]:
  "om_begin [] = None" "om_begin (kv # m) = Some kv" "om_begin m = None \<longleftrightarrow> m = []"
  by (auto simp: om_begin_def split: list.splits)

lemma om_rbegin_simps [simp]:
  "om_rbegin [] = None" "om_rbegin (m @ [kv]) = Some kv" "om_rbegin m = None \<longleftrightarrow> m = []"
  by (auto simp: om_rbegin_def split: list.splits)

lemma om_begin_eq_Some: "om_begin m = Some kv \<longleftrightarrow> (\<exists>m'. m = kv # m')"
  by (cases m) auto

lemma om_rbegin_eq_Some: "om_rbegin m = Some kv \<longleftrightarrow> (\<exists>m'. m = m' @ [kv])"
  by (cases m rule: rev_cases) auto

lemma om_find_all_None: "(\<forall>k. om_find k m = None) \<longleftrightarrow> m = []"
  by (cases m) (auto simp: om_find_def)

lemma om_begin_least:
  assumes "om_inv m"
  shows "om_begin m = Some (k, v) \<longleftrightarrow>
    om_find k m = Some v \<and> (\<forall>j w. om_find j m = Some w \<longrightarrow> k \<le> j)"
  using assms unfolding om_find_iff [OF assms]
proof (cases m)
  case (Cons kv m')
  obtain a b where kv: "kv = (a, b)" by (cases kv)
  with Cons assms have above: "\<And>x. x \<in> set m' \<Longrightarrow> a < fst x" by auto
  show "om_begin m = Some (k, v) \<longleftrightarrow> (k, v) \<in> set m \<and> (\<forall>j w. (j, w) \<in> set m \<longrightarrow> k \<le> j)"
    using above [of "(k, v)"] by (auto simp: Cons kv dest: above leD)
qed simp

lemma om_rbegin_greatest:
  assumes "om_inv m"
  shows "om_rbegin m = Some (k, v) \<longleftrightarrow>
    om_find k m = Some v \<and> (\<forall>j w. om_find j m = Some w \<longrightarrow> j \<le> k)"
  using assms unfolding om_find_iff [OF assms]
proof (cases m rule: rev_cases)
  case (snoc m' kv)
  obtain a b where kv: "kv = (a, b)" by (cases kv)
  with snoc assms have below: "\<And>x. x \<in> set m' \<Longrightarrow> fst x < a" by (auto simp: om_inv_append)
  show "om_rbegin m = Some (k, v) \<longleftrightarrow> (k, v) \<in> set m \<and> (\<forall>j w. (j, w) \<in> set m \<longrightarrow> j \<le> k)"
    using below [of "(k, v)"] by (auto simp: snoc kv dest: below leD)
qed simp

interpretation om: ordered_map om_find om_assign om_erase om_begin om_rbegin om_inv
  by unfold_locales
    (simp_all add: om_find_assign om_find_erase om_inv_assign om_inv_erase om_begin_least
      om_rbegin_greatest om_find_all_None)

section \<open>Replacing or dropping the entry at an end\<close>

text \<open>The matching loop writes back or erases the first or the last entry.\<close>

lemma om_assign_begin [simp]: "om_assign k w ((k, v) # m) = (k, w) # m"
  by simp

lemma om_assign_rbegin: "om_inv (m @ [(k, v)]) \<Longrightarrow> om_assign k w (m @ [(k, v)]) = m @ [(k, w)]"
  by (induction m) auto

lemma om_erase_begin: "om_inv ((k, v) # m) \<Longrightarrow> om_erase k ((k, v) # m) = m"
  by (auto simp: om_erase_def intro!: filter_True)

lemma om_erase_rbegin: "om_inv (m @ [(k, v)]) \<Longrightarrow> om_erase k (m @ [(k, v)]) = m"
  by (auto simp: om_erase_def om_inv_append intro!: filter_True)

lemma length_om_erase: "(k, v) \<in> set m \<Longrightarrow> length (om_erase k m) < length m"
  unfolding om_erase_def by (rule length_filter_less) auto

end
