(* ===== verification/Matching_Engine.thy ===== *)
theory Matching_Engine
  imports Order_Types Ordered_Map
begin

text \<open>
  The matching engine of \<open>include/matching_engine.hpp\<close> and \<open>src/matching_engine.cpp\<close>: its state
  and every operation on it, in the order of the source.

  A price level is a \<open>std::list\<close>, whose nodes keep their identity while other nodes come and go;
  the index holds an iterator, that is such an identity. A node is a number paired with the order
  it stores, fresh numbers come from \<open>next_node\<close>. Using an iterator whose node is no longer in
  the list it was taken from is undefined in C++ and is the error \<open>DanglingIterator\<close> here.

  \<open>books_\<close> and \<open>index_\<close> are unordered dictionaries and become partial functions. \<open>books_[s]\<close>
  inserts an empty book for a new symbol, and so does \<open>book_for\<close>. The C++ operations hold a
  reference into \<open>books_\<close> while they run; the model works on the book and stores it back when
  the operation ends. When an operation throws, the model returns the error alone.
\<close>

section \<open>State\<close>

record resting_order =
  ro_symbol :: string
  ro_order_id :: int
  ro_participant_id :: string
  ro_side :: side
  ro_price_ticks :: int
  ro_remaining :: int
  ro_entered_sequence :: int

type_synonym node = "nat \<times> resting_order"
type_synonym level = "node list"
type_synonym side_map = "(int, level) omap"

record book =
  bids :: side_map
  asks :: side_map

record location =
  loc_symbol :: string
  loc_side :: side
  loc_price :: int
  loc_iter :: nat

record engine =
  books :: "string \<rightharpoonup> book"
  engine_sequence :: int
  index :: "int \<rightharpoonup> location"
  next_node :: nat

definition empty_book :: book where
  "empty_book = \<lparr>bids = [], asks = []\<rparr>"

definition empty_engine :: engine where
  "empty_engine = \<lparr>books = (\<lambda>_. None), engine_sequence = 0, index = (\<lambda>_. None), next_node = 0\<rparr>"

definition next_sequence :: "engine \<Rightarrow> int" where
  "next_sequence e = engine_sequence e + 1"

definition book_side :: "side \<Rightarrow> book \<Rightarrow> side_map" where
  "book_side s b = (if s = Buy then bids b else asks b)"

definition set_book_side :: "side \<Rightarrow> side_map \<Rightarrow> book \<Rightarrow> book" where
  "set_book_side s m b = (if s = Buy then b\<lparr>bids := m\<rparr> else b\<lparr>asks := m\<rparr>)"

definition store_book :: "string \<Rightarrow> book \<Rightarrow> engine \<Rightarrow> engine" where
  "store_book s b e = e\<lparr>books := (books e)(s \<mapsto> b)\<rparr>"

definition book_for :: "string \<Rightarrow> engine \<Rightarrow> book \<times> engine" where
  "book_for s e =
     (case books e s of
        Some b \<Rightarrow> (b, e)
      | None \<Rightarrow> (empty_book, store_book s empty_book e))"

definition find_book :: "string \<Rightarrow> engine \<Rightarrow> book option" where
  "find_book s e = books e s"

section \<open>Events\<close>

definition event :: "event_type \<Rightarrow> string \<Rightarrow> payload \<Rightarrow> engine \<Rightarrow> exec_event \<times> engine" where
  "event ty s p e =
     (let n = engine_sequence e + 1
      in (\<lparr>ev_sequence = n, ev_type = ty, ev_symbol = s, ev_payload = p\<rparr>,
          e\<lparr>engine_sequence := n\<rparr>))"

definition engine_reject :: "string \<Rightarrow> int \<Rightarrow> string \<Rightarrow> engine \<Rightarrow> exec_event \<times> engine" where
  "engine_reject s order_id reason e =
     event Rejected s [''order_id'' \<mapsto> PInt order_id, ''reason'' \<mapsto> PStr reason] e"

section \<open>The book\<close>

definition level_volume :: "level \<Rightarrow> int" where
  "level_volume lv = sum_list (map (\<lambda>nd. ro_remaining (snd nd)) lv)"

text \<open>The two loops of \<open>available_volume\<close>: levels from the best price on, up to the first one
  beyond the limit (\<open>break\<close>).\<close>

fun volume_until :: "(int \<Rightarrow> bool) \<Rightarrow> side_map \<Rightarrow> int \<Rightarrow> int" where
  "volume_until stop [] acc = acc"
| "volume_until stop ((p, lv) # m) acc =
     (if stop p then acc else volume_until stop m (acc + level_volume lv))"

definition available_volume :: "book \<Rightarrow> side \<Rightarrow> int \<Rightarrow> int" where
  "available_volume b s limit_price =
     (if s = Sell then volume_until (\<lambda>p. p > limit_price) (asks b) 0
      else volume_until (\<lambda>p. p < limit_price) (rev (bids b)) 0)"

definition rest_order :: "book \<Rightarrow> add_order \<Rightarrow> int \<Rightarrow> engine \<Rightarrow> book \<times> engine" where
  "rest_order b cmd remaining e =
     (let m = book_side (ao_side cmd) b;
          lv = (case om_find (ao_price_ticks cmd) m of None \<Rightarrow> [] | Some lv \<Rightarrow> lv);
          ord = \<lparr>ro_symbol = ao_symbol cmd, ro_order_id = ao_order_id cmd,
                 ro_participant_id = ao_participant_id cmd, ro_side = ao_side cmd,
                 ro_price_ticks = ao_price_ticks cmd, ro_remaining = remaining,
                 ro_entered_sequence = engine_sequence e\<rparr>;
          iter = next_node e;
          loc = \<lparr>loc_symbol = ao_symbol cmd, loc_side = ao_side cmd,
                 loc_price = ao_price_ticks cmd, loc_iter = iter\<rparr>
      in (set_book_side (ao_side cmd) (om_assign (ao_price_ticks cmd) (lv @ [(iter, ord)]) m) b,
          e\<lparr>index := (index e)(ao_order_id cmd \<mapsto> loc), next_node := Suc iter\<rparr>))"

text \<open>\<open>*iter\<close> for an iterator stored in the index.\<close>

definition deref :: "engine \<Rightarrow> location \<Rightarrow> resting_order result" where
  "deref e loc =
     (case books e (loc_symbol loc) of
        None \<Rightarrow> Inl DanglingIterator
      | Some b \<Rightarrow>
          (case om_find (loc_price loc) (book_side (loc_side loc) b) of
             None \<Rightarrow> Inl DanglingIterator
           | Some lv \<Rightarrow>
               (case map_of lv (loc_iter loc) of
                  None \<Rightarrow> Inl DanglingIterator
                | Some ord \<Rightarrow> Inr ord)))"

text \<open>\<open>level.erase(iter)\<close>.\<close>

definition erase_node :: "nat \<Rightarrow> level \<Rightarrow> level result" where
  "erase_node n lv =
     (if n \<in> fst ` set lv then Inr (filter (\<lambda>nd. fst nd \<noteq> n) lv) else Inl DanglingIterator)"

definition remove_resting :: "int \<Rightarrow> engine \<Rightarrow> engine result" where
  "remove_resting order_id e =
     (case index e order_id of
        None \<Rightarrow> Inr e
      | Some loc \<Rightarrow>
          (let (b, e1) = book_for (loc_symbol loc) e;
               m = book_side (loc_side loc) b;
               unindexed = e1\<lparr>index := (index e1)(order_id := None)\<rparr>
           in case om_find (loc_price loc) m of
                None \<Rightarrow> Inr unindexed
              | Some lv \<Rightarrow>
                  rbind (erase_node (loc_iter loc) lv) (\<lambda>lv'.
                    let m' = (if lv' = [] then om_erase (loc_price loc) m
                              else om_assign (loc_price loc) lv' m)
                    in Inr (store_book (loc_symbol loc)
                         (set_book_side (loc_side loc) m' b) unindexed))))"

definition build_trade :: "add_order \<Rightarrow> resting_order \<Rightarrow> int \<Rightarrow> trade result" where
  "build_trade active passive qty =
     (if qty \<le> 0 then Inl (MatchingEngineError ''non-positive trade quantity'')
      else if ao_symbol active \<noteq> ro_symbol passive then Inl (MatchingEngineError ''symbol mismatch'')
      else Inr
        (if ao_side active = Buy then
           \<lparr>tr_symbol = ao_symbol active, tr_price_ticks = ro_price_ticks passive, tr_quantity = qty,
            tr_buyer_order_id = ao_order_id active, tr_seller_order_id = ro_order_id passive,
            tr_buyer_participant_id = ao_participant_id active,
            tr_seller_participant_id = ro_participant_id passive,
            tr_passive_order_id = ro_order_id passive,
            tr_aggressive_order_id = ao_order_id active\<rparr>
         else
           \<lparr>tr_symbol = ao_symbol active, tr_price_ticks = ro_price_ticks passive, tr_quantity = qty,
            tr_buyer_order_id = ro_order_id passive, tr_seller_order_id = ao_order_id active,
            tr_buyer_participant_id = ro_participant_id passive,
            tr_seller_participant_id = ao_participant_id active,
            tr_passive_order_id = ro_order_id passive,
            tr_aggressive_order_id = ao_order_id active\<rparr>))"

definition check_not_crossed :: "string \<Rightarrow> book \<Rightarrow> unit result" where
  "check_not_crossed s b =
     (case (om_rbegin (bids b), om_begin (asks b)) of
        (Some (bb, _), Some (ba, _)) \<Rightarrow>
          (if bb \<ge> ba then Inl (MatchingEngineError (''crossed book on '' @ s)) else Inr ())
      | _ \<Rightarrow> Inr ())"

section \<open>The matching loops\<close>

text \<open>The local variables of \<open>add\<close> while it matches: \<open>remaining\<close>, \<open>events\<close>, \<open>trades\<close>, and the
  engine's own fields, which \<open>event\<close> and \<open>index_.erase\<close> change.\<close>

record match_run =
  run_engine :: engine
  run_remaining :: int
  run_events :: "exec_event list"
  run_trades :: "trade list"

definition emit :: "event_type \<Rightarrow> string \<Rightarrow> payload \<Rightarrow> match_run \<Rightarrow> match_run" where
  "emit ty s p r =
     (let (ev, e) = event ty s p (run_engine r)
      in r\<lparr>run_engine := e, run_events := run_events r @ [ev]\<rparr>)"

definition unindex :: "int \<Rightarrow> match_run \<Rightarrow> match_run" where
  "unindex order_id r =
     r\<lparr>run_engine := (run_engine r)\<lparr>index := (index (run_engine r))(order_id := None)\<rparr>\<rparr>"

definition cancels_passive :: "self_trade_prevention \<Rightarrow> bool" where
  "cancels_passive stp \<longleftrightarrow> stp = CancelPassive \<or> stp = CancelBoth"

definition cancels_aggressor :: "self_trade_prevention \<Rightarrow> bool" where
  "cancels_aggressor stp \<longleftrightarrow> stp = CancelAggressor \<or> stp = CancelBoth"

definition self_trade :: "add_order \<Rightarrow> resting_order \<Rightarrow> bool" where
  "self_trade cmd passive \<longleftrightarrow>
     ro_participant_id passive = ao_participant_id cmd \<and> ao_stp cmd \<noteq> StpNone"

definition cancel_passive_event :: "add_order \<Rightarrow> resting_order \<Rightarrow> match_run \<Rightarrow> match_run" where
  "cancel_passive_event cmd passive =
     emit Cancelled (ao_symbol cmd)
       [''order_id'' \<mapsto> PInt (ro_order_id passive), ''remaining'' \<mapsto> PInt (ro_remaining passive),
        ''reason'' \<mapsto> PStr ''SELF_TRADE_PREVENTION'']"

definition cancel_aggressor_event :: "add_order \<Rightarrow> match_run \<Rightarrow> match_run" where
  "cancel_aggressor_event cmd r =
     emit Cancelled (ao_symbol cmd)
       [''order_id'' \<mapsto> PInt (ao_order_id cmd), ''remaining'' \<mapsto> PInt (run_remaining r),
        ''reason'' \<mapsto> PStr ''SELF_TRADE_PREVENTION''] r"

definition executed_event :: "add_order \<Rightarrow> resting_order \<Rightarrow> int \<Rightarrow> match_run \<Rightarrow> match_run" where
  "executed_event cmd passive fill =
     emit Executed (ao_symbol cmd)
       [''aggressive_order_id'' \<mapsto> PInt (ao_order_id cmd),
        ''passive_order_id'' \<mapsto> PInt (ro_order_id passive),
        ''price_ticks'' \<mapsto> PInt (ro_price_ticks passive), ''qty'' \<mapsto> PInt fill]"

text \<open>The inner loop, over the orders of one level. After a partial fill the loop goes round
  again with the order still in front, as the source does; by then nothing remains to fill.\<close>

function match_level :: "add_order \<Rightarrow> level \<Rightarrow> match_run \<Rightarrow> (level \<times> match_run) result" where
  "match_level cmd [] r = Inr ([], r)"
| "match_level cmd ((n, passive) # rest) r =
     (if run_remaining r \<le> 0 then Inr ((n, passive) # rest, r)
      else if self_trade cmd passive then
        (let lv1 = (if cancels_passive (ao_stp cmd) then rest else (n, passive) # rest);
             r1 = (if cancels_passive (ao_stp cmd)
                   then unindex (ro_order_id passive) (cancel_passive_event cmd passive r) else r)
         in if cancels_aggressor (ao_stp cmd)
            then Inr (lv1, (cancel_aggressor_event cmd r1)\<lparr>run_remaining := 0\<rparr>)
            else match_level cmd lv1 r1)
      else
        (let fill = (if run_remaining r < ro_remaining passive then run_remaining r
                     else ro_remaining passive)
         in if fill \<le> 0 then Inl (MatchingEngineError ''non-positive fill quantity'')
            else
              (let new_passive_remaining = ro_remaining passive - fill;
                   passive' = passive\<lparr>ro_remaining := new_passive_remaining\<rparr>;
                   r1 = r\<lparr>run_remaining := run_remaining r - fill\<rparr>
               in if new_passive_remaining < 0 then Inl (MatchingEngineError ''passive overfill'')
                  else rbind (build_trade cmd passive' fill) (\<lambda>t.
                    let r2 = executed_event cmd passive' fill
                               (r1\<lparr>run_trades := run_trades r1 @ [t]\<rparr>)
                    in if new_passive_remaining = 0
                       then match_level cmd rest (unindex (ro_order_id passive) r2)
                       else match_level cmd ((n, passive') # rest) r2))))"
  by pat_completeness auto

lemma emit_simps [simp]:
  "run_remaining (emit ty s p r) = run_remaining r"
  "run_trades (emit ty s p r) = run_trades r"
  "index (run_engine (emit ty s p r)) = index (run_engine r)"
  "books (run_engine (emit ty s p r)) = books (run_engine r)"
  "next_node (run_engine (emit ty s p r)) = next_node (run_engine r)"
  "engine_sequence (run_engine (emit ty s p r)) = engine_sequence (run_engine r) + 1"
  "run_events (emit ty s p r) = run_events r @ [\<lparr>ev_sequence = engine_sequence (run_engine r) + 1,
     ev_type = ty, ev_symbol = s, ev_payload = p\<rparr>]"
  by (simp_all add: emit_def event_def Let_def)

lemma unindex_simps [simp]:
  "run_remaining (unindex k r) = run_remaining r"
  "run_trades (unindex k r) = run_trades r"
  "run_events (unindex k r) = run_events r"
  "index (run_engine (unindex k r)) = (index (run_engine r))(k := None)"
  "books (run_engine (unindex k r)) = books (run_engine r)"
  "next_node (run_engine (unindex k r)) = next_node (run_engine r)"
  "engine_sequence (run_engine (unindex k r)) = engine_sequence (run_engine r)"
  by (simp_all add: unindex_def)

lemma stp_cases:
  "stp \<noteq> StpNone \<Longrightarrow> \<not> cancels_aggressor stp \<Longrightarrow> cancels_passive stp"
  by (cases stp) (auto simp: cancels_aggressor_def cancels_passive_def)

termination match_level
  by (relation "measure (\<lambda>(cmd, lv, r). length lv + nat (run_remaining r))")
    (auto simp: self_trade_def executed_event_def cancel_passive_event_def
      cancel_aggressor_event_def dest: stp_cases)

declare match_level.simps(2) [simp del]

text \<open>\<open>opposite_map.begin()\<close> for a buyer, \<open>std::prev(opposite_map.end())\<close> for a seller.\<close>

definition best_level :: "side \<Rightarrow> side_map \<Rightarrow> (int \<times> level) option" where
  "best_level s m = (if s = Buy then om_begin m else om_rbegin m)"

text \<open>The limit check that ends the outer loop.\<close>

definition beyond_limit :: "add_order \<Rightarrow> int \<Rightarrow> bool" where
  "beyond_limit cmd best_price \<longleftrightarrow>
     ao_time_in_force cmd \<noteq> MARKET \<and>
     (ao_side cmd = Buy \<and> ao_price_ticks cmd < best_price \<or>
      ao_side cmd = Sell \<and> ao_price_ticks cmd > best_price)"

text \<open>The body of the inner loop with its error checks resolved. A partial fill leaves nothing
  to do, so the loop ends there; every other round drops the order in front. \<open>trade_of\<close> is the
  trade \<open>build_trade\<close> returns when it does not throw.\<close>

definition trade_of :: "add_order \<Rightarrow> resting_order \<Rightarrow> int \<Rightarrow> trade" where
  "trade_of active passive qty =
     \<lparr>tr_symbol = ao_symbol active, tr_price_ticks = ro_price_ticks passive, tr_quantity = qty,
      tr_buyer_order_id = (if ao_side active = Buy then ao_order_id active else ro_order_id passive),
      tr_seller_order_id = (if ao_side active = Buy then ro_order_id passive else ao_order_id active),
      tr_buyer_participant_id =
        (if ao_side active = Buy then ao_participant_id active else ro_participant_id passive),
      tr_seller_participant_id =
        (if ao_side active = Buy then ro_participant_id passive else ao_participant_id active),
      tr_passive_order_id = ro_order_id passive,
      tr_aggressive_order_id = ao_order_id active\<rparr>"

definition stp_skip :: "add_order \<Rightarrow> resting_order \<Rightarrow> match_run \<Rightarrow> match_run" where
  "stp_skip cmd passive r = unindex (ro_order_id passive) (cancel_passive_event cmd passive r)"

definition stp_stop :: "add_order \<Rightarrow> resting_order \<Rightarrow> match_run \<Rightarrow> match_run" where
  "stp_stop cmd passive r =
     (cancel_aggressor_event cmd
        (if cancels_passive (ao_stp cmd) then stp_skip cmd passive r else r))
     \<lparr>run_remaining := 0\<rparr>"

definition fill_run :: "add_order \<Rightarrow> resting_order \<Rightarrow> int \<Rightarrow> match_run \<Rightarrow> match_run" where
  "fill_run cmd passive fill r =
     executed_event cmd passive fill
       (r\<lparr>run_remaining := run_remaining r - fill,
          run_trades := run_trades r @ [trade_of cmd passive fill]\<rparr>)"

lemma build_trade_ok:
  "0 < qty \<Longrightarrow> ao_symbol cmd = ro_symbol ord \<Longrightarrow> build_trade cmd ord qty = Inr (trade_of cmd ord qty)"
  by (simp add: build_trade_def trade_of_def)

lemma match_level_Cons:
  "match_level cmd ((n, ord) # rest) r =
     (if run_remaining r \<le> 0 then Inr ((n, ord) # rest, r)
      else if self_trade cmd ord then
        (if cancels_aggressor (ao_stp cmd)
         then Inr (if cancels_passive (ao_stp cmd) then rest else (n, ord) # rest,
                   stp_stop cmd ord r)
         else match_level cmd rest (stp_skip cmd ord r))
      else if ro_remaining ord \<le> 0
        then Inl (MatchingEngineError ''non-positive fill quantity'')
      else if ao_symbol cmd \<noteq> ro_symbol ord then Inl (MatchingEngineError ''symbol mismatch'')
      else if ro_remaining ord \<le> run_remaining r
        then match_level cmd rest (unindex (ro_order_id ord)
               (fill_run cmd (ord\<lparr>ro_remaining := 0\<rparr>) (ro_remaining ord) r))
      else (let ord' = ord\<lparr>ro_remaining := ro_remaining ord - run_remaining r\<rparr>
            in Inr ((n, ord') # rest, fill_run cmd ord' (run_remaining r) r)))"
proof (cases "run_remaining r \<le> 0 \<or> self_trade cmd ord")
  case True
  then show ?thesis
    by (subst match_level.simps(2)) (auto simp: stp_stop_def stp_skip_def self_trade_def
        dest: stp_cases)
next
  case False
  then have stuck: "match_level cmd ((n, ord\<lparr>ro_remaining := k\<rparr>) # rest)
      (fill_run cmd ord' (run_remaining r) r) =
      Inr ((n, ord\<lparr>ro_remaining := k\<rparr>) # rest, fill_run cmd ord' (run_remaining r) r)" for k ord'
    by (simp add: match_level.simps(2) fill_run_def executed_event_def)
  consider "ro_remaining ord \<le> 0" | "0 < ro_remaining ord" "ao_symbol cmd \<noteq> ro_symbol ord"
    | "0 < ro_remaining ord" "ao_symbol cmd = ro_symbol ord" by linarith
  then show ?thesis
  proof cases
    case 1
    with False show ?thesis by (subst match_level.simps(2)) simp
  next
    case 2
    with False show ?thesis
      by (subst match_level.simps(2)) (simp add: build_trade_def Let_def)
  next
    case 3
    with False stuck show ?thesis
      by (subst match_level.simps(2)) (auto simp: build_trade_ok fill_run_def Let_def)
  qed
qed

lemma run_step_simps [simp]:
  "run_remaining (stp_skip cmd ord r) = run_remaining r"
  "run_remaining (stp_stop cmd ord r) = 0"
  "run_remaining (fill_run cmd ord q r) = run_remaining r - q"
  "run_trades (stp_skip cmd ord r) = run_trades r"
  "run_trades (stp_stop cmd ord r) = run_trades r"
  "run_trades (fill_run cmd ord q r) = run_trades r @ [trade_of cmd ord q]"
  "index (run_engine (stp_skip cmd ord r)) = (index (run_engine r))(ro_order_id ord := None)"
  "index (run_engine (stp_stop cmd ord r)) =
     (if cancels_passive (ao_stp cmd) then (index (run_engine r))(ro_order_id ord := None)
      else index (run_engine r))"
  "index (run_engine (fill_run cmd ord q r)) = index (run_engine r)"
  by (simp_all add: stp_skip_def stp_stop_def fill_run_def cancel_passive_event_def
      cancel_aggressor_event_def executed_event_def)

lemma run_step_frame [simp, frame_simps]:
  "books (run_engine (stp_skip cmd ord r)) = books (run_engine r)"
  "books (run_engine (stp_stop cmd ord r)) = books (run_engine r)"
  "books (run_engine (fill_run cmd ord q r)) = books (run_engine r)"
  "next_node (run_engine (stp_skip cmd ord r)) = next_node (run_engine r)"
  "next_node (run_engine (stp_stop cmd ord r)) = next_node (run_engine r)"
  "next_node (run_engine (fill_run cmd ord q r)) = next_node (run_engine r)"
  by (simp_all add: stp_skip_def stp_stop_def fill_run_def cancel_passive_event_def
      cancel_aggressor_event_def executed_event_def)

text \<open>What the inner loop leaves: either the level is used up or nothing remains to fill, and
  what remains never grows. The outer loop terminates because of this.\<close>

lemma match_level_exit:
  "match_level cmd lv r = Inr (lv', r') \<Longrightarrow>
     (lv' = [] \<or> run_remaining r' \<le> 0) \<and> run_remaining r' \<le> run_remaining r"
proof (induction lv arbitrary: r)
  case Nil
  then show ?case by simp
next
  case (Cons nd rest)
  obtain n ord where nd: "nd = (n, ord)" by (cases nd)
  from Cons.prems show ?case
    by (auto simp: nd match_level_Cons Let_def split: if_splits dest!: Cons.IH)
qed

function match_side :: "add_order \<Rightarrow> side_map \<Rightarrow> match_run \<Rightarrow> (side_map \<times> match_run) result" where
  "match_side cmd opp r =
     (if run_remaining r \<le> 0 then Inr (opp, r)
      else case best_level (ao_side cmd) opp of
        None \<Rightarrow> Inr (opp, r)
      | Some (best_price, lv) \<Rightarrow>
          (if beyond_limit cmd best_price then Inr (opp, r)
           else rbind (match_level cmd lv r) (\<lambda>(lv', r').
             if lv' = [] then match_side cmd (om_erase best_price opp) r'
             else match_side cmd (om_assign best_price lv' opp) r')))"
  by pat_completeness auto

lemma best_level_in_set: "best_level s m = Some (p, lv) \<Longrightarrow> (p, lv) \<in> set m"
  by (auto simp: best_level_def om_begin_eq_Some om_rbegin_eq_Some split: if_splits)

termination match_side
proof (relation "measures [\<lambda>(cmd, opp, r). nat (run_remaining r), \<lambda>(cmd, opp, r). length opp]",
    goal_cases)
  case 1
  then show ?case by simp
next
  case (2 cmd opp r best p lv res lv' r')
  then have "length (om_erase p opp) < length opp" and "run_remaining r' \<le> run_remaining r"
    by (auto dest!: best_level_in_set length_om_erase match_level_exit)
  with 2 show ?case by auto
next
  case (3 cmd opp r best p lv res lv' r')
  then have "run_remaining r' \<le> 0" by (auto dest!: match_level_exit)
  with 3 show ?case by auto
qed

declare match_side.simps [simp del]

section \<open>Commands\<close>

definition finish_add ::
    "string \<Rightarrow> book \<Rightarrow> match_run \<Rightarrow> (exec_event list \<times> trade list) \<times> engine" where
  "finish_add s b r = ((run_events r, run_trades r), store_book s b (run_engine r))"

definition engine_add ::
    "add_order \<Rightarrow> engine \<Rightarrow> ((exec_event list \<times> trade list) \<times> engine) result" where
  "engine_add cmd e =
     (let (b, e0) = book_for (ao_symbol cmd) e
      in if ao_time_in_force cmd = FOK \<and>
            available_volume b (opposite (ao_side cmd)) (ao_price_ticks cmd) < ao_quantity cmd
         then
           (let (ev, e1) = event Rejected (ao_symbol cmd)
                  [''order_id'' \<mapsto> PInt (ao_order_id cmd), ''reason'' \<mapsto> PStr ''FOK_UNFILLABLE''] e0
            in Inr (([ev], []), e1))
         else
           (let r0 = emit Accepted (ao_symbol cmd)
                  [''order_id'' \<mapsto> PInt (ao_order_id cmd), ''qty'' \<mapsto> PInt (ao_quantity cmd)]
                  \<lparr>run_engine = e0, run_remaining = ao_quantity cmd, run_events = [],
                   run_trades = []\<rparr>
            in rbind (match_side cmd (book_side (opposite (ao_side cmd)) b) r0) (\<lambda>(opp, r).
                 let b1 = set_book_side (opposite (ao_side cmd)) opp b
                 in if run_remaining r > 0 then
                      (if ao_time_in_force cmd = GTC then
                         (let (b2, e2) = rest_order b1 cmd (run_remaining r) (run_engine r);
                              r1 = emit Rested (ao_symbol cmd)
                                [''order_id'' \<mapsto> PInt (ao_order_id cmd),
                                 ''remaining'' \<mapsto> PInt (run_remaining r)] (r\<lparr>run_engine := e2\<rparr>)
                          in rbind (check_not_crossed (ao_symbol cmd) b2) (\<lambda>_.
                               Inr (finish_add (ao_symbol cmd) b2 r1)))
                       else if ao_time_in_force cmd = IOC \<or> ao_time_in_force cmd = MARKET then
                         Inr (finish_add (ao_symbol cmd) b1
                           (emit Cancelled (ao_symbol cmd)
                             [''order_id'' \<mapsto> PInt (ao_order_id cmd),
                              ''remaining'' \<mapsto> PInt (run_remaining r)] r))
                       else Inr (finish_add (ao_symbol cmd) b1 r))
                    else Inr (finish_add (ao_symbol cmd) b1 r))))"

definition engine_cancel :: "cancel_order \<Rightarrow> engine \<Rightarrow> (exec_event list \<times> engine) result" where
  "engine_cancel cmd e =
     (case index e (co_order_id cmd) of
        None \<Rightarrow>
          (let (ev, e1) = event Rejected (co_symbol cmd)
                 [''order_id'' \<mapsto> PInt (co_order_id cmd), ''reason'' \<mapsto> PStr ''UNKNOWN_ORDER''] e
           in Inr ([ev], e1))
      | Some loc \<Rightarrow>
          rbind (deref e loc) (\<lambda>ord.
          rbind (remove_resting (co_order_id cmd) e) (\<lambda>e1.
            let (ev, e2) = event Cancelled (co_symbol cmd)
                  [''order_id'' \<mapsto> PInt (co_order_id cmd),
                   ''remaining'' \<mapsto> PInt (ro_remaining ord)] e1
            in Inr ([ev], e2))))"

definition engine_replace ::
    "replace_order \<Rightarrow> engine \<Rightarrow> ((exec_event list \<times> trade list) \<times> engine) result" where
  "engine_replace cmd e =
     (case index e (rp_order_id cmd) of
        None \<Rightarrow>
          (let (ev, e1) = event Rejected (rp_symbol cmd)
                 [''order_id'' \<mapsto> PInt (rp_order_id cmd), ''reason'' \<mapsto> PStr ''UNKNOWN_ORDER''] e
           in Inr (([ev], []), e1))
      | Some loc \<Rightarrow>
          rbind (deref e loc) (\<lambda>ord.
          rbind (engine_cancel \<lparr>co_symbol = rp_symbol cmd, co_order_id = rp_order_id cmd\<rparr> e)
            (\<lambda>(events, e1).
          rbind (engine_add
              \<lparr>ao_symbol = rp_symbol cmd, ao_order_id = rp_new_order_id cmd,
               ao_participant_id = ro_participant_id ord, ao_side = loc_side loc,
               ao_price_ticks = rp_new_price_ticks cmd, ao_quantity = rp_new_quantity cmd,
               ao_time_in_force = rp_time_in_force cmd, ao_stp = StpNone\<rparr> e1)
            (\<lambda>((add_events, add_trades), e2). Inr ((events @ add_events, add_trades), e2)))))"

definition best_bid :: "string \<Rightarrow> engine \<Rightarrow> int option" where
  "best_bid s e =
     (case find_book s e of None \<Rightarrow> None | Some b \<Rightarrow> map_option fst (om_rbegin (bids b)))"

definition best_ask :: "string \<Rightarrow> engine \<Rightarrow> int option" where
  "best_ask s e =
     (case find_book s e of None \<Rightarrow> None | Some b \<Rightarrow> map_option fst (om_begin (asks b)))"

end
