(* ===== verification/Matching_Spec.thy ===== *)
theory Matching_Spec
  imports Matching_Engine
begin

text \<open>
  What matching means, without price levels: one side of a book is a single queue of orders, best
  price first and oldest first within a price, and an incoming order eats it from the front. The
  lemmas of this theory show that the two nested loops of \<open>add\<close> over the map of levels do exactly
  this (\<open>match_side_refines\<close>), that resting an order inserts it behind all orders of the same or a
  better price, that the loop of \<open>available_volume\<close> adds up the front of the queue, and that
  erasing a node removes one element.
\<close>

section \<open>A side of the book as one queue\<close>

definition side_queue :: "side \<Rightarrow> side_map \<Rightarrow> node list" where
  "side_queue sd m = concat (map snd (if sd = Sell then m else rev m))"

definition wf_order :: "string \<Rightarrow> side \<Rightarrow> int \<Rightarrow> resting_order \<Rightarrow> bool" where
  "wf_order symb sd p ord \<longleftrightarrow>
     ro_symbol ord = symb \<and> ro_side ord = sd \<and> ro_price_ticks ord = p \<and> 0 < ro_remaining ord"

definition wf_side :: "string \<Rightarrow> side \<Rightarrow> side_map \<Rightarrow> bool" where
  "wf_side symb sd m \<longleftrightarrow>
     om_inv m \<and> (\<forall>(p, lv) \<in> set m. lv \<noteq> [] \<and> (\<forall>nd \<in> set lv. wf_order symb sd p (snd nd)))"

fun match_queue :: "add_order \<Rightarrow> node list \<Rightarrow> match_run \<Rightarrow> node list \<times> match_run" where
  "match_queue cmd [] r = ([], r)"
| "match_queue cmd ((n, ord) # q) r =
     (if run_remaining r \<le> 0 \<or> beyond_limit cmd (ro_price_ticks ord) then ((n, ord) # q, r)
      else if self_trade cmd ord then
        (if cancels_aggressor (ao_stp cmd)
         then (if cancels_passive (ao_stp cmd) then q else (n, ord) # q, stp_stop cmd ord r)
         else match_queue cmd q (stp_skip cmd ord r))
      else if ro_remaining ord \<le> run_remaining r
        then match_queue cmd q (unindex (ro_order_id ord)
               (fill_run cmd (ord\<lparr>ro_remaining := 0\<rparr>) (ro_remaining ord) r))
      else (let ord' = ord\<lparr>ro_remaining := ro_remaining ord - run_remaining r\<rparr>
            in ((n, ord') # q, fill_run cmd ord' (run_remaining r) r)))"

text \<open>An order is worse than a price when it would be matched after it.\<close>

definition worse :: "side \<Rightarrow> int \<Rightarrow> int \<Rightarrow> bool" where
  "worse sd p p' \<longleftrightarrow> (if sd = Sell then p < p' else p' < p)"

definition enqueue :: "side \<Rightarrow> int \<Rightarrow> node \<Rightarrow> node list \<Rightarrow> node list" where
  "enqueue sd p nd q =
     takeWhile (\<lambda>x. \<not> worse sd p (ro_price_ticks (snd x))) q @
     nd # dropWhile (\<lambda>x. \<not> worse sd p (ro_price_ticks (snd x))) q"

definition queue_volume :: "node list \<Rightarrow> int" where
  "queue_volume q = sum_list (map (\<lambda>nd. ro_remaining (snd nd)) q)"

section \<open>Lemmas on queues and sides\<close>

lemma side_queue_simps [simp]:
  "side_queue sd [] = []"
  "side_queue Sell ((p, lv) # m) = lv @ side_queue Sell m"
  "side_queue Buy (m @ [(p, lv)]) = lv @ side_queue Buy m"
  by (simp_all add: side_queue_def)

lemma set_side_queue: "set (side_queue sd m) = (\<Union>(p, lv) \<in> set m. set lv)"
  by (auto simp: side_queue_def)

lemma wf_side_simps [simp]:
  "wf_side symb sd []"
  "wf_side symb sd ((p, lv) # m) \<longleftrightarrow>
     lv \<noteq> [] \<and> (\<forall>nd \<in> set lv. wf_order symb sd p (snd nd)) \<and> (\<forall>x \<in> set m. p < fst x) \<and>
     wf_side symb sd m"
  by (auto simp: wf_side_def)

lemma wf_side_snoc [simp]:
  "wf_side symb sd (m @ [(p, lv)]) \<longleftrightarrow>
     lv \<noteq> [] \<and> (\<forall>nd \<in> set lv. wf_order symb sd p (snd nd)) \<and> (\<forall>x \<in> set m. fst x < p) \<and>
     wf_side symb sd m"
  by (auto simp: wf_side_def om_inv_append)

lemma wf_side_inv [dest]: "wf_side symb sd m \<Longrightarrow> om_inv m"
  by (simp add: wf_side_def)

lemma wf_side_levelD:
  assumes "wf_side symb sd m" "(p, lv) \<in> set m"
  shows "lv \<noteq> []" and "\<And>nd. nd \<in> set lv \<Longrightarrow> wf_order symb sd p (snd nd)"
  using assms by (auto simp: wf_side_def)

lemma wf_side_queueD:
  "wf_side symb sd m \<Longrightarrow> nd \<in> set (side_queue sd' m) \<Longrightarrow>
     wf_order symb sd (ro_price_ticks (snd nd)) (snd nd)"
  by (fastforce simp: set_side_queue wf_side_def wf_order_def)

text \<open>An order found in the queue is in the level of its price, and conversely.\<close>

lemma side_queue_find:
  assumes "wf_side symb sd m"
  shows "nd \<in> set (side_queue sd' m) \<and> ro_price_ticks (snd nd) = p \<longleftrightarrow>
    (\<exists>lv. om_find p m = Some lv \<and> nd \<in> set lv)"
proof -
  have "om_inv m" using assms by blast
  then have "(\<exists>lv. om_find p m = Some lv \<and> nd \<in> set lv) \<longleftrightarrow>
      (\<exists>lv. (p, lv) \<in> set m \<and> nd \<in> set lv)" by (simp add: om_find_iff)
  also have "\<dots> \<longleftrightarrow> nd \<in> set (side_queue sd' m) \<and> ro_price_ticks (snd nd) = p"
    using assms by (fastforce simp: set_side_queue wf_side_def wf_order_def)
  finally show ?thesis by blast
qed

lemma wf_side_assign [wf_intros]:
  "wf_side symb sd m \<Longrightarrow> lv \<noteq> [] \<Longrightarrow> (\<And>nd. nd \<in> set lv \<Longrightarrow> wf_order symb sd p (snd nd)) \<Longrightarrow>
     wf_side symb sd (om_assign p lv m)"
  by (auto simp: wf_side_def set_om_assign om_inv_assign)

lemma wf_side_erase [wf_intros]: "wf_side symb sd m \<Longrightarrow> wf_side symb sd (om_erase p m)"
  by (auto simp: wf_side_def set_om_erase om_inv_erase)

section \<open>The loops refine the queue\<close>

lemma match_queue_done: "run_remaining r \<le> 0 \<Longrightarrow> match_queue cmd q r = (q, r)"
  by (cases q) auto

lemma match_level_refines:
  assumes "\<And>nd. nd \<in> set lv \<Longrightarrow> wf_order (ao_symbol cmd) sd p (snd nd)"
    and "\<not> beyond_limit cmd p"
  shows "\<exists>lv' r'. match_level cmd lv r = Inr (lv', r') \<and>
    match_queue cmd (lv @ q) r = match_queue cmd (lv' @ q) r' \<and>
    (\<forall>nd \<in> set lv'. wf_order (ao_symbol cmd) sd p (snd nd))"
  using assms(1)
proof (induction lv arbitrary: r)
  case Nil
  then show ?case by simp
next
  case (Cons nd rest)
  obtain n ord where nd: "nd = (n, ord)" by (cases nd)
  with Cons.prems have ord: "wf_order (ao_symbol cmd) sd p ord" by force
  have IH: "\<exists>lv' r'. match_level cmd rest r1 = Inr (lv', r') \<and>
      match_queue cmd (rest @ q) r1 = match_queue cmd (lv' @ q) r' \<and>
      (\<forall>nd \<in> set lv'. wf_order (ao_symbol cmd) sd p (snd nd))" for r1
    by (rule Cons.IH) (use Cons.prems in simp)
  consider (stop) "run_remaining r \<le> 0"
    | (stp_stop) "0 < run_remaining r" "self_trade cmd ord" "cancels_aggressor (ao_stp cmd)"
    | (stp_skip) "0 < run_remaining r" "self_trade cmd ord" "\<not> cancels_aggressor (ao_stp cmd)"
    | (all) "0 < run_remaining r" "\<not> self_trade cmd ord" "ro_remaining ord \<le> run_remaining r"
    | (part) "0 < run_remaining r" "\<not> self_trade cmd ord" "run_remaining r < ro_remaining ord"
    by linarith
  then show ?case
  proof cases
    case stop
    then show ?thesis using Cons.prems by (auto simp: nd match_level_Cons)
  next
    case stp_stop
    then show ?thesis using Cons.prems assms(2) ord
      by (auto simp: nd match_level_Cons match_queue_done wf_order_def)
  next
    case stp_skip
    then show ?thesis using assms(2) ord IH [of "stp_skip cmd ord r"]
      by (auto simp: nd match_level_Cons wf_order_def)
  next
    case all
    then show ?thesis using assms(2) ord
        IH [of "unindex (ro_order_id ord) (fill_run cmd (ord\<lparr>ro_remaining := 0\<rparr>) (ro_remaining ord) r)"]
      by (auto simp: nd match_level_Cons wf_order_def)
  next
    case part
    then show ?thesis using Cons.prems assms(2) ord
      by (auto simp: nd match_level_Cons match_queue_done wf_order_def Let_def)
  qed
qed

text \<open>The best level is the front of the queue of its side.\<close>

lemma best_level_split:
  assumes "best_level s opp = Some (p, lv)" "wf_side symb sd opp"
  shows "side_queue (opposite s) opp = lv @ side_queue (opposite s) (om_erase p opp)"
    and "lv' \<noteq> [] \<Longrightarrow> side_queue (opposite s) (om_assign p lv' opp) =
           lv' @ side_queue (opposite s) (om_erase p opp)"
proof -
  have "om_inv opp" using assms(2) by blast
  moreover from assms(1) have "if s = Buy then (\<exists>m. opp = (p, lv) # m) else (\<exists>m. opp = m @ [(p, lv)])"
    by (simp add: best_level_def om_begin_eq_Some om_rbegin_eq_Some split: if_splits)
  ultimately show "side_queue (opposite s) opp = lv @ side_queue (opposite s) (om_erase p opp)"
    and "lv' \<noteq> [] \<Longrightarrow> side_queue (opposite s) (om_assign p lv' opp) =
           lv' @ side_queue (opposite s) (om_erase p opp)"
    by (cases s; auto simp: om_erase_begin om_erase_rbegin om_assign_rbegin)+
qed

lemma match_side_refines:
  assumes "wf_side (ao_symbol cmd) sd opp"
  shows "\<exists>opp'. match_side cmd opp r =
      Inr (opp', snd (match_queue cmd (side_queue (opposite (ao_side cmd)) opp) r)) \<and>
    side_queue (opposite (ao_side cmd)) opp' =
      fst (match_queue cmd (side_queue (opposite (ao_side cmd)) opp) r) \<and>
    wf_side (ao_symbol cmd) sd opp'"
  using assms
proof (induction cmd opp r rule: match_side.induct)
  case (1 cmd opp r)
  let ?q = "side_queue (opposite (ao_side cmd))"
  show ?case
  proof (cases "run_remaining r \<le> 0")
    case True
    with "1.prems" show ?thesis by (simp add: match_side.simps [of cmd opp r] match_queue_done)
  next
    case False
    show ?thesis
    proof (cases "best_level (ao_side cmd) opp")
      case None
      then have "opp = []" by (simp add: best_level_def split: if_splits)
      with None show ?thesis by (simp add: match_side.simps [of cmd "[]" r])
    next
      case (Some best)
      then obtain p lv where best: "best_level (ao_side cmd) opp = Some (p, lv)" by (cases best) auto
      then have lv: "lv \<noteq> []" "\<And>nd. nd \<in> set lv \<Longrightarrow> wf_order (ao_symbol cmd) sd p (snd nd)"
        using wf_side_levelD [OF "1.prems" best_level_in_set [OF best]] by auto
      note front = best_level_split [OF best "1.prems"]
      show ?thesis
      proof (cases "beyond_limit cmd p")
        case True
        from lv(1) obtain n ord rest where cons: "lv = (n, ord) # rest" by (cases lv) auto
        with lv(2) [of "(n, ord)"] have "ro_price_ticks ord = p" by (simp add: wf_order_def)
        with True have "match_queue cmd (?q opp) r = (?q opp, r)" by (simp add: front(1) cons)
        with True False best "1.prems" show ?thesis by (simp add: match_side.simps [of cmd opp r])
      next
        case ok: False
        from match_level_refines [OF lv(2) ok, where r = r and q = "?q (om_erase p opp)"] obtain lv' r' where
          ml: "match_level cmd lv r = Inr (lv', r')" and
          mq: "match_queue cmd (?q opp) r = match_queue cmd (lv' @ ?q (om_erase p opp)) r'" and
          wf': "\<forall>nd \<in> set lv'. wf_order (ao_symbol cmd) sd p (snd nd)"
          unfolding front(1) by blast
        define opp1 where "opp1 = (if lv' = [] then om_erase p opp else om_assign p lv' opp)"
        have step: "match_side cmd opp r = match_side cmd opp1 r'"
          using False best ok ml by (simp add: match_side.simps [of cmd opp r] opp1_def)
        have wf1: "wf_side (ao_symbol cmd) sd opp1"
          using "1.prems" wf' by (auto simp: opp1_def intro: wf_intros)
        have q1: "?q opp1 = lv' @ ?q (om_erase p opp)"
          using front(2) by (simp add: opp1_def)
        have IH: "\<exists>opp'. match_side cmd opp1 r' = Inr (opp', snd (match_queue cmd (?q opp1) r')) \<and>
            ?q opp' = fst (match_queue cmd (?q opp1) r') \<and> wf_side (ao_symbol cmd) sd opp'"
          using "1.IH" [OF False best refl ok ml refl] wf1 by (auto simp: opp1_def)
        then show ?thesis unfolding step mq q1 by simp
      qed
    qed
  qed
qed

section \<open>Resting, adding up and erasing, on the queue\<close>

lemma enqueue_pass:
  "(\<And>x. x \<in> set l \<Longrightarrow> \<not> worse sd p (ro_price_ticks (snd x))) \<Longrightarrow>
     enqueue sd p nd (l @ q) = l @ enqueue sd p nd q"
  by (induction l) (auto simp: enqueue_def)

lemma enqueue_front:
  "(\<And>x. x \<in> set q \<Longrightarrow> worse sd p (ro_price_ticks (snd x))) \<Longrightarrow> enqueue sd p nd q = nd # q"
  by (cases q) (auto simp: enqueue_def)

lemma om_assign_snoc:
  "om_inv (m @ [(k, l)]) \<Longrightarrow> om_assign p v (m @ [(k, l)]) =
     (if k < p then m @ [(k, l), (p, v)]
      else if k = p then m @ [(p, v)] else om_assign p v m @ [(k, l)])"
  by (induction m) (auto split: if_splits)

text \<open>The level an order is appended to: the one of its price, or a new empty one.\<close>

definition level_at :: "int \<Rightarrow> side_map \<Rightarrow> level" where
  "level_at p m = (case om_find p m of None \<Rightarrow> [] | Some lv \<Rightarrow> lv)"

lemma level_at_simps:
  "level_at p [] = []"
  "level_at p ((k, l) # m) = (if k = p then l else level_at p m)"
  by (simp_all add: level_at_def om_find_def)

lemma level_at_absent: "p \<notin> fst ` set m \<Longrightarrow> level_at p m = []"
  by (simp add: level_at_def om_find_None [symmetric])

lemma level_at_snoc:
  "om_inv (m @ [(k, l)]) \<Longrightarrow> level_at p (m @ [(k, l)]) = (if k = p then l else level_at p m)"
  by (induction m) (auto simp: level_at_simps)

lemma side_queue_ahead:
  assumes "wf_side symb sd m" and "x \<in> set (side_queue sd' m)"
  shows "ro_price_ticks (snd x) \<in> fst ` set m"
  using assms by (force simp: set_side_queue wf_side_def wf_order_def)

lemma rest_refines_enqueue:
  assumes "wf_side symb sd' m"
  shows "side_queue sd (om_assign p (level_at p m @ [nd]) m) = enqueue sd p nd (side_queue sd m)"
proof (cases sd)
  case Sell
  show ?thesis using assms unfolding Sell
  proof (induction m)
    case Nil
    then show ?case by (simp add: enqueue_def level_at_simps)
  next
    case (Cons kl m)
    obtain k l where kl: "kl = (k, l)" by (cases kl)
    with Cons.prems have wf: "wf_side symb sd' m" and price: "\<And>x. x \<in> set l \<Longrightarrow> ro_price_ticks (snd x) = k"
      and above: "\<And>x. x \<in> set m \<Longrightarrow> k < fst x" by (auto simp: wf_order_def)
    have later: "k < ro_price_ticks (snd x)" if "x \<in> set (side_queue Sell m)" for x
      using side_queue_ahead [OF wf that] above by auto
    note IH = Cons.IH [OF wf]
    consider "k < p" | "k = p" | "p < k" by linarith
    then show ?case
    proof cases
      case 1
      then have "\<not> worse Sell p (ro_price_ticks (snd x))" if "x \<in> set l" for x
        using price [OF that] by (simp add: worse_def)
      with 1 IH show ?thesis by (simp add: kl level_at_simps enqueue_pass)
    next
      case 2
      then have "\<not> worse Sell p (ro_price_ticks (snd x))" if "x \<in> set l" for x
        using price [OF that] by (simp add: worse_def)
      moreover have "enqueue Sell p nd (side_queue Sell m) = nd # side_queue Sell m"
        using 2 later by (intro enqueue_front) (simp add: worse_def)
      ultimately show ?thesis using 2 by (simp add: kl level_at_simps enqueue_pass)
    next
      case 3
      then have "p \<notin> fst ` set m" using above by force
      moreover have "enqueue Sell p nd (l @ side_queue Sell m) = nd # l @ side_queue Sell m"
        using 3 later price by (intro enqueue_front) (fastforce simp: worse_def)
      ultimately show ?thesis using 3 by (simp add: kl level_at_simps level_at_absent)
    qed
  qed
next
  case Buy
  show ?thesis using assms unfolding Buy
  proof (induction m rule: rev_induct)
    case Nil
    then show ?case by (simp add: enqueue_def level_at_simps side_queue_def)
  next
    case (snoc kl m)
    obtain k l where kl: "kl = (k, l)" by (cases kl)
    with snoc.prems have wf: "wf_side symb sd' m" and price: "\<And>x. x \<in> set l \<Longrightarrow> ro_price_ticks (snd x) = k"
      and below: "\<And>x. x \<in> set m \<Longrightarrow> fst x < k" by (auto simp: wf_order_def)
    from snoc.prems have inv: "om_inv (m @ [(k, l)])" unfolding kl by (rule wf_side_inv)
    have later: "ro_price_ticks (snd x) < k" if "x \<in> set (side_queue Buy m)" for x
      using side_queue_ahead [OF wf that] below by auto
    note IH = snoc.IH [OF wf]
    consider "p < k" | "k = p" | "k < p" by linarith
    then show ?case
    proof cases
      case 1
      then have "\<not> worse Buy p (ro_price_ticks (snd x))" if "x \<in> set l" for x
        using price [OF that] by (simp add: worse_def)
      with 1 IH inv show ?thesis by (simp add: kl level_at_snoc om_assign_snoc enqueue_pass)
    next
      case 2
      then have "\<not> worse Buy p (ro_price_ticks (snd x))" if "x \<in> set l" for x
        using price [OF that] by (simp add: worse_def)
      moreover have "enqueue Buy p nd (side_queue Buy m) = nd # side_queue Buy m"
        using 2 later by (intro enqueue_front) (simp add: worse_def)
      ultimately show ?thesis using 2 inv
        by (simp add: kl level_at_snoc om_assign_snoc enqueue_pass)
    next
      case 3
      then have "p \<notin> fst ` set m" using below by force
      moreover have "enqueue Buy p nd (l @ side_queue Buy m) = nd # l @ side_queue Buy m"
        using 3 later price by (intro enqueue_front) (fastforce simp: worse_def)
      ultimately show ?thesis using 3 inv
        by (simp add: kl level_at_snoc om_assign_snoc level_at_absent side_queue_def)
    qed
  qed
qed

lemma queue_volume_simps [simp]:
  "queue_volume [] = 0"
  "queue_volume (nd # q) = ro_remaining (snd nd) + queue_volume q"
  "queue_volume (q @ q') = queue_volume q + queue_volume q'"
  by (simp_all add: queue_volume_def)

lemma volume_until_queue:
  assumes "\<And>p lv. (p, lv) \<in> set m \<Longrightarrow> lv \<noteq> [] \<and> (\<forall>nd \<in> set lv. ro_price_ticks (snd nd) = p)"
  shows "volume_until stop m acc =
    acc + queue_volume (takeWhile (\<lambda>nd. \<not> stop (ro_price_ticks (snd nd))) (concat (map snd m)))"
  using assms
proof (induction stop m acc rule: volume_until.induct)
  case (1 stop acc)
  then show ?case by simp
next
  case (2 stop p lv m acc)
  have lv: "lv \<noteq> []" "\<And>nd. nd \<in> set lv \<Longrightarrow> ro_price_ticks (snd nd) = p"
    using "2.prems" [of p lv] by auto
  show ?case
  proof (cases "stop p")
    case True
    with lv have "takeWhile (\<lambda>nd. \<not> stop (ro_price_ticks (snd nd))) (lv @ concat (map snd m)) = []"
      by (cases lv) auto
    with True show ?thesis by simp
  next
    case False
    with lv have "takeWhile (\<lambda>nd. \<not> stop (ro_price_ticks (snd nd))) (lv @ concat (map snd m)) =
        lv @ takeWhile (\<lambda>nd. \<not> stop (ro_price_ticks (snd nd))) (concat (map snd m))"
      by (intro takeWhile_append2) auto
    moreover have "volume_until stop m (acc + level_volume lv) = acc + level_volume lv +
        queue_volume (takeWhile (\<lambda>nd. \<not> stop (ro_price_ticks (snd nd))) (concat (map snd m)))"
      by (rule "2.IH" [OF False]) (use "2.prems" in auto)
    ultimately show ?thesis using False by (simp add: level_volume_def queue_volume_def)
  qed
qed

lemma available_volume_queue:
  assumes "wf_side symb sd (book_side sd b)"
  shows "available_volume b sd limit =
    queue_volume (takeWhile (\<lambda>nd. \<not> worse sd limit (ro_price_ticks (snd nd)))
      (side_queue sd (book_side sd b)))"
proof -
  have levels: "lv \<noteq> [] \<and> (\<forall>nd \<in> set lv. ro_price_ticks (snd nd) = p)"
    if "(p, lv) \<in> set (book_side sd b)" for p lv
    using wf_side_levelD [OF assms that] by (auto simp: wf_order_def)
  show ?thesis
  proof (cases sd)
    case Buy
    with levels volume_until_queue [of "rev (bids b)" "\<lambda>p. p < limit" 0] show ?thesis
      by (simp add: available_volume_def side_queue_def book_side_def worse_def)
  next
    case Sell
    with levels volume_until_queue [of "asks b" "\<lambda>p. p > limit" 0] show ?thesis
      by (simp add: available_volume_def side_queue_def book_side_def worse_def)
  qed
qed

text \<open>An entry splits the map, and assigning to its key or erasing it acts on that place only.\<close>

lemma om_find_split:
  assumes "om_inv m" "om_find p m = Some lv"
  shows "\<exists>m1 m2. m = m1 @ (p, lv) # m2 \<and> om_erase p m = m1 @ m2 \<and>
    (\<forall>lv'. om_assign p lv' m = m1 @ (p, lv') # m2)"
proof -
  from assms have "(p, lv) \<in> set m" by (simp add: om_find_iff)
  then obtain m1 m2 where m: "m = m1 @ (p, lv) # m2" by (auto simp: in_set_conv_decomp)
  with assms(1) have inv: "om_inv (m1 @ (p, lv) # m2)" by simp
  then have "\<And>x. x \<in> set m1 \<union> set m2 \<Longrightarrow> fst x \<noteq> p" by (auto simp: om_inv_append)
  then have "om_erase p m = m1 @ m2" by (simp add: m om_erase_def filter_id_conv)
  moreover have "om_assign p lv' (m1 @ (p, lv) # m2) = m1 @ (p, lv') # m2" for lv'
    using inv by (induction m1) auto
  ultimately show ?thesis using m by blast
qed

lemma erase_refines_filter:
  assumes wf: "wf_side symb sd' m" and lv: "om_find p m = Some lv" and n: "n \<in> fst ` set lv"
    and nodes: "distinct (map fst (side_queue sd m))"
    and lv': "lv' = filter (\<lambda>nd. fst nd \<noteq> n) lv"
  shows "side_queue sd (if lv' = [] then om_erase p m else om_assign p lv' m) =
    filter (\<lambda>nd. fst nd \<noteq> n) (side_queue sd m)"
proof -
  from wf have "om_inv m" by blast
  from om_find_split [OF this lv] obtain m1 m2 where m: "m = m1 @ (p, lv) # m2"
    and er: "om_erase p m = m1 @ m2" and asg: "\<And>lv'. om_assign p lv' m = m1 @ (p, lv') # m2" by blast
  from nodes n have "n \<notin> fst ` set (concat (map snd m1))" "n \<notin> fst ` set (concat (map snd m2))"
    unfolding m by (cases sd; force simp: side_queue_def image_iff)+
  then have "filter (\<lambda>nd. fst nd \<noteq> n) (concat (map snd l)) = concat (map snd l)"
      "filter (\<lambda>nd. fst nd \<noteq> n) (concat (map snd (rev l))) = concat (map snd (rev l))"
    if "l = m1 \<or> l = m2" for l
    using that by (intro filter_True; force)+
  then show ?thesis
    by (cases "lv' = []"; cases sd; simp add: er [unfolded m] asg [unfolded m] m side_queue_def lv')
qed

end
