(* ===== verification/Matching_Accounts.thy ===== *)
theory Matching_Accounts
  imports Matching_Spec
begin

text \<open>
  What eating the queue does, in closed form: which trades come out (\<open>fills\<close> of the \<open>eligible\<close>
  orders), which orders are gone and which entries of the index with them, how the events are
  numbered, and how the quantities balance.
\<close>

section \<open>Trades in closed form\<close>

text \<open>The orders an incoming order may trade with, in order: those within its limit; of these,
  with self-trade prevention, the ones of other participants, and with a mode that cancels the
  aggressor only those before its first own order. These are written out on the fields of the orders, not
  with the tests of the program, which are shown to agree.\<close>

definition within_limit :: "add_order \<Rightarrow> node \<Rightarrow> bool" where
  "within_limit cmd nd \<longleftrightarrow> ao_time_in_force cmd = MARKET \<or>
     (case ao_side cmd of Buy \<Rightarrow> ro_price_ticks (snd nd) \<le> ao_price_ticks cmd
      | Sell \<Rightarrow> ao_price_ticks cmd \<le> ro_price_ticks (snd nd))"

definition own_order :: "add_order \<Rightarrow> node \<Rightarrow> bool" where
  "own_order cmd nd \<longleftrightarrow> ao_stp cmd \<noteq> StpNone \<and> ao_participant_id cmd = ro_participant_id (snd nd)"

definition eligible :: "add_order \<Rightarrow> node list \<Rightarrow> node list" where
  "eligible cmd q =
     (let f = takeWhile (within_limit cmd) q
      in if ao_stp cmd \<in> {CancelAggressor, CancelBoth} then takeWhile (\<lambda>nd. \<not> own_order cmd nd) f
         else filter (\<lambda>nd. \<not> own_order cmd nd) f)"

lemma within_limit_test: "within_limit cmd nd \<longleftrightarrow> \<not> beyond_limit cmd (ro_price_ticks (snd nd))"
  by (auto simp: within_limit_def beyond_limit_def split: side.splits)

lemma eligible_test:
  "eligible cmd q =
     (let f = takeWhile (within_limit cmd) q
      in if cancels_aggressor (ao_stp cmd) then takeWhile (\<lambda>nd. \<not> self_trade cmd (snd nd)) f
         else filter (\<lambda>nd. \<not> self_trade cmd (snd nd)) f)"
proof -
  have "own_order cmd nd \<longleftrightarrow> self_trade cmd (snd nd)" for nd by (auto simp: own_order_def self_trade_def)
  then show ?thesis by (auto simp: eligible_def cancels_aggressor_def Let_def)
qed

text \<open>Greedy filling of a quantity from the front of a queue: which order, how much.\<close>

fun fills :: "int \<Rightarrow> node list \<Rightarrow> (resting_order \<times> int) list" where
  "fills rem [] = []"
| "fills rem ((n, ord) # q) =
     (if rem \<le> 0 then []
      else if ro_remaining ord \<le> rem then (ord, ro_remaining ord) # fills (rem - ro_remaining ord) q
      else [(ord, rem)])"

lemma fills_done [simp]: "rem \<le> 0 \<Longrightarrow> fills rem q = []"
  by (cases q) auto

lemma trade_of_remaining [simp]: "trade_of cmd (ord\<lparr>ro_remaining := k\<rparr>) q = trade_of cmd ord q"
  by (simp add: trade_of_def)

lemma eligible_simps [simp]:
  "eligible cmd [] = []"
  "\<not> within_limit cmd nd \<Longrightarrow> eligible cmd (nd # q) = []"
  "within_limit cmd nd \<Longrightarrow> \<not> self_trade cmd (snd nd) \<Longrightarrow> eligible cmd (nd # q) = nd # eligible cmd q"
  "self_trade cmd (snd nd) \<Longrightarrow> cancels_aggressor (ao_stp cmd) \<Longrightarrow> eligible cmd (nd # q) = []"
  "within_limit cmd nd \<Longrightarrow> self_trade cmd (snd nd) \<Longrightarrow> \<not> cancels_aggressor (ao_stp cmd) \<Longrightarrow>
     eligible cmd (nd # q) = eligible cmd q"
  by (auto simp: eligible_test Let_def)

lemma match_queue_trades:
  "run_trades (snd (match_queue cmd q r)) =
     run_trades r @ map (\<lambda>(ord, k). trade_of cmd ord k) (fills (run_remaining r) (eligible cmd q))"
proof (induction cmd q r rule: match_queue.induct)
  case (1 cmd r)
  then show ?case by simp
next
  case (2 cmd n ord q r)
  show ?case
  proof (cases "run_remaining r \<le> 0 \<or> beyond_limit cmd (ro_price_ticks ord)")
    case True
    then show ?thesis by (auto simp: within_limit_test)
  next
    case go: False
    then have lim: "within_limit cmd (n, ord)" by (simp add: within_limit_test)
    show ?thesis
    proof (cases "self_trade cmd ord")
      case True
      with go lim "2.IH"(1) show ?thesis by (auto simp: eligible_simps(5))
    next
      case False
      with go lim "2.IH"(2) show ?thesis by (auto simp: Let_def)
    qed
  qed
qed

lemma fills_in_queue: "(ord, k) \<in> set (fills rem q) \<Longrightarrow> \<exists>n. (n, ord) \<in> set q"
  by (induction rem q rule: fills.induct) (auto split: if_splits)

lemma fills_bounds:
  "(\<And>nd. nd \<in> set q \<Longrightarrow> 0 < ro_remaining (snd nd)) \<Longrightarrow> (ord, k) \<in> set (fills rem q) \<Longrightarrow>
     0 < k \<and> k \<le> ro_remaining ord \<and> k \<le> rem"
proof (induction rem q rule: fills.induct)
  case (1 rem)
  then show ?case by simp
next
  case (2 rem n o1 q)
  from "2.prems"(1) [of "(n, o1)"] have "0 < ro_remaining o1" by simp
  with 2 show ?case by (force split: if_splits)
qed

lemma sum_fills:
  "(\<And>nd. nd \<in> set q \<Longrightarrow> 0 < ro_remaining (snd nd)) \<Longrightarrow> 0 \<le> rem \<Longrightarrow>
     sum_list (map snd (fills rem q)) = min rem (queue_volume q)"
proof (induction rem q rule: fills.induct)
  case (1 rem)
  then show ?case by simp
next
  case (2 rem n o1 q)
  have "0 < ro_remaining o1" using "2.prems"(1) [of "(n, o1)"] by simp
  moreover have "0 \<le> queue_volume q" unfolding queue_volume_def
  proof (rule sum_list_nonneg)
    fix x assume "x \<in> set (map (\<lambda>nd. ro_remaining (snd nd)) q)"
    then obtain nd where "nd \<in> set q" "x = ro_remaining (snd nd)" by auto
    with "2.prems"(1) [of nd] show "0 \<le> x" by simp
  qed
  ultimately have pos: "0 < ro_remaining o1" "0 \<le> queue_volume q" by blast+
  with 2 show ?case by (auto simp: min_def)
qed

lemma eligible_subset: "set (eligible cmd q) \<subseteq> set q"
  by (auto simp: eligible_test Let_def dest: set_takeWhileD split: if_splits)

lemma eligible_within:
  "nd \<in> set (eligible cmd q) \<Longrightarrow> within_limit cmd nd \<and> \<not> self_trade cmd (snd nd)"
  by (auto simp: eligible_test Let_def dest: set_takeWhileD split: if_splits)

lemma eligible_no_stp: "ao_stp cmd = StpNone \<Longrightarrow> eligible cmd q = takeWhile (within_limit cmd) q"
  by (simp add: eligible_test self_trade_def cancels_aggressor_def)

section \<open>What is left of the queue and of the index\<close>

definition order_ids :: "node list \<Rightarrow> int set" where
  "order_ids q = (\<lambda>nd. ro_order_id (snd nd)) ` set q"

definition without :: "('k \<rightharpoonup> 'v) \<Rightarrow> 'k set \<Rightarrow> ('k \<rightharpoonup> 'v)" where
  "without m S = (\<lambda>k. if k \<in> S then None else m k)"

lemma without_simps:
  "without m {} = m"
  "without m (order_ids []) = m"
  "without (m(k := None)) S = without m (insert k S)"
  "without m S k = Some v \<longleftrightarrow> k \<notin> S \<and> m k = Some v"
  by (auto simp: without_def order_ids_def)

lemma match_queue_frame [simp]:
  "books (run_engine (snd (match_queue cmd q r))) = books (run_engine r)"
  "next_node (run_engine (snd (match_queue cmd q r))) = next_node (run_engine r)"
  by (induction cmd q r rule: match_queue.induct) (simp_all add: Let_def)

text \<open>The orders taken off are a front part of the queue; the next one may be left with less. The
  index loses exactly the ids of the orders taken off.\<close>

definition leaves :: "node list \<Rightarrow> node list \<Rightarrow> node list \<Rightarrow> bool" where
  "leaves q gone q' \<longleftrightarrow>
     (\<exists>rest. q = gone @ rest \<and>
        (q' = rest \<or>
         (\<exists>n ord tl k. rest = (n, ord) # tl \<and> q' = (n, ord\<lparr>ro_remaining := k\<rparr>) # tl \<and>
            0 < k \<and> k < ro_remaining ord)))"

lemma leaves_intros:
  "leaves q [] q"
  "0 < k \<Longrightarrow> k < ro_remaining ord \<Longrightarrow> leaves ((n, ord) # q) [] ((n, ord\<lparr>ro_remaining := k\<rparr>) # q)"
  "leaves q gone q' \<Longrightarrow> leaves (nd # q) (nd # gone) q'"
  by (auto simp: leaves_def)

lemma match_queue_leaves:
  "\<exists>gone. leaves q gone (fst (match_queue cmd q r)) \<and>
     index (run_engine (snd (match_queue cmd q r))) = without (index (run_engine r)) (order_ids gone)"
proof (induction cmd q r rule: match_queue.induct)
  case (1 cmd r)
  have "leaves [] [] []" by (rule leaves_intros)
  then show ?case by (intro exI [of _ "[]"]) (simp add: without_simps)
next
  case (2 cmd n ord q r)
  let ?off = "unindex (ro_order_id ord)
    (fill_run cmd (ord\<lparr>ro_remaining := 0\<rparr>) (ro_remaining ord) r)"
  have keep: "\<exists>gone. leaves ((n, ord) # q) gone ((n, ord) # q) \<and>
      index (run_engine r) = without (index (run_engine r)) (order_ids gone)"
    by (intro exI [of _ "[]"]) (simp add: without_simps leaves_intros)
  have drop: "\<exists>gone. leaves ((n, ord) # q) gone q \<and>
      (index (run_engine r))(ro_order_id ord := None) = without (index (run_engine r)) (order_ids gone)"
    using leaves_intros(3) [OF leaves_intros(1)]
    by (intro exI [of _ "[(n, ord)]"]) (auto simp: order_ids_def without_def)
  have later: "\<exists>gone. leaves ((n, ord) # q) gone (fst res) \<and>
      index (run_engine (snd res)) = without (index (run_engine r)) (order_ids gone)"
    if "\<exists>gone. leaves q gone (fst res) \<and> index (run_engine (snd res)) =
      without ((index (run_engine r))(ro_order_id ord := None)) (order_ids gone)"
    for res :: "node list \<times> match_run"
  proof -
    from that obtain gone where "leaves q gone (fst res)" and "index (run_engine (snd res)) =
      without ((index (run_engine r))(ro_order_id ord := None)) (order_ids gone)" by blast
    moreover have "order_ids ((n, ord) # gone) = insert (ro_order_id ord) (order_ids gone)"
      by (simp add: order_ids_def)
    ultimately show ?thesis
      unfolding without_simps by (intro exI [of _ "(n, ord) # gone"]) (simp add: leaves_intros)
  qed
  consider (stop) "run_remaining r \<le> 0 \<or> beyond_limit cmd (ro_price_ticks ord)"
    | (stp) "\<not> (run_remaining r \<le> 0 \<or> beyond_limit cmd (ro_price_ticks ord))" "self_trade cmd ord"
    | (all) "\<not> (run_remaining r \<le> 0 \<or> beyond_limit cmd (ro_price_ticks ord))"
        "\<not> self_trade cmd ord" "ro_remaining ord \<le> run_remaining r"
    | (part) "\<not> (run_remaining r \<le> 0 \<or> beyond_limit cmd (ro_price_ticks ord))"
        "\<not> self_trade cmd ord" "\<not> ro_remaining ord \<le> run_remaining r"
    by blast
  then show ?case
  proof cases
    case stop
    then show ?thesis using keep by simp
  next
    case stp
    show ?thesis
    proof (cases "cancels_aggressor (ao_stp cmd)")
      case True
      with stp keep drop show ?thesis
        by (cases "cancels_passive (ao_stp cmd)") (simp_all del: fun_upd_apply)
    next
      case False
      with stp later [of "match_queue cmd q (stp_skip cmd ord r)"] "2.IH"(1) show ?thesis
        by (simp del: fun_upd_apply)
    qed
  next
    case all
    then show ?thesis using later [of "match_queue cmd q ?off"] "2.IH"(2)
      by (simp del: fun_upd_apply)
  next
    case part
    then show ?thesis using leaves_intros(2) [of "ro_remaining ord - run_remaining r" ord n q]
      by (intro exI [of _ "[]"]) (simp add: without_simps Let_def)
  qed
qed

section \<open>Numbering of events\<close>

text \<open>The events a run has emitted since the engine had the sequence number \<open>s\<close> are numbered
  \<open>s + 1\<close>, \<open>s + 2\<close> and so on, up to the engine's number now.\<close>

definition numbered :: "int \<Rightarrow> exec_event list \<Rightarrow> int \<Rightarrow> bool" where
  "numbered s evs s' \<longleftrightarrow> s \<le> s' \<and> map ev_sequence evs = [s + 1..s']"

definition run_numbered :: "int \<Rightarrow> match_run \<Rightarrow> bool" where
  "run_numbered s r \<longleftrightarrow> numbered s (run_events r) (engine_sequence (run_engine r))"

lemma numbered_Nil [simp]: "numbered s [] s"
  by (simp add: numbered_def)

lemma numbered_snoc: "numbered s evs s' \<Longrightarrow> ev_sequence ev = s' + 1 \<Longrightarrow> numbered s (evs @ [ev]) (s' + 1)"
  using upto_rec2 [of "s + 1" "s' + 1"] by (simp add: numbered_def)

lemma numbered_append: "numbered s evs s' \<Longrightarrow> numbered s' evs' s'' \<Longrightarrow> numbered s (evs @ evs') s''"
  using upto_split1 [of "s + 1" "s' + 1" "s''"]
  by (cases "s' = s''") (auto simp: numbered_def)

lemma run_numbered_emit [simp]: "run_numbered s r \<Longrightarrow> run_numbered s (emit ty sb p r)"
  by (simp add: run_numbered_def numbered_snoc)

lemma run_numbered_update [simp]:
  "run_numbered s (unindex k r) = run_numbered s r"
  "run_numbered s (r\<lparr>run_remaining := q\<rparr>) = run_numbered s r"
  "run_numbered s (r\<lparr>run_trades := ts\<rparr>) = run_numbered s r"
  by (simp_all add: run_numbered_def)

lemma run_numbered_steps:
  "run_numbered s r \<Longrightarrow> run_numbered s (stp_skip cmd ord r)"
  "run_numbered s r \<Longrightarrow> run_numbered s (stp_stop cmd ord r)"
  "run_numbered s r \<Longrightarrow> run_numbered s (fill_run cmd ord q r)"
  by (simp_all add: stp_skip_def stp_stop_def fill_run_def cancel_passive_event_def
      cancel_aggressor_event_def executed_event_def)

lemma match_queue_numbered: "run_numbered s r \<Longrightarrow> run_numbered s (snd (match_queue cmd q r))"
  by (induction cmd q r rule: match_queue.induct)
    (simp_all add: Let_def run_numbered_steps)

section \<open>The balance of quantities\<close>

text \<open>The integer a payload holds under a key (0 if none), and its total over the events of one
  type.\<close>

definition event_amount :: "string \<Rightarrow> exec_event \<Rightarrow> int" where
  "event_amount key ev = (case ev_payload ev key of Some (PInt n) \<Rightarrow> n | _ \<Rightarrow> 0)"

definition amount :: "event_type \<Rightarrow> string \<Rightarrow> exec_event list \<Rightarrow> int" where
  "amount ty key evs = sum_list (map (event_amount key) (filter (\<lambda>ev. ev_type ev = ty) evs))"

definition accepted_qty :: "exec_event list \<Rightarrow> int" where
  "accepted_qty = amount Accepted ''qty''"

definition executed_qty :: "exec_event list \<Rightarrow> int" where
  "executed_qty = amount Executed ''qty''"

definition cancelled_qty :: "exec_event list \<Rightarrow> int" where
  "cancelled_qty = amount Cancelled ''remaining''"

definition traded_qty :: "trade list \<Rightarrow> int" where
  "traded_qty ts = sum_list (map tr_quantity ts)"

lemmas qty_defs = accepted_qty_def executed_qty_def cancelled_qty_def

lemma amount_simps [simp]:
  "amount ty key [] = 0"
  "amount ty key (ev # evs) =
     (if ev_type ev = ty then event_amount key ev else 0) + amount ty key evs"
  "amount ty key (evs @ evs') = amount ty key evs + amount ty key evs'"
  by (simp_all add: amount_def)

lemma traded_qty_simps [simp]:
  "traded_qty [] = 0" "traded_qty (t # ts) = tr_quantity t + traded_qty ts"
  "traded_qty (ts @ ts') = traded_qty ts + traded_qty ts'"
  by (simp_all add: traded_qty_def)

lemma tr_quantity_trade_of [simp]: "tr_quantity (trade_of cmd ord q) = q"
  by (simp add: trade_of_def)

lemma run_step_amounts [simp]:
  "amount Accepted k (run_events (stp_skip cmd ord r)) = amount Accepted k (run_events r)"
  "amount Accepted k (run_events (stp_stop cmd ord r)) = amount Accepted k (run_events r)"
  "amount Accepted k (run_events (fill_run cmd ord q r)) = amount Accepted k (run_events r)"
  "amount Executed k (run_events (stp_skip cmd ord r)) = amount Executed k (run_events r)"
  "amount Executed k (run_events (stp_stop cmd ord r)) = amount Executed k (run_events r)"
  "amount Executed ''qty'' (run_events (fill_run cmd ord q r)) =
     amount Executed ''qty'' (run_events r) + q"
  "amount Cancelled ''remaining'' (run_events (stp_skip cmd ord r)) =
     amount Cancelled ''remaining'' (run_events r) + ro_remaining ord"
  "amount Cancelled ''remaining'' (run_events (stp_stop cmd ord r)) =
     amount Cancelled ''remaining'' (run_events r) + run_remaining r +
     (if cancels_passive (ao_stp cmd) then ro_remaining ord else 0)"
  "amount Cancelled k (run_events (fill_run cmd ord q r)) = amount Cancelled k (run_events r)"
  by (simp_all add: stp_skip_def stp_stop_def fill_run_def cancel_passive_event_def
      cancel_aggressor_event_def executed_event_def event_amount_def)

text \<open>The quantity still to fill and the quantity on the opposite side, together with twice what
  was executed and with what was cancelled, do not change.\<close>

lemma match_queue_balance:
  "queue_volume (fst (match_queue cmd q r)) + run_remaining (snd (match_queue cmd q r)) +
     2 * executed_qty (run_events (snd (match_queue cmd q r))) +
     cancelled_qty (run_events (snd (match_queue cmd q r))) =
   queue_volume q + run_remaining r + 2 * executed_qty (run_events r) + cancelled_qty (run_events r)"
  by (induction cmd q r rule: match_queue.induct) (simp_all add: qty_defs Let_def)

lemma match_queue_traded:
  "executed_qty (run_events (snd (match_queue cmd q r))) - traded_qty (run_trades (snd (match_queue cmd q r))) =
   executed_qty (run_events r) - traded_qty (run_trades r)"
  by (induction cmd q r rule: match_queue.induct) (simp_all add: qty_defs Let_def)

lemma match_queue_accepted:
  "accepted_qty (run_events (snd (match_queue cmd q r))) = accepted_qty (run_events r)"
  by (induction cmd q r rule: match_queue.induct) (simp_all add: qty_defs Let_def)

text \<open>Without self-trade prevention, what remains is what was not traded.\<close>

lemma match_queue_remaining:
  "ao_stp cmd = StpNone \<Longrightarrow>
     run_remaining (snd (match_queue cmd q r)) + traded_qty (run_trades (snd (match_queue cmd q r))) =
     run_remaining r + traded_qty (run_trades r)"
  by (induction cmd q r rule: match_queue.induct) (simp_all add: self_trade_def Let_def)

lemma match_queue_nonneg:
  "0 \<le> run_remaining r \<Longrightarrow> 0 \<le> run_remaining (snd (match_queue cmd q r))"
  by (induction cmd q r rule: match_queue.induct) (simp_all add: Let_def)

text \<open>Matching stops with something left only when every order within the limit is gone.\<close>

lemma match_queue_exit:
  "0 < run_remaining (snd (match_queue cmd q r)) \<Longrightarrow>
     fst (match_queue cmd q r) = dropWhile (within_limit cmd) q"
  by (induction cmd q r rule: match_queue.induct)
    (auto simp: within_limit_test Let_def split: if_splits)

end
