(* ===== verification/Engine_Spec.thy ===== *)
theory Engine_Spec
  imports Matching_Accounts "HOL-Library.Multiset"
begin

text \<open>
  The engine as its users see it: for every symbol and side one queue of orders in priority order,
  and beside the queues the engine's sequence number, index and node supply. The operations of this
  specification are total: nothing can throw and no iterator can dangle. \<open>Engine_Refinement\<close> shows
  that the engine implements it.

  \<open>spec_inv\<close> is what always holds of it: orders carry the symbol and side of their queue and a
  positive quantity, queues are in priority order, no bid reaches an ask, node identities are
  unique, and every index entry leads to the order it is for.
\<close>

type_synonym queues = "string \<Rightarrow> side \<Rightarrow> node list"
type_synonym spec_state = "queues \<times> engine"

definition set_queue :: "string \<Rightarrow> side \<Rightarrow> node list \<Rightarrow> queues \<Rightarrow> queues" where
  "set_queue s sd q Q = Q(s := (Q s)(sd := q))"

lemma set_queue_apply:
  "set_queue s sd q Q t td = (if t = s \<and> td = sd then q else Q t td)"
  by (simp add: set_queue_def)

section \<open>Operations\<close>

definition resting_of :: "add_order \<Rightarrow> int \<Rightarrow> int \<Rightarrow> resting_order" where
  "resting_of cmd remaining entered =
     \<lparr>ro_symbol = ao_symbol cmd, ro_order_id = ao_order_id cmd,
      ro_participant_id = ao_participant_id cmd, ro_side = ao_side cmd,
      ro_price_ticks = ao_price_ticks cmd, ro_remaining = remaining,
      ro_entered_sequence = entered\<rparr>"

definition location_of :: "add_order \<Rightarrow> nat \<Rightarrow> location" where
  "location_of cmd n =
     \<lparr>loc_symbol = ao_symbol cmd, loc_side = ao_side cmd, loc_price = ao_price_ticks cmd,
      loc_iter = n\<rparr>"

definition spec_rest :: "add_order \<Rightarrow> int \<Rightarrow> spec_state \<Rightarrow> spec_state" where
  "spec_rest cmd remaining S =
     (let (Q, e) = S;
          s = ao_symbol cmd; sd = ao_side cmd;
          nd = (next_node e, resting_of cmd remaining (engine_sequence e))
      in (set_queue s sd (enqueue sd (ao_price_ticks cmd) nd (Q s sd)) Q,
          e\<lparr>index := (index e)(ao_order_id cmd \<mapsto> location_of cmd (next_node e)),
            next_node := Suc (next_node e)\<rparr>))"

definition accept_run :: "add_order \<Rightarrow> engine \<Rightarrow> match_run" where
  "accept_run cmd e =
     emit Accepted (ao_symbol cmd)
       [''order_id'' \<mapsto> PInt (ao_order_id cmd), ''qty'' \<mapsto> PInt (ao_quantity cmd)]
       \<lparr>run_engine = e, run_remaining = ao_quantity cmd, run_events = [], run_trades = []\<rparr>"

definition rested_run :: "add_order \<Rightarrow> int \<Rightarrow> match_run \<Rightarrow> match_run" where
  "rested_run cmd remaining =
     emit Rested (ao_symbol cmd)
       [''order_id'' \<mapsto> PInt (ao_order_id cmd), ''remaining'' \<mapsto> PInt remaining]"

definition dropped_run :: "add_order \<Rightarrow> int \<Rightarrow> match_run \<Rightarrow> match_run" where
  "dropped_run cmd remaining =
     emit Cancelled (ao_symbol cmd)
       [''order_id'' \<mapsto> PInt (ao_order_id cmd), ''remaining'' \<mapsto> PInt remaining]"

definition unfillable :: "add_order \<Rightarrow> node list \<Rightarrow> bool" where
  "unfillable cmd q \<longleftrightarrow>
     ao_time_in_force cmd = FOK \<and>
     queue_volume (takeWhile (within_limit cmd) q) < ao_quantity cmd"

definition spec_add ::
    "add_order \<Rightarrow> spec_state \<Rightarrow> (exec_event list \<times> trade list) \<times> spec_state" where
  "spec_add cmd S =
     (let (Q, e) = S; s = ao_symbol cmd; osd = opposite (ao_side cmd)
      in if unfillable cmd (Q s osd) then
           (let (ev, e1) = event Rejected s
                  [''order_id'' \<mapsto> PInt (ao_order_id cmd), ''reason'' \<mapsto> PStr ''FOK_UNFILLABLE''] e
            in (([ev], []), (Q, e1)))
         else
           (let (q, r) = match_queue cmd (Q s osd) (accept_run cmd e);
                Q1 = set_queue s osd q Q;
                remaining = run_remaining r
            in if remaining > 0 \<and> ao_time_in_force cmd = GTC then
                 (let (Q2, e2) = spec_rest cmd remaining (Q1, run_engine r);
                      r1 = rested_run cmd remaining (r\<lparr>run_engine := e2\<rparr>)
                  in ((run_events r1, run_trades r1), (Q2, run_engine r1)))
               else
                 (let r1 = (if remaining > 0 \<and> ao_time_in_force cmd \<noteq> FOK
                            then dropped_run cmd remaining r else r)
                  in ((run_events r1, run_trades r1), (Q1, run_engine r1)))))"

definition spec_remove :: "int \<Rightarrow> location \<Rightarrow> spec_state \<Rightarrow> spec_state" where
  "spec_remove order_id loc S =
     (let (Q, e) = S; s = loc_symbol loc; sd = loc_side loc
      in (set_queue s sd (filter (\<lambda>nd. fst nd \<noteq> loc_iter loc) (Q s sd)) Q,
          e\<lparr>index := (index e)(order_id := None)\<rparr>))"

definition spec_order :: "location \<Rightarrow> spec_state \<Rightarrow> resting_order option" where
  "spec_order loc S = map_of (fst S (loc_symbol loc) (loc_side loc)) (loc_iter loc)"

definition spec_unknown :: "string \<Rightarrow> int \<Rightarrow> spec_state \<Rightarrow> exec_event \<times> spec_state" where
  "spec_unknown s order_id S =
     (let (ev, e1) = event Rejected s
            [''order_id'' \<mapsto> PInt order_id, ''reason'' \<mapsto> PStr ''UNKNOWN_ORDER''] (snd S)
      in (ev, (fst S, e1)))"

definition spec_cancel :: "cancel_order \<Rightarrow> spec_state \<Rightarrow> exec_event list \<times> spec_state" where
  "spec_cancel cmd S =
     (case index (snd S) (co_order_id cmd) of
        None \<Rightarrow> (let (ev, S1) = spec_unknown (co_symbol cmd) (co_order_id cmd) S in ([ev], S1))
      | Some loc \<Rightarrow>
          (case spec_order loc S of
             None \<Rightarrow> ([], S)
           | Some ord \<Rightarrow>
               (let (Q1, e1) = spec_remove (co_order_id cmd) loc S;
                    (ev, e2) = event Cancelled (co_symbol cmd)
                      [''order_id'' \<mapsto> PInt (co_order_id cmd),
                       ''remaining'' \<mapsto> PInt (ro_remaining ord)] e1
                in ([ev], (Q1, e2)))))"

definition replacement :: "replace_order \<Rightarrow> side \<Rightarrow> resting_order \<Rightarrow> add_order" where
  "replacement cmd sd ord =
     \<lparr>ao_symbol = rp_symbol cmd, ao_order_id = rp_new_order_id cmd,
      ao_participant_id = ro_participant_id ord, ao_side = sd,
      ao_price_ticks = rp_new_price_ticks cmd, ao_quantity = rp_new_quantity cmd,
      ao_time_in_force = rp_time_in_force cmd, ao_stp = StpNone\<rparr>"

definition spec_replace ::
    "replace_order \<Rightarrow> spec_state \<Rightarrow> (exec_event list \<times> trade list) \<times> spec_state" where
  "spec_replace cmd S =
     (case index (snd S) (rp_order_id cmd) of
        None \<Rightarrow> (let (ev, S1) = spec_unknown (rp_symbol cmd) (rp_order_id cmd) S in (([ev], []), S1))
      | Some loc \<Rightarrow>
          (case spec_order loc S of
             None \<Rightarrow> (([], []), S)
           | Some ord \<Rightarrow>
               (let (evs, S1) = spec_cancel \<lparr>co_symbol = rp_symbol cmd, co_order_id = rp_order_id cmd\<rparr> S;
                    ((evs', ts), S2) = spec_add (replacement cmd (loc_side loc) ord) S1
                in ((evs @ evs', ts), S2))))"

section \<open>The invariant\<close>

definition in_priority_order :: "side \<Rightarrow> node list \<Rightarrow> bool" where
  "in_priority_order sd =
     sorted_wrt (\<lambda>x y. \<not> worse sd (ro_price_ticks (snd y)) (ro_price_ticks (snd x)))"

definition orders_ok :: "queues \<Rightarrow> bool" where
  "orders_ok Q \<longleftrightarrow>
     (\<forall>s sd. in_priority_order sd (Q s sd) \<and>
        (\<forall>nd \<in> set (Q s sd). wf_order s sd (ro_price_ticks (snd nd)) (snd nd)))"

definition uncrossed :: "queues \<Rightarrow> bool" where
  "uncrossed Q \<longleftrightarrow>
     (\<forall>s. \<forall>x \<in> set (Q s Buy). \<forall>y \<in> set (Q s Sell). ro_price_ticks (snd x) < ro_price_ticks (snd y))"

definition nodes_ok :: "queues \<Rightarrow> nat \<Rightarrow> bool" where
  "nodes_ok Q k \<longleftrightarrow>
     (\<forall>s sd. distinct (map fst (Q s sd)) \<and> fst ` set (Q s sd) \<subseteq> {..<k}) \<and>
     (\<forall>s sd t td. (s, sd) \<noteq> (t, td) \<longrightarrow> fst ` set (Q s sd) \<inter> fst ` set (Q t td) = {})"

definition index_sound :: "queues \<Rightarrow> (int \<rightharpoonup> location) \<Rightarrow> bool" where
  "index_sound Q ix \<longleftrightarrow>
     (\<forall>k loc. ix k = Some loc \<longrightarrow>
        (\<exists>ord. (loc_iter loc, ord) \<in> set (Q (loc_symbol loc) (loc_side loc)) \<and>
           ro_order_id ord = k \<and> ro_price_ticks ord = loc_price loc))"

definition spec_inv :: "spec_state \<Rightarrow> bool" where
  "spec_inv S \<longleftrightarrow>
     orders_ok (fst S) \<and> uncrossed (fst S) \<and> nodes_ok (fst S) (next_node (snd S)) \<and>
     index_sound (fst S) (index (snd S))"

text \<open>Every order is found through the index. This needs order ids that are not reused while the
  order rests, which the engine does not check.\<close>

definition index_complete :: "spec_state \<Rightarrow> bool" where
  "index_complete S \<longleftrightarrow>
     (\<forall>s sd. \<forall>nd \<in> set (fst S s sd). index (snd S) (ro_order_id (snd nd)) =
        Some \<lparr>loc_symbol = s, loc_side = sd, loc_price = ro_price_ticks (snd nd), loc_iter = fst nd\<rparr>)"

section \<open>The invariant under the elementary changes of a queue\<close>

lemma leaves_maps:
  assumes "leaves q gone q'"
  shows "map fst q = map fst gone @ map fst q'"
    and "map (\<lambda>nd. ro_price_ticks (snd nd)) q =
      map (\<lambda>nd. ro_price_ticks (snd nd)) gone @ map (\<lambda>nd. ro_price_ticks (snd nd)) q'"
  using assms by (auto simp: leaves_def)

lemma leaves_origin:
  assumes "leaves q gone q'" "(n, ord') \<in> set q'"
  shows "\<exists>ord k. (n, ord) \<in> set q \<and> ord' = ord\<lparr>ro_remaining := k\<rparr> \<and>
    (0 < ro_remaining ord \<longrightarrow> 0 < k)"
proof -
  consider (same) "(n, ord') \<in> set q"
    | (cut) ord k where "(n, ord) \<in> set q" "ord' = ord\<lparr>ro_remaining := k\<rparr>" "0 < k"
    using assms unfolding leaves_def by auto blast
  then show ?thesis
  proof cases
    case same
    then show ?thesis by (intro exI [of _ ord'] exI [of _ "ro_remaining ord'"]) simp
  qed blast
qed

lemma leaves_kept:
  assumes "leaves q gone q'" "(n, ord) \<in> set q" "ro_order_id ord \<notin> order_ids gone"
  shows "\<exists>k. (n, ord\<lparr>ro_remaining := k\<rparr>) \<in> set q'"
proof -
  from assms(2,3) have "(n, ord) \<notin> set gone" by (force simp: order_ids_def)
  with assms(1,2) consider "(n, ord) \<in> set q'" | k where "(n, ord\<lparr>ro_remaining := k\<rparr>) \<in> set q'"
    unfolding leaves_def by auto blast
  then show ?thesis
  proof cases
    case 1
    then show ?thesis by (intro exI [of _ "ro_remaining ord"]) simp
  qed blast
qed

lemma leaves_wf_order:
  assumes "leaves q gone q'" "nd \<in> set q'"
    and "\<And>x. x \<in> set q \<Longrightarrow> wf_order s sd (ro_price_ticks (snd x)) (snd x)"
  shows "wf_order s sd (ro_price_ticks (snd nd)) (snd nd)"
  using leaves_origin [of q gone q' "fst nd" "snd nd"] assms by (fastforce simp: wf_order_def)

lemma in_priority_order_prices:
  "in_priority_order sd q =
     sorted_wrt (\<lambda>p p'. \<not> worse sd p' p) (map (\<lambda>nd. ro_price_ticks (snd nd)) q)"
  by (simp add: in_priority_order_def sorted_wrt_map)

lemma leaves_in_order: "leaves q gone q' \<Longrightarrow> in_priority_order sd q \<Longrightarrow> in_priority_order sd q'"
  by (simp add: in_priority_order_prices leaves_maps(2) sorted_wrt_append)

lemma set_enqueue [simp]: "set (enqueue sd p nd q) = insert nd (set q)"
proof -
  have "set q = set (takeWhile P q) \<union> set (dropWhile P q)" for P
    by (metis set_append takeWhile_dropWhile_id)
  then show ?thesis by (auto simp: enqueue_def)
qed

lemma mset_enqueue: "mset (enqueue sd p nd q) = add_mset nd (mset q)"
proof -
  have "mset (takeWhile P q) + mset (dropWhile P q) = mset q" for P
    by (metis mset_append takeWhile_dropWhile_id)
  then show ?thesis by (simp add: enqueue_def)
qed

lemma distinct_enqueue:
  "distinct (map fst (enqueue sd p nd q)) \<longleftrightarrow> distinct (map fst q) \<and> fst nd \<notin> fst ` set q"
proof -
  have "mset (map fst (enqueue sd p nd q)) = mset (map fst (nd # q))" by (simp add: mset_enqueue)
  then have "distinct (map fst (enqueue sd p nd q)) = distinct (map fst (nd # q))"
    by (rule mset_eq_imp_distinct_iff)
  then show ?thesis by auto
qed

text \<open>What is not passed over when looking for worse prices is worse.\<close>

lemma dropWhile_worse:
  assumes q: "in_priority_order sd q"
    and y: "y \<in> set (dropWhile (\<lambda>x. \<not> worse sd p (ro_price_ticks (snd x))) q)"
  shows "worse sd p (ro_price_ticks (snd y))"
proof -
  let ?P = "\<lambda>x. \<not> worse sd p (ro_price_ticks (snd x))"
  have q': "in_priority_order sd (takeWhile ?P q @ dropWhile ?P q)" using q by simp
  have "dropWhile ?P q \<noteq> []"
  proof
    assume "dropWhile ?P q = []"
    with y show False by (simp only: list.set empty_iff)
  qed
  then obtain z zs where Cons: "dropWhile ?P q = z # zs" by (auto simp only: neq_Nil_conv)
  then have "worse sd p (ro_price_ticks (snd z))" using hd_dropWhile [of ?P q] by simp
  moreover have "y = z \<or> \<not> worse sd (ro_price_ticks (snd y)) (ro_price_ticks (snd z))"
    using q' y Cons by (auto simp: in_priority_order_def sorted_wrt_append)
  ultimately show ?thesis by (auto simp: worse_def split: if_splits)
qed

lemma enqueue_in_order:
  assumes q: "in_priority_order sd q" and p: "ro_price_ticks (snd nd) = p"
  shows "in_priority_order sd (enqueue sd p nd q)"
proof -
  let ?P = "\<lambda>x. \<not> worse sd p (ro_price_ticks (snd x))"
  have q': "in_priority_order sd (takeWhile ?P q @ dropWhile ?P q)" using q by simp
  have "\<not> worse sd (ro_price_ticks (snd y)) p" if "y \<in> set (dropWhile ?P q)" for y
    using dropWhile_worse [OF q that] by (auto simp: worse_def split: if_splits)
  with q' [unfolded in_priority_order_def sorted_wrt_append] p show ?thesis
    unfolding enqueue_def in_priority_order_def sorted_wrt_append
    by (auto dest: set_takeWhileD)
qed

lemma orders_ok_set_queue:
  assumes "orders_ok Q" "in_priority_order sd q"
    and "\<And>nd. nd \<in> set q \<Longrightarrow> wf_order s sd (ro_price_ticks (snd nd)) (snd nd)"
  shows "orders_ok (set_queue s sd q Q)"
  using assms by (simp add: orders_ok_def set_queue_apply)

lemma uncrossed_set_queue:
  assumes "uncrossed Q"
    and "\<And>x y. x \<in> set q \<Longrightarrow> y \<in> set (Q s (opposite sd)) \<Longrightarrow>
      worse (opposite sd) (ro_price_ticks (snd x)) (ro_price_ticks (snd y))"
  shows "uncrossed (set_queue s sd q Q)"
  using assms by (cases sd) (simp_all add: uncrossed_def set_queue_apply worse_def)

lemma nodes_okD:
  assumes "nodes_ok Q k"
  shows "distinct (map fst (Q s sd))" and "fst ` set (Q s sd) \<subseteq> {..<k}"
    and "(s, sd) \<noteq> (t, td) \<Longrightarrow> fst ` set (Q s sd) \<inter> fst ` set (Q t td) = {}"
  using assms by (simp_all add: nodes_ok_def)

lemma nodes_ok_subset:
  assumes "nodes_ok Q k" "distinct (map fst q)" "fst ` set q \<subseteq> fst ` set (Q s sd)"
  shows "nodes_ok (set_queue s sd q Q) k"
proof -
  have sub: "fst ` set (set_queue s sd q Q t td) \<subseteq> fst ` set (Q t td)" for t td
    using assms(3) by (simp add: set_queue_apply)
  show ?thesis unfolding nodes_ok_def
  proof (intro conjI allI impI)
    fix t td
    show "distinct (map fst (set_queue s sd q Q t td))"
      using assms(1,2) by (simp add: nodes_ok_def set_queue_apply)
    show "fst ` set (set_queue s sd q Q t td) \<subseteq> {..<k}"
      using nodes_okD(2) [OF assms(1), of t td] sub [of t td] by blast
    fix t' td' assume "(t, td) \<noteq> (t', td')"
    then have "fst ` set (Q t td) \<inter> fst ` set (Q t' td') = {}" by (rule nodes_okD(3) [OF assms(1)])
    with sub [of t td] sub [of t' td']
    show "fst ` set (set_queue s sd q Q t td) \<inter> fst ` set (set_queue s sd q Q t' td') = {}" by blast
  qed
qed

lemma uncrossed_subset:
  assumes "uncrossed Q" "(\<lambda>nd. ro_price_ticks (snd nd)) ` set q \<subseteq> (\<lambda>nd. ro_price_ticks (snd nd)) ` set (Q s sd)"
  shows "uncrossed (set_queue s sd q Q)"
proof (rule uncrossed_set_queue [OF assms(1)])
  fix x y assume "x \<in> set q" "y \<in> set (Q s (opposite sd))"
  with assms(2) obtain x' where "x' \<in> set (Q s sd)" "ro_price_ticks (snd x') = ro_price_ticks (snd x)"
    by (fastforce simp: image_subset_iff image_iff)
  with assms(1) \<open>y \<in> set (Q s (opposite sd))\<close>
  show "worse (opposite sd) (ro_price_ticks (snd x)) (ro_price_ticks (snd y))"
    by (cases sd) (force simp: uncrossed_def worse_def)+
qed

text \<open>Taking orders off the front, with their index entries.\<close>

lemma spec_inv_leaves:
  assumes inv: "spec_inv (Q, e)" and lv: "leaves (Q s sd) gone q"
    and "next_node e' = next_node e" "index e' = without (index e) (order_ids gone)"
  shows "spec_inv (set_queue s sd q Q, e')"
proof -
  have "set (map fst q) \<subseteq> set (map fst (Q s sd))" and
    "set (map (\<lambda>nd. ro_price_ticks (snd nd)) q) \<subseteq> set (map (\<lambda>nd. ro_price_ticks (snd nd)) (Q s sd))"
    by (simp_all only: leaves_maps [OF lv] set_append Un_upper2)
  then have sub: "fst ` set q \<subseteq> fst ` set (Q s sd)"
    "(\<lambda>nd. ro_price_ticks (snd nd)) ` set q \<subseteq> (\<lambda>nd. ro_price_ticks (snd nd)) ` set (Q s sd)"
    by simp_all
  have d: "distinct (map fst q)"
    using inv leaves_maps(1) [OF lv] by (simp add: spec_inv_def nodes_ok_def) (metis distinct_append)
  have ok: "orders_ok (set_queue s sd q Q)"
    using inv by (intro orders_ok_set_queue)
      (auto simp: spec_inv_def orders_ok_def intro: leaves_in_order [OF lv] leaves_wf_order [OF lv])
  have "index_sound (set_queue s sd q Q) (index e')"
    unfolding index_sound_def assms(4) without_simps
  proof (intro allI impI, elim conjE)
    fix k loc assume k: "k \<notin> order_ids gone" and ix: "index e k = Some loc"
    from inv ix obtain ord where ord: "(loc_iter loc, ord) \<in> set (Q (loc_symbol loc) (loc_side loc))"
      "ro_order_id ord = k" "ro_price_ticks ord = loc_price loc"
      by (auto simp: spec_inv_def index_sound_def)
    show "\<exists>ord. (loc_iter loc, ord) \<in> set (set_queue s sd q Q (loc_symbol loc) (loc_side loc)) \<and>
      ro_order_id ord = k \<and> ro_price_ticks ord = loc_price loc"
      using ord k leaves_kept [OF lv, of "loc_iter loc" ord]
      by (cases "loc_symbol loc = s \<and> loc_side loc = sd") (fastforce simp: set_queue_apply)+
  qed
  with inv assms(3) ok sub d show ?thesis
    by (simp add: spec_inv_def nodes_ok_subset uncrossed_subset)
qed

text \<open>Resting an order that crosses nothing.\<close>

lemma spec_inv_rest:
  assumes inv: "spec_inv (Q, e)" and rem: "0 < remaining"
    and clear: "\<And>y. y \<in> set (Q (ao_symbol cmd) (opposite (ao_side cmd))) \<Longrightarrow>
      worse (opposite (ao_side cmd)) (ao_price_ticks cmd) (ro_price_ticks (snd y))"
  shows "spec_inv (spec_rest cmd remaining (Q, e))"
proof -
  let ?s = "ao_symbol cmd" and ?sd = "ao_side cmd" and ?p = "ao_price_ticks cmd"
  define nd where "nd = (next_node e, resting_of cmd remaining (engine_sequence e))"
  define q where "q = enqueue ?sd ?p nd (Q ?s ?sd)"
  have nd: "ro_price_ticks (snd nd) = ?p" "wf_order ?s ?sd ?p (snd nd)" "fst nd = next_node e"
    "ro_order_id (snd nd) = ao_order_id cmd"
    using rem by (simp_all add: nd_def resting_of_def wf_order_def)
  have setq: "set q = insert nd (set (Q ?s ?sd))" by (simp add: q_def)
  have nodes: "nodes_ok Q (next_node e)" using inv by (simp add: spec_inv_def)
  then have fresh: "next_node e \<noteq> fst x" if "x \<in> set (Q t td)" for x t td
    using that nodes_okD(2) [OF nodes, of t td] by auto
  have "orders_ok (set_queue ?s ?sd q Q)"
    using inv nd by (intro orders_ok_set_queue)
      (auto simp: spec_inv_def orders_ok_def setq q_def intro: enqueue_in_order)
  moreover have "uncrossed (set_queue ?s ?sd q Q)"
  proof (rule uncrossed_set_queue)
    fix x y assume x: "x \<in> set q" and y: "y \<in> set (Q ?s (opposite ?sd))"
    from inv have un: "uncrossed Q" by (simp add: spec_inv_def)
    from x consider "x = nd" | "x \<in> set (Q ?s ?sd)" by (auto simp: setq)
    then show "worse (opposite ?sd) (ro_price_ticks (snd x)) (ro_price_ticks (snd y))"
    proof cases
      case 1
      then show ?thesis using clear [OF y] nd(1) by simp
    next
      case 2
      then show ?thesis using un y by (cases ?sd) (auto simp: uncrossed_def worse_def)
    qed
  qed (use inv in \<open>simp add: spec_inv_def\<close>)
  moreover have "nodes_ok (set_queue ?s ?sd q Q) (Suc (next_node e))"
  proof -
    have "fst nd \<notin> fst ` set (Q ?s ?sd)" using fresh nd(3) by (metis imageE)
    then have d: "distinct (map fst (set_queue ?s ?sd q Q t td))" for t td
      using nodes_okD(1) [OF nodes] by (simp add: q_def distinct_enqueue set_queue_apply)
    have old: "fst ` set (set_queue ?s ?sd q Q t td) =
        (if t = ?s \<and> td = ?sd then {next_node e} else {}) \<union> fst ` set (Q t td)" for t td
      by (simp add: set_queue_apply setq nd(3))
    show ?thesis unfolding nodes_ok_def old
    proof (intro conjI allI impI d)
      fix t td
      show "(if t = ?s \<and> td = ?sd then {next_node e} else {}) \<union> fst ` set (Q t td)
          \<subseteq> {..<Suc (next_node e)}"
        using nodes_okD(2) [OF nodes, of t td] by auto
      fix t' td' assume ne: "(t, td) \<noteq> (t', td')"
      then have "fst ` set (Q t td) \<inter> fst ` set (Q t' td') = {}" by (rule nodes_okD(3) [OF nodes])
      with ne show "((if t = ?s \<and> td = ?sd then {next_node e} else {}) \<union> fst ` set (Q t td)) \<inter>
          ((if t' = ?s \<and> td' = ?sd then {next_node e} else {}) \<union> fst ` set (Q t' td')) = {}"
        by (auto dest: fresh)
    qed
  qed
  moreover have "index_sound (set_queue ?s ?sd q Q)
      ((index e)(ao_order_id cmd \<mapsto> location_of cmd (next_node e)))"
    unfolding index_sound_def
  proof (intro allI impI)
    fix k loc assume loc: "((index e)(ao_order_id cmd \<mapsto> location_of cmd (next_node e))) k = Some loc"
    show "\<exists>ord. (loc_iter loc, ord) \<in> set (set_queue ?s ?sd q Q (loc_symbol loc) (loc_side loc)) \<and>
      ro_order_id ord = k \<and> ro_price_ticks ord = loc_price loc"
    proof (cases "k = ao_order_id cmd")
      case True
      with loc show ?thesis
        by (intro exI [of _ "snd nd"])
          (auto simp: set_queue_apply setq location_of_def nd(1,4) nd_def resting_of_def)
    next
      case False
      with loc inv have "\<exists>ord. (loc_iter loc, ord) \<in> set (Q (loc_symbol loc) (loc_side loc)) \<and>
          ro_order_id ord = k \<and> ro_price_ticks ord = loc_price loc"
        by (simp add: spec_inv_def index_sound_def)
      then show ?thesis by (auto simp: set_queue_apply setq)
    qed
  qed
  ultimately show ?thesis
    by (simp add: spec_inv_def spec_rest_def Let_def q_def nd_def)
qed

text \<open>Removing one order with its index entry.\<close>

lemma spec_inv_remove:
  assumes inv: "spec_inv (Q, e)" and loc: "index e k = Some loc"
  shows "spec_inv (spec_remove k loc (Q, e))"
proof -
  let ?s = "loc_symbol loc" and ?sd = "loc_side loc"
  define q where "q = filter (\<lambda>nd. fst nd \<noteq> loc_iter loc) (Q ?s ?sd)"
  have sub: "fst ` set q \<subseteq> fst ` set (Q ?s ?sd)" "(\<lambda>nd. ro_price_ticks (snd nd)) ` set q \<subseteq>
      (\<lambda>nd. ro_price_ticks (snd nd)) ` set (Q ?s ?sd)" "set q \<subseteq> set (Q ?s ?sd)"
    by (auto simp: q_def)
  have nodes: "nodes_ok Q (next_node e)" and ok: "orders_ok Q" using inv by (simp_all add: spec_inv_def)
  have d: "distinct (map fst q)"
    using nodes_okD(1) [OF nodes] by (simp add: q_def distinct_map_filter)
  have ord: "orders_ok (set_queue ?s ?sd q Q)"
    using ok sub(3) by (intro orders_ok_set_queue)
      (auto simp: orders_ok_def q_def in_priority_order_def sorted_wrt_filter)
  have "index_sound (set_queue ?s ?sd q Q) ((index e)(k := None))"
    unfolding index_sound_def
  proof (intro allI impI)
    fix k' loc' assume "((index e)(k := None)) k' = Some loc'"
    then have k': "k' \<noteq> k" "index e k' = Some loc'" by (auto split: if_splits)
    with inv obtain ord where ord: "(loc_iter loc', ord) \<in> set (Q (loc_symbol loc') (loc_side loc'))"
      "ro_order_id ord = k'" "ro_price_ticks ord = loc_price loc'"
      by (auto simp: spec_inv_def index_sound_def)
    from inv loc obtain ord0 where ord0: "(loc_iter loc, ord0) \<in> set (Q ?s ?sd)" "ro_order_id ord0 = k"
      by (auto simp: spec_inv_def index_sound_def)
    have "loc_iter loc' \<noteq> loc_iter loc" if "loc_symbol loc' = ?s" "loc_side loc' = ?sd"
      using that ord ord0 k'(1) nodes_okD(1) [OF nodes, of ?s ?sd] by (auto dest: eq_key_imp_eq_value)
    with ord show "\<exists>ord. (loc_iter loc', ord) \<in>
        set (set_queue ?s ?sd q Q (loc_symbol loc') (loc_side loc')) \<and>
        ro_order_id ord = k' \<and> ro_price_ticks ord = loc_price loc'"
      by (auto simp: set_queue_apply q_def)
  qed
  with inv nodes ord d sub show ?thesis
    by (simp add: spec_remove_def q_def spec_inv_def nodes_ok_subset uncrossed_subset Let_def)
qed

section \<open>The invariant under the operations\<close>

lemma event_simps [simp]:
  "books (snd (event ty s p e)) = books e" "index (snd (event ty s p e)) = index e"
  "next_node (snd (event ty s p e)) = next_node e"
  "engine_sequence (snd (event ty s p e)) = engine_sequence e + 1"
  "ev_sequence (fst (event ty s p e)) = engine_sequence e + 1"
  "ev_type (fst (event ty s p e)) = ty" "ev_symbol (fst (event ty s p e)) = s"
  "ev_payload (fst (event ty s p e)) = p"
  by (simp_all add: event_def Let_def)

lemma spec_inv_event [simp]:
  "spec_inv (Q, snd (event ty s p e)) = spec_inv (Q, e)"
  "spec_inv (Q, run_engine (emit ty s p r)) = spec_inv (Q, run_engine r)"
  by (simp_all add: spec_inv_def)

lemma beyond_limit_worse:
  "beyond_limit cmd p \<longleftrightarrow>
     ao_time_in_force cmd \<noteq> MARKET \<and> worse (opposite (ao_side cmd)) (ao_price_ticks cmd) p"
  by (cases "ao_side cmd") (simp_all add: beyond_limit_def worse_def)

lemma within_limit_worse:
  "ao_time_in_force cmd \<noteq> MARKET \<Longrightarrow> within_limit cmd =
     (\<lambda>nd. \<not> worse (opposite (ao_side cmd)) (ao_price_ticks cmd) (ro_price_ticks (snd nd)))"
  by (simp add: fun_eq_iff within_limit_test beyond_limit_worse)

lemma accept_run_simps [simp]:
  "run_remaining (accept_run cmd e) = ao_quantity cmd"
  "run_trades (accept_run cmd e) = []"
  "index (run_engine (accept_run cmd e)) = index e"
  "next_node (run_engine (accept_run cmd e)) = next_node e"
  "books (run_engine (accept_run cmd e)) = books e"
  by (simp_all add: accept_run_def)

lemma match_queue_inv:
  assumes "spec_inv (Q, e)" "match_queue cmd (Q s sd) (accept_run cmd e) = (q, r)"
  shows "spec_inv (set_queue s sd q Q, run_engine r)"
proof -
  from match_queue_leaves [of "Q s sd" cmd "accept_run cmd e"] assms(2) obtain gone where
    "leaves (Q s sd) gone q" "index (run_engine r) = without (index e) (order_ids gone)" by auto
  moreover have "next_node (run_engine r) = next_node e"
    using match_queue_frame(2) [of cmd "Q s sd" "accept_run cmd e"] assms(2) by simp
  ultimately show ?thesis using assms(1) spec_inv_leaves by blast
qed

text \<open>An order that is left over after matching crosses nothing.\<close>

lemma leftover_clear:
  assumes inv: "spec_inv (Q, e)" and "ao_time_in_force cmd \<noteq> MARKET"
    and mq: "match_queue cmd (Q s (opposite (ao_side cmd))) r0 = (q, r)" and "0 < run_remaining r"
    and y: "y \<in> set q"
  shows "worse (opposite (ao_side cmd)) (ao_price_ticks cmd) (ro_price_ticks (snd y))"
proof -
  have "in_priority_order (opposite (ao_side cmd)) (Q s (opposite (ao_side cmd)))"
    using inv by (simp add: spec_inv_def orders_ok_def)
  moreover have "q = dropWhile (within_limit cmd) (Q s (opposite (ao_side cmd)))"
    using match_queue_exit [of cmd "Q s (opposite (ao_side cmd))" r0] mq assms(4) by simp
  ultimately show ?thesis
    using y dropWhile_worse unfolding within_limit_worse [OF assms(2)] by blast
qed

lemma spec_add_inv:
  assumes inv: "spec_inv S"
  shows "spec_inv (snd (spec_add cmd S))"
proof -
  obtain Q e where S: "S = (Q, e)" by (cases S)
  let ?s = "ao_symbol cmd" and ?osd = "opposite (ao_side cmd)"
  obtain q r where mq: "match_queue cmd (Q ?s ?osd) (accept_run cmd e) = (q, r)" by fastforce
  let ?Q1 = "set_queue ?s ?osd q Q"
  have inv1: "spec_inv (?Q1, run_engine r)" using inv mq unfolding S by (rule match_queue_inv)
  have inv2: "spec_inv (spec_rest cmd (run_remaining r) (?Q1, run_engine r))"
    if "0 < run_remaining r" "ao_time_in_force cmd = GTC"
    using that inv S mq
    by (intro spec_inv_rest [OF inv1]) (auto simp: set_queue_apply intro: leftover_clear)
  show ?thesis using inv inv1 inv2
    by (simp add: S spec_add_def mq rested_run_def dropped_run_def Let_def split_beta)
qed

lemma spec_order_found:
  assumes "spec_inv (Q, e)" "index e k = Some loc"
  shows "\<exists>ord. spec_order loc (Q, e) = Some ord \<and> ro_order_id ord = k \<and>
    ro_price_ticks ord = loc_price loc \<and>
    (loc_iter loc, ord) \<in> set (Q (loc_symbol loc) (loc_side loc))"
proof -
  from assms obtain ord where "(loc_iter loc, ord) \<in> set (Q (loc_symbol loc) (loc_side loc))"
    "ro_order_id ord = k" "ro_price_ticks ord = loc_price loc"
    by (auto simp: spec_inv_def index_sound_def)
  moreover have "distinct (map fst (Q (loc_symbol loc) (loc_side loc)))"
    using assms(1) nodes_okD(1) by (auto simp: spec_inv_def)
  ultimately show ?thesis by (auto simp: spec_order_def)
qed

lemma spec_unknown_inv [simp]: "spec_inv (snd (spec_unknown s k S)) = spec_inv S"
  by (cases S) (simp add: spec_unknown_def split_beta)

lemma spec_cancel_inv:
  assumes "spec_inv S"
  shows "spec_inv (snd (spec_cancel cmd S))"
proof (cases "index (snd S) (co_order_id cmd)")
  case None
  with assms show ?thesis by (simp add: spec_cancel_def split_beta)
next
  case (Some loc)
  with assms spec_inv_remove [of "fst S" "snd S" "co_order_id cmd" loc] show ?thesis
    by (simp add: spec_cancel_def split_beta Let_def split: option.splits)
qed

lemma spec_replace_inv:
  assumes "spec_inv S"
  shows "spec_inv (snd (spec_replace cmd S))"
  using assms
  by (auto simp: spec_replace_def split_beta Let_def split: option.splits
      intro!: spec_add_inv spec_cancel_inv)

end
