(* ===== verification/Engine_Refinement.thy ===== *)
theory Engine_Refinement
  imports Engine_Spec
begin

text \<open>
  The engine implements its specification. \<open>view\<close> forgets the map of price levels and keeps, for
  every symbol and side, the queue it stands for. From a well-formed engine every command succeeds,
  does what the specification does, and leaves a well-formed engine. In particular no iterator
  dangles and none of the engine's own checks (\<open>non-positive fill quantity\<close>, \<open>passive overfill\<close>,
  \<open>symbol mismatch\<close>, \<open>crossed book\<close>) ever fires.
\<close>

section \<open>View and well-formedness\<close>

definition engine_queue :: "engine \<Rightarrow> queues" where
  "engine_queue e s sd =
     (case books e s of None \<Rightarrow> [] | Some b \<Rightarrow> side_queue sd (book_side sd b))"

definition forget :: "engine \<Rightarrow> engine" where
  "forget e = e\<lparr>books := (\<lambda>_. None)\<rparr>"

definition view :: "engine \<Rightarrow> spec_state" where
  "view e = (engine_queue e, forget e)"

definition wf_book :: "string \<Rightarrow> book \<Rightarrow> bool" where
  "wf_book s b \<longleftrightarrow> wf_side s Buy (bids b) \<and> wf_side s Sell (asks b)"

definition books_ok :: "engine \<Rightarrow> bool" where
  "books_ok e \<longleftrightarrow> (\<forall>s b. books e s = Some b \<longrightarrow> wf_book s b)"

definition wf_engine :: "engine \<Rightarrow> bool" where
  "wf_engine e \<longleftrightarrow> books_ok e \<and> spec_inv (view e)"

section \<open>Books\<close>

lemma book_side_simps [simp]:
  "book_side Buy b = bids b" "book_side Sell b = asks b"
  "bids (set_book_side Buy m b) = m" "asks (set_book_side Buy m b) = asks b"
  "asks (set_book_side Sell m b) = m" "bids (set_book_side Sell m b) = bids b"
  by (simp_all add: book_side_def set_book_side_def)

lemma book_side_set: "book_side sd (set_book_side sd' m b) = (if sd = sd' then m else book_side sd b)"
  by (cases sd; cases sd') simp_all

lemma wf_book_sides: "wf_book s b \<longleftrightarrow> (\<forall>sd. wf_side s sd (book_side sd b))"
  by (simp add: wf_book_def all_side)

lemma wf_book_set:
  "wf_book s b \<Longrightarrow> wf_side s sd m \<Longrightarrow> wf_book s (set_book_side sd m b)"
  by (simp add: wf_book_sides book_side_set)

lemma empty_book_wf [simp]: "wf_book s empty_book"
  by (simp add: wf_book_def empty_book_def)

lemma empty_book_queue [simp]: "side_queue sd (book_side sd empty_book) = []"
  by (cases sd) (simp_all add: empty_book_def)

lemma store_book_simps [simp]:
  "books (store_book s b e) = (books e)(s \<mapsto> b)"
  "forget (store_book s b e) = forget e"
  "index (store_book s b e) = index e"
  "next_node (store_book s b e) = next_node e"
  "engine_sequence (store_book s b e) = engine_sequence e"
  by (simp_all add: store_book_def forget_def)

lemma engine_queue_cong: "books e = books e' \<Longrightarrow> engine_queue e = engine_queue e'"
  by (simp add: engine_queue_def fun_eq_iff)

lemma engine_queue_store:
  "engine_queue (store_book s b e) t sd =
     (if t = s then side_queue sd (book_side sd b) else engine_queue e t sd)"
  by (simp add: engine_queue_def)

lemma book_for_facts:
  assumes "book_for s e = (b, e0)"
  shows "engine_queue e0 = engine_queue e" and "forget e0 = forget e"
    and "engine_queue e s sd = side_queue sd (book_side sd b)"
    and "books e0 = (books e)(s \<mapsto> b)"
    and "books_ok e \<Longrightarrow> wf_book s b"
  using assms
  by (auto simp: book_for_def engine_queue_def books_ok_def fun_eq_iff
      split: option.splits if_splits)

lemma books_ok_store:
  "books_ok e \<Longrightarrow> wf_book s b \<Longrightarrow> books e' = (books e)(s \<mapsto> b') \<Longrightarrow> books_ok (store_book s b e')"
  by (simp add: books_ok_def)

lemma check_not_crossed_ok:
  assumes "wf_book s b"
    and "\<And>x y. x \<in> set (side_queue Buy (bids b)) \<Longrightarrow> y \<in> set (side_queue Sell (asks b)) \<Longrightarrow>
      ro_price_ticks (snd x) < ro_price_ticks (snd y)"
  shows "check_not_crossed s b = Inr ()"
proof -
  have "bp < ap" if bid: "om_rbegin (bids b) = Some (bp, bl)" and ask: "om_begin (asks b) = Some (ap, al)"
    for bp bl ap al
  proof -
    from bid ask have mem: "(bp, bl) \<in> set (bids b)" "(ap, al) \<in> set (asks b)"
      by (auto simp: om_rbegin_eq_Some om_begin_eq_Some)
    from assms(1) have wf: "wf_side s Buy (bids b)" "wf_side s Sell (asks b)" by (simp_all add: wf_book_def)
    have "bl \<noteq> []" "al \<noteq> []"
      using wf_side_levelD(1) [OF wf(1) mem(1)] wf_side_levelD(1) [OF wf(2) mem(2)] by blast+
    then obtain x y where xy: "x \<in> set bl" "y \<in> set al" by (meson last_in_set)
    have "ro_price_ticks (snd x) = bp" "ro_price_ticks (snd y) = ap"
      using wf_side_levelD(2) [OF wf(1) mem(1) xy(1)] wf_side_levelD(2) [OF wf(2) mem(2) xy(2)]
      by (simp_all add: wf_order_def)
    moreover have "x \<in> set (side_queue Buy (bids b))" "y \<in> set (side_queue Sell (asks b))"
      using mem xy by (auto simp: set_side_queue)
    ultimately show ?thesis using assms(2) [of x y] by simp
  qed
  note lt = this
  show ?thesis
  proof (cases "om_rbegin (bids b)")
    case None
    then show ?thesis by (simp add: check_not_crossed_def)
  next
    case bid: (Some x)
    show ?thesis
    proof (cases "om_begin (asks b)")
      case None
      then show ?thesis by (simp add: check_not_crossed_def bid split_beta)
    next
      case (Some y)
      with bid lt [of "fst x" "snd x" "fst y" "snd y"] show ?thesis
        by (simp add: check_not_crossed_def split_beta)
    qed
  qed
qed

section \<open>Forgetting the books\<close>

definition forget_run :: "match_run \<Rightarrow> match_run" where
  "forget_run r = r\<lparr>run_engine := forget (run_engine r)\<rparr>"

lemma forget_simps [simp]:
  "index (forget e) = index e" "next_node (forget e) = next_node e"
  "engine_sequence (forget e) = engine_sequence e"
  "forget (e\<lparr>engine_sequence := n\<rparr>) = (forget e)\<lparr>engine_sequence := n\<rparr>"
  "forget (e\<lparr>index := ix\<rparr>) = (forget e)\<lparr>index := ix\<rparr>"
  "forget (e\<lparr>next_node := k\<rparr>) = (forget e)\<lparr>next_node := k\<rparr>"
  by (simp_all add: forget_def)

lemma forget_eqD:
  "e0 = forget e \<Longrightarrow> index e = index e0 \<and> next_node e = next_node e0 \<and>
     engine_sequence e = engine_sequence e0"
  by simp

lemma forget_run_simps [simp]:
  "run_remaining (forget_run r) = run_remaining r"
  "run_events (forget_run r) = run_events r"
  "run_trades (forget_run r) = run_trades r"
  "run_engine (forget_run r) = forget (run_engine r)"
  by (simp_all add: forget_run_def)

lemma forget_event:
  "event ty s p (forget e) = (fst (event ty s p e), forget (snd (event ty s p e)))"
  by (simp add: event_def Let_def)

lemma forget_emit: "emit ty s p (forget_run r) = forget_run (emit ty s p r)"
  by (simp add: emit_def forget_run_def split_beta forget_event)

lemma forget_run_steps:
  "unindex k (forget_run r) = forget_run (unindex k r)"
  "stp_skip cmd ord (forget_run r) = forget_run (stp_skip cmd ord r)"
  "fill_run cmd ord q (forget_run r) = forget_run (fill_run cmd ord q r)"
  "stp_stop cmd ord (forget_run r) = forget_run (stp_stop cmd ord r)"
proof -
  show un: "unindex k (forget_run r) = forget_run (unindex k r)" for k r
    by (simp add: unindex_def forget_run_def)
  show skip: "stp_skip cmd ord (forget_run r) = forget_run (stp_skip cmd ord r)" for r
    by (simp add: stp_skip_def cancel_passive_event_def forget_emit un)
  have rem: "(forget_run r)\<lparr>run_remaining := m\<rparr> = forget_run (r\<lparr>run_remaining := m\<rparr>)" for m r
    by (simp add: forget_run_def)
  have rem_tr: "(forget_run r)\<lparr>run_remaining := m, run_trades := ts\<rparr> =
      forget_run (r\<lparr>run_remaining := m, run_trades := ts\<rparr>)" for m ts
    by (simp add: forget_run_def)
  show "fill_run cmd ord q (forget_run r) = forget_run (fill_run cmd ord q r)"
    by (simp add: fill_run_def executed_event_def rem_tr forget_emit)
  show "stp_stop cmd ord (forget_run r) = forget_run (stp_stop cmd ord r)"
    by (simp add: stp_stop_def cancel_aggressor_event_def skip forget_emit rem)
qed

lemma forget_match_queue:
  "match_queue cmd q (forget_run r) =
     (fst (match_queue cmd q r), forget_run (snd (match_queue cmd q r)))"
  by (induction cmd q r rule: match_queue.induct) (simp_all add: forget_run_steps Let_def)

lemma forget_accept_run: "accept_run cmd (forget e) = forget_run (accept_run cmd e)"
  unfolding accept_run_def by (subst forget_emit [symmetric]) (simp add: forget_run_def)

section \<open>Commands refine the specification\<close>

lemma rest_order_refines:
  assumes "wf_side (ao_symbol cmd) (ao_side cmd) (book_side (ao_side cmd) b)" "0 < remaining"
    and "rest_order b cmd remaining e = (b', e')"
  shows "wf_side (ao_symbol cmd) (ao_side cmd) (book_side (ao_side cmd) b')"
    and "b' = set_book_side (ao_side cmd) (book_side (ao_side cmd) b') b"
    and "side_queue (ao_side cmd) (book_side (ao_side cmd) b') =
      enqueue (ao_side cmd) (ao_price_ticks cmd)
        (next_node e, resting_of cmd remaining (engine_sequence e))
        (side_queue (ao_side cmd) (book_side (ao_side cmd) b))"
    and "e' = e\<lparr>index := (index e)(ao_order_id cmd \<mapsto> location_of cmd (next_node e)),
      next_node := Suc (next_node e)\<rparr>"
proof -
  let ?m = "book_side (ao_side cmd) b" and ?p = "ao_price_ticks cmd"
  let ?nd = "(next_node e, resting_of cmd remaining (engine_sequence e))"
  let ?m' = "om_assign ?p (level_at ?p ?m @ [?nd]) ?m"
  from assms(3) have b': "b' = set_book_side (ao_side cmd) ?m' b"
    and e': "e' = e\<lparr>index := (index e)(ao_order_id cmd \<mapsto> location_of cmd (next_node e)),
      next_node := Suc (next_node e)\<rparr>"
    by (auto simp: rest_order_def Let_def resting_of_def location_of_def level_at_def)
  then have side: "book_side (ao_side cmd) b' = ?m'" by (simp add: book_side_set)
  have level: "wf_order (ao_symbol cmd) (ao_side cmd) ?p (snd nd)" if "nd \<in> set (level_at ?p ?m)" for nd
  proof -
    from that obtain lv where "om_find ?p ?m = Some lv" "nd \<in> set lv"
      by (cases "om_find ?p ?m") (auto simp: level_at_def)
    with side_queue_find [OF assms(1), of nd "ao_side cmd" ?p] wf_side_queueD [OF assms(1), of nd "ao_side cmd"]
    show ?thesis by auto
  qed
  show "wf_side (ao_symbol cmd) (ao_side cmd) (book_side (ao_side cmd) b')"
    unfolding side using assms(1,2) level
    by (intro wf_side_assign) (auto simp: resting_of_def wf_order_def)
  show "side_queue (ao_side cmd) (book_side (ao_side cmd) b') =
      enqueue (ao_side cmd) ?p ?nd (side_queue (ao_side cmd) ?m)"
    unfolding side by (rule rest_refines_enqueue [OF assms(1)])
  show "b' = set_book_side (ao_side cmd) (book_side (ao_side cmd) b') b"
    by (simp only: side) (rule b')
  show "e' = e\<lparr>index := (index e)(ao_order_id cmd \<mapsto> location_of cmd (next_node e)),
      next_node := Suc (next_node e)\<rparr>" by (fact e')
qed

lemma view_store:
  assumes "books e' = (books e)(s \<mapsto> b0)"
    and "\<And>td. side_queue td (book_side td b) = Q s td" and "\<And>t td. t \<noteq> s \<Longrightarrow> Q t td = engine_queue e t td"
  shows "view (store_book s b e') = (Q, forget e')"
  using assms by (auto simp: view_def engine_queue_store fun_eq_iff engine_queue_def)

lemma unfillable_iff:
  assumes "wf_book (ao_symbol cmd) b"
  shows "ao_time_in_force cmd = FOK \<and>
      available_volume b (opposite (ao_side cmd)) (ao_price_ticks cmd) < ao_quantity cmd \<longleftrightarrow>
    unfillable cmd (side_queue (opposite (ao_side cmd)) (book_side (opposite (ao_side cmd)) b))"
proof -
  from assms have "wf_side (ao_symbol cmd) (opposite (ao_side cmd)) (book_side (opposite (ao_side cmd)) b)"
    by (simp add: wf_book_sides)
  from available_volume_queue [OF this] show ?thesis
    by (auto simp: unfillable_def within_limit_worse)
qed

text \<open>The three outcomes of \<open>add\<close>: refused because it cannot be filled whole, matched and the
  rest put in the book, matched and nothing put in the book.\<close>

lemma add_unfillable:
  assumes bf: "book_for (ao_symbol cmd) e = (b, e0)" and ok: "books_ok e"
    and un: "unfillable cmd (engine_queue e (ao_symbol cmd) (opposite (ao_side cmd)))"
  shows "\<exists>out e'. engine_add cmd e = Inr (out, e') \<and> spec_add cmd (view e) = (out, view e') \<and>
    books_ok e'"
proof -
  let ?ev = "event Rejected (ao_symbol cmd)
    [''order_id'' \<mapsto> PInt (ao_order_id cmd), ''reason'' \<mapsto> PStr ''FOK_UNFILLABLE'']"
  note facts = book_for_facts [OF bf]
  have wfb: "wf_book (ao_symbol cmd) b" using facts(5) ok by blast
  have add: "engine_add cmd e = Inr (([fst (?ev e0)], []), snd (?ev e0))"
    using un unfillable_iff [OF wfb] facts(3) by (simp add: engine_add_def bf split_beta)
  have "?ev (forget e) = (fst (?ev e0), forget (snd (?ev e0)))"
    using forget_event [of Rejected "ao_symbol cmd" _ e0] facts(2) by simp
  moreover have "engine_queue (snd (?ev e0)) = engine_queue e"
    using facts(1) engine_queue_cong [of "snd (?ev e0)" e0] by simp
  ultimately have "spec_add cmd (view e) = (([fst (?ev e0)], []), view (snd (?ev e0)))"
    using un by (simp add: spec_add_def view_def)
  moreover have "books_ok (snd (?ev e0))" using ok wfb facts(4) by (simp add: books_ok_def)
  ultimately show ?thesis using add by blast
qed

lemma add_matches:
  assumes bf: "book_for (ao_symbol cmd) e = (b, e0)" and ok: "books_ok e"
  shows "\<exists>opp q r. match_side cmd (book_side (opposite (ao_side cmd)) b) (accept_run cmd e0) = Inr (opp, r) \<and>
    match_queue cmd (engine_queue e (ao_symbol cmd) (opposite (ao_side cmd))) (accept_run cmd (forget e)) =
      (q, forget_run r) \<and>
    wf_book (ao_symbol cmd) (set_book_side (opposite (ao_side cmd)) opp b) \<and>
    (\<forall>td. side_queue td (book_side td (set_book_side (opposite (ao_side cmd)) opp b)) =
      set_queue (ao_symbol cmd) (opposite (ao_side cmd)) q (engine_queue e) (ao_symbol cmd) td) \<and>
    books (run_engine r) = (books e)(ao_symbol cmd \<mapsto> b)"
proof -
  let ?s = "ao_symbol cmd" and ?osd = "opposite (ao_side cmd)"
  note facts = book_for_facts [OF bf]
  have wfb: "wf_book ?s b" using facts(5) ok by blast
  then have wfo: "wf_side ?s ?osd (book_side ?osd b)" by (simp add: wf_book_sides)
  have q: "side_queue ?osd (book_side ?osd b) = engine_queue e ?s ?osd" using facts(3) by simp
  define mq where "mq = match_queue cmd (engine_queue e ?s ?osd) (accept_run cmd e0)"
  from match_side_refines [OF wfo, of "accept_run cmd e0"] obtain opp where
    ms: "match_side cmd (book_side ?osd b) (accept_run cmd e0) = Inr (opp, snd mq)" and
    opp: "side_queue ?osd opp = fst mq" "wf_side ?s ?osd opp"
    by (auto simp: q mq_def)
  have "books (run_engine (snd mq)) = (books e)(?s \<mapsto> b)" using facts(4) by (simp add: mq_def)
  moreover have "match_queue cmd (engine_queue e ?s ?osd) (accept_run cmd (forget e)) =
      (fst mq, forget_run (snd mq))"
    using forget_match_queue [of cmd "engine_queue e ?s ?osd" "accept_run cmd e0"]
      forget_accept_run [of cmd e0] facts(2) by (simp add: mq_def)
  moreover have "side_queue td (book_side td (set_book_side ?osd opp b)) =
      set_queue ?s ?osd (fst mq) (engine_queue e) ?s td" for td
    using facts(3) opp(1) by (simp add: book_side_set set_queue_apply)
  moreover have "wf_book ?s (set_book_side ?osd opp b)" using wfb opp(2) by (rule wf_book_set)
  ultimately show ?thesis using ms by blast
qed

lemma add_rests:
  assumes wf: "wf_engine e" and bf: "book_for (ao_symbol cmd) e = (b, e0)"
    and fillable: "\<not> unfillable cmd (engine_queue e (ao_symbol cmd) (opposite (ao_side cmd)))"
    and ms: "match_side cmd (book_side (opposite (ao_side cmd)) b) (accept_run cmd e0) = Inr (opp, r)"
    and mq: "match_queue cmd (engine_queue e (ao_symbol cmd) (opposite (ao_side cmd)))
      (accept_run cmd (forget e)) = (q, forget_run r)"
    and b1: "b1 = set_book_side (opposite (ao_side cmd)) opp b" and wfb1: "wf_book (ao_symbol cmd) b1"
    and q1: "\<And>td. side_queue td (book_side td b1) =
      set_queue (ao_symbol cmd) (opposite (ao_side cmd)) q (engine_queue e) (ao_symbol cmd) td"
    and frame: "books (run_engine r) = (books e)(ao_symbol cmd \<mapsto> b)"
    and rests: "0 < run_remaining r" "ao_time_in_force cmd = GTC"
  shows "\<exists>out e'. engine_add cmd e = Inr (out, e') \<and> spec_add cmd (view e) = (out, view e') \<and>
    books_ok e'"
proof -
  let ?s = "ao_symbol cmd" and ?sd = "ao_side cmd" and ?osd = "opposite (ao_side cmd)"
  let ?Q1 = "set_queue ?s ?osd q (engine_queue e)"
  note facts = book_for_facts [OF bf]
  have ok: "books_ok e" and inv: "spec_inv (view e)" using wf by (simp_all add: wf_engine_def)
  obtain b2 e2 where ro: "rest_order b1 cmd (run_remaining r) (run_engine r) = (b2, e2)" by fastforce
  have "wf_side ?s ?sd (book_side ?sd b1)" using wfb1 by (simp add: wf_book_sides)
  note rest = rest_order_refines [OF this rests(1) ro]
  define r1 where "r1 = rested_run cmd (run_remaining r) (r\<lparr>run_engine := e2\<rparr>)"
  define e' where "e' = store_book ?s b2 (run_engine r1)"
  have wfb2: "wf_book ?s b2" using wf_book_set [OF wfb1 rest(1)] rest(2) by simp
  define Q2 where "Q2 = set_queue ?s ?sd (enqueue ?sd (ao_price_ticks cmd)
    (next_node (run_engine r), resting_of cmd (run_remaining r) (engine_sequence (run_engine r)))
    (?Q1 ?s ?sd)) ?Q1"
  have q2: "side_queue td (book_side td b2) = Q2 ?s td" for td
    using rest(2,3) q1 by (cases "td = ?sd") (simp_all add: Q2_def set_queue_apply, metis book_side_set)
  have frame1: "books (run_engine r1) = (books e)(?s \<mapsto> b)"
    using rest(4) frame by (simp add: r1_def rested_run_def)
  have view': "view e' = (Q2, forget (run_engine r1))"
    unfolding e'_def by (rule view_store [where Q = Q2, OF frame1 q2]) (simp add: Q2_def set_queue_apply)
  have "rested_run cmd (run_remaining r) ((forget_run r)\<lparr>run_engine := forget e2\<rparr>) = forget_run r1"
    unfolding r1_def rested_run_def by (subst forget_emit [symmetric]) (simp add: forget_run_def)
  then have spec: "spec_add cmd (view e) = ((run_events r1, run_trades r1), view e')"
    using fillable rests rest(4)
    by (simp add: spec_add_def view_def [of e] mq spec_rest_def view' Q2_def Let_def)
  have "uncrossed Q2" using spec_add_inv [OF inv, of cmd] spec view' by (simp add: spec_inv_def)
  then have "check_not_crossed ?s b2 = Inr ()"
    using q2 [of Buy] q2 [of Sell] by (intro check_not_crossed_ok [OF wfb2]) (simp add: uncrossed_def)
  then have "engine_add cmd e = Inr ((run_events r1, run_trades r1), e')"
    using fillable rests unfillable_iff [OF facts(5) [OF ok]] facts(3) ms ro
    by (simp add: engine_add_def bf accept_run_def [symmetric] finish_add_def e'_def r1_def
        rested_run_def b1 [symmetric])
  moreover have "books_ok e'" unfolding e'_def by (rule books_ok_store [OF ok wfb2 frame1])
  ultimately show ?thesis using spec by blast
qed

lemma add_drops:
  assumes ok: "books_ok e" and bf: "book_for (ao_symbol cmd) e = (b, e0)"
    and fillable: "\<not> unfillable cmd (engine_queue e (ao_symbol cmd) (opposite (ao_side cmd)))"
    and ms: "match_side cmd (book_side (opposite (ao_side cmd)) b) (accept_run cmd e0) = Inr (opp, r)"
    and mq: "match_queue cmd (engine_queue e (ao_symbol cmd) (opposite (ao_side cmd)))
      (accept_run cmd (forget e)) = (q, forget_run r)"
    and b1: "b1 = set_book_side (opposite (ao_side cmd)) opp b" and wfb1: "wf_book (ao_symbol cmd) b1"
    and q1: "\<And>td. side_queue td (book_side td b1) =
      set_queue (ao_symbol cmd) (opposite (ao_side cmd)) q (engine_queue e) (ao_symbol cmd) td"
    and frame: "books (run_engine r) = (books e)(ao_symbol cmd \<mapsto> b)"
    and no_rest: "\<not> (0 < run_remaining r \<and> ao_time_in_force cmd = GTC)"
  shows "\<exists>out e'. engine_add cmd e = Inr (out, e') \<and> spec_add cmd (view e) = (out, view e') \<and>
    books_ok e'"
proof -
  let ?s = "ao_symbol cmd" and ?osd = "opposite (ao_side cmd)"
  let ?Q1 = "set_queue ?s ?osd q (engine_queue e)"
  note facts = book_for_facts [OF bf]
  define r1 where "r1 = (if 0 < run_remaining r \<and> ao_time_in_force cmd \<noteq> FOK
    then dropped_run cmd (run_remaining r) r else r)"
  define e' where "e' = store_book ?s b1 (run_engine r1)"
  have frame1: "books (run_engine r1) = (books e)(?s \<mapsto> b)"
    using frame by (simp add: r1_def dropped_run_def)
  have view': "view e' = (?Q1, forget (run_engine r1))"
    unfolding e'_def by (rule view_store [where Q = ?Q1, OF frame1 q1]) (simp add: set_queue_apply)
  have frun: "(if 0 < run_remaining r \<and> ao_time_in_force cmd \<noteq> FOK
      then dropped_run cmd (run_remaining r) (forget_run r) else forget_run r) = forget_run r1"
    by (simp add: r1_def dropped_run_def forget_emit)
  have spec: "spec_add cmd (view e) = ((run_events r1, run_trades r1), view e')"
    unfolding view' unfolding spec_add_def view_def Let_def prod.case mq forget_run_simps
    by (simp only: fillable no_rest if_False frun forget_run_simps)
  have "ao_time_in_force cmd \<noteq> FOK \<longleftrightarrow> ao_time_in_force cmd = GTC \<or>
      ao_time_in_force cmd = IOC \<or> ao_time_in_force cmd = MARKET"
    by (cases "ao_time_in_force cmd") simp_all
  then have "engine_add cmd e = Inr ((run_events r1, run_trades r1), e')"
    using fillable no_rest unfillable_iff [OF facts(5) [OF ok]] facts(3) ms
    by (auto simp: engine_add_def bf accept_run_def [symmetric] finish_add_def e'_def r1_def
        dropped_run_def b1 [symmetric] Let_def)
  moreover have "books_ok e'" unfolding e'_def by (rule books_ok_store [OF ok wfb1 frame1])
  ultimately show ?thesis using spec by blast
qed

lemma engine_add_refines:
  assumes wf: "wf_engine e"
  shows "\<exists>out e'. engine_add cmd e = Inr (out, e') \<and> spec_add cmd (view e) = (out, view e') \<and>
    wf_engine e'"
proof -
  obtain b e0 where bf: "book_for (ao_symbol cmd) e = (b, e0)" by fastforce
  have ok: "books_ok e" and inv: "spec_inv (view e)" using wf by (simp_all add: wf_engine_def)
  from add_matches [OF bf ok] obtain opp q r where
    m: "match_side cmd (book_side (opposite (ao_side cmd)) b) (accept_run cmd e0) = Inr (opp, r)"
      "match_queue cmd (engine_queue e (ao_symbol cmd) (opposite (ao_side cmd)))
         (accept_run cmd (forget e)) = (q, forget_run r)"
      "wf_book (ao_symbol cmd) (set_book_side (opposite (ao_side cmd)) opp b)"
      "books (run_engine r) = (books e)(ao_symbol cmd \<mapsto> b)"
    and q1: "\<And>td. side_queue td (book_side td (set_book_side (opposite (ao_side cmd)) opp b)) =
      set_queue (ao_symbol cmd) (opposite (ao_side cmd)) q (engine_queue e) (ao_symbol cmd) td"
    by blast
  consider (unfillable) "unfillable cmd (engine_queue e (ao_symbol cmd) (opposite (ao_side cmd)))"
    | (rests) "\<not> unfillable cmd (engine_queue e (ao_symbol cmd) (opposite (ao_side cmd)))"
        "0 < run_remaining r" "ao_time_in_force cmd = GTC"
    | (drops) "\<not> unfillable cmd (engine_queue e (ao_symbol cmd) (opposite (ao_side cmd)))"
        "\<not> (0 < run_remaining r \<and> ao_time_in_force cmd = GTC)" by argo
  then have "\<exists>out e'. engine_add cmd e = Inr (out, e') \<and> spec_add cmd (view e) = (out, view e') \<and>
      books_ok e'"
  proof cases
    case unfillable
    then show ?thesis by (rule add_unfillable [OF bf ok])
  next
    case rests
    show ?thesis by (rule add_rests [OF wf bf rests(1) m(1,2) refl m(3) q1 m(4) rests(2,3)])
  next
    case drops
    show ?thesis by (rule add_drops [OF ok bf drops(1) m(1,2) refl m(3) q1 m(4) drops(2)])
  qed
  with spec_add_inv [OF inv, of cmd] show ?thesis by (force simp: wf_engine_def)
qed

section \<open>Cancelling and replacing\<close>

lemma level_distinct:
  assumes "(p, lv) \<in> set m" "distinct (map fst (side_queue sd m))"
  shows "distinct (map fst lv)"
proof -
  from assms(1) obtain m1 m2 where "m = m1 @ (p, lv) # m2" by (auto simp: in_set_conv_decomp)
  with assms(2) show ?thesis by (cases sd) (simp_all add: side_queue_def)
qed

text \<open>No iterator in the index dangles: it leads to a node of the level the index names.\<close>

lemma indexed_level:
  assumes wf: "wf_engine e" and ix: "index e k = Some loc"
  shows "\<exists>b lv ord. books e (loc_symbol loc) = Some b \<and>
    om_find (loc_price loc) (book_side (loc_side loc) b) = Some lv \<and>
    (loc_iter loc, ord) \<in> set lv \<and> distinct (map fst lv) \<and>
    spec_order loc (view e) = Some ord \<and> ro_order_id ord = k"
proof -
  have inv: "spec_inv (engine_queue e, forget e)" and ok: "books_ok e"
    using wf by (simp_all add: wf_engine_def view_def)
  from spec_order_found [OF inv, of k loc] ix obtain ord where
    ord: "spec_order loc (view e) = Some ord" "ro_order_id ord = k" "ro_price_ticks ord = loc_price loc"
      "(loc_iter loc, ord) \<in> set (engine_queue e (loc_symbol loc) (loc_side loc))"
    by (auto simp: view_def)
  from ord(4) obtain b where b: "books e (loc_symbol loc) = Some b"
    "(loc_iter loc, ord) \<in> set (side_queue (loc_side loc) (book_side (loc_side loc) b))"
    by (cases "books e (loc_symbol loc)") (auto simp: engine_queue_def)
  have wfs: "wf_side (loc_symbol loc) (loc_side loc) (book_side (loc_side loc) b)"
    using ok b(1) by (simp add: books_ok_def wf_book_sides)
  from side_queue_find [OF wfs, of "(loc_iter loc, ord)" "loc_side loc" "loc_price loc"] b(2) ord(3)
  obtain lv where lv: "om_find (loc_price loc) (book_side (loc_side loc) b) = Some lv"
    "(loc_iter loc, ord) \<in> set lv" by auto
  have "distinct (map fst (engine_queue e (loc_symbol loc) (loc_side loc)))"
    using inv nodes_okD(1) by (auto simp: spec_inv_def)
  then have "distinct (map fst lv)"
    using level_distinct [of "loc_price loc" lv "book_side (loc_side loc) b" "loc_side loc"] lv(1) b(1)
      om_find_iff [OF wf_side_inv [OF wfs]] by (simp add: engine_queue_def)
  with b(1) lv ord show ?thesis by blast
qed

lemma deref_refines:
  assumes "wf_engine e" "index e k = Some loc"
  shows "\<exists>ord. deref e loc = Inr ord \<and> spec_order loc (view e) = Some ord"
  using indexed_level [OF assms] by (auto simp: deref_def)

lemma remove_resting_refines:
  assumes wf: "wf_engine e" and ix: "index e k = Some loc"
  shows "\<exists>e'. remove_resting k e = Inr e' \<and> spec_remove k loc (view e) = view e' \<and> wf_engine e'"
proof -
  let ?s = "loc_symbol loc" and ?sd = "loc_side loc" and ?n = "loc_iter loc"
  have inv: "spec_inv (engine_queue e, forget e)" and ok: "books_ok e"
    using wf by (simp_all add: wf_engine_def view_def)
  from indexed_level [OF assms] obtain b lv ord where b: "books e ?s = Some b"
    and lv: "om_find (loc_price loc) (book_side ?sd b) = Some lv" "(?n, ord) \<in> set lv" by blast
  define lv' where "lv' = filter (\<lambda>nd. fst nd \<noteq> ?n) lv"
  define m' where "m' = (if lv' = [] then om_erase (loc_price loc) (book_side ?sd b)
    else om_assign (loc_price loc) lv' (book_side ?sd b))"
  define e' where "e' = store_book ?s (set_book_side ?sd m' b) (e\<lparr>index := (index e)(k := None)\<rparr>)"
  have n: "?n \<in> fst ` set lv" using lv(2) by force
  have run: "remove_resting k e = Inr e'"
    using n by (simp add: remove_resting_def ix book_for_def b lv(1) erase_node_def e'_def m'_def
        lv'_def Let_def)
  have wfb: "wf_book ?s b" using ok b by (simp add: books_ok_def)
  then have wfs: "wf_side ?s ?sd (book_side ?sd b)" by (simp add: wf_book_sides)
  have "wf_order ?s ?sd (loc_price loc) (snd nd)" if "nd \<in> set lv'" for nd
    using wf_side_levelD(2) [OF wfs, of "loc_price loc" lv nd] that lv(1) wfs
    by (auto simp: lv'_def om_find_iff)
  then have wfm: "wf_side ?s ?sd m'" using wfs by (auto simp: m'_def intro: wf_intros)
  have "distinct (map fst (engine_queue e ?s ?sd))" using inv nodes_okD(1) by (auto simp: spec_inv_def)
  then have queue: "side_queue ?sd m' = filter (\<lambda>nd. fst nd \<noteq> ?n) (engine_queue e ?s ?sd)"
    using erase_refines_filter [OF wfs lv(1) n _ lv'_def] b by (simp add: m'_def engine_queue_def)
  let ?Q = "set_queue ?s ?sd (filter (\<lambda>nd. fst nd \<noteq> ?n) (engine_queue e ?s ?sd)) (engine_queue e)"
  have frame: "books (e\<lparr>index := (index e)(k := None)\<rparr>) = (books e)(?s \<mapsto> b)" using b by auto
  have q: "side_queue td (book_side td (set_book_side ?sd m' b)) = ?Q ?s td" for td
    using queue b by (simp add: book_side_set set_queue_apply engine_queue_def)
  have "view e' = (?Q, forget (e\<lparr>index := (index e)(k := None)\<rparr>))"
    unfolding e'_def by (rule view_store [where Q = ?Q, OF frame q]) (simp add: set_queue_apply)
  then have sr: "spec_remove k loc (view e) = view e'"
    by (simp add: spec_remove_def view_def [of e] Let_def)
  moreover have "spec_inv (view e')"
    using spec_inv_remove [OF inv, of k loc] ix sr by (simp add: view_def [of e])
  moreover have "books_ok e'" unfolding e'_def by (rule books_ok_store [OF ok wf_book_set [OF wfb wfm] frame])
  ultimately show ?thesis using run by (auto simp: wf_engine_def)
qed

lemma event_view:
  "view (snd (event ty s p e)) = (fst (view e), snd (event ty s p (snd (view e))))"
  "fst (event ty s p (snd (view e))) = fst (event ty s p e)"
  using engine_queue_cong [of "snd (event ty s p e)" e]
  by (simp_all add: view_def forget_event)

lemma event_wf: "wf_engine e \<Longrightarrow> wf_engine (snd (event ty s p e))"
  by (simp add: wf_engine_def books_ok_def event_view spec_inv_def)

lemma engine_cancel_refines:
  assumes wf: "wf_engine e"
  shows "\<exists>evs e'. engine_cancel cmd e = Inr (evs, e') \<and> spec_cancel cmd (view e) = (evs, view e') \<and>
    wf_engine e'"
proof (cases "index e (co_order_id cmd)")
  case None
  moreover from this have "index (snd (view e)) (co_order_id cmd) = None" by (simp add: view_def)
  ultimately show ?thesis
    using wf by (simp add: engine_cancel_def spec_cancel_def spec_unknown_def split_beta event_view event_wf)
next
  case (Some loc)
  moreover from this have "index (snd (view e)) (co_order_id cmd) = Some loc" by (simp add: view_def)
  ultimately show ?thesis
    using deref_refines [OF wf Some] remove_resting_refines [OF wf Some]
    by (auto simp: engine_cancel_def spec_cancel_def split_beta event_view event_wf)
qed

lemma engine_replace_refines:
  assumes wf: "wf_engine e"
  shows "\<exists>out e'. engine_replace cmd e = Inr (out, e') \<and> spec_replace cmd (view e) = (out, view e') \<and>
    wf_engine e'"
proof (cases "index e (rp_order_id cmd)")
  case None
  moreover from this have "index (snd (view e)) (rp_order_id cmd) = None" by (simp add: view_def)
  ultimately show ?thesis
    using wf by (simp add: engine_replace_def spec_replace_def spec_unknown_def split_beta event_view event_wf)
next
  case (Some loc)
  then have ix: "index (snd (view e)) (rp_order_id cmd) = Some loc" by (simp add: view_def)
  let ?cancel = "\<lparr>co_symbol = rp_symbol cmd, co_order_id = rp_order_id cmd\<rparr>"
  from deref_refines [OF wf Some] obtain ord where
    ord: "deref e loc = Inr ord" "spec_order loc (view e) = Some ord" by blast
  from engine_cancel_refines [OF wf, of ?cancel] obtain evs e1 where
    c: "engine_cancel ?cancel e = Inr (evs, e1)" "spec_cancel ?cancel (view e) = (evs, view e1)"
      "wf_engine e1" by blast
  from engine_add_refines [OF c(3), of "replacement cmd (loc_side loc) ord"] obtain evs' ts e2 where
    a: "engine_add (replacement cmd (loc_side loc) ord) e1 = Inr ((evs', ts), e2)"
      "spec_add (replacement cmd (loc_side loc) ord) (view e1) = ((evs', ts), view e2)"
      "wf_engine e2" by auto
  have "engine_replace cmd e = Inr ((evs @ evs', ts), e2)"
    using Some ord c a by (simp add: engine_replace_def replacement_def)
  moreover have "spec_replace cmd (view e) = ((evs @ evs', ts), view e2)"
    using ix ord c a by (simp add: spec_replace_def)
  ultimately show ?thesis using a(3) by blast
qed

end
