(* ===== verification/Engine_System.thy ===== *)
theory Engine_System
  imports Engine_Refinement
begin

text \<open>
  The engine as a transition system: one step per public operation that changes it, in any order
  and with any arguments. The interpretation \<open>eng\<close> shows that well-formedness is an invariant of
  this system and that it refines the specification on queues, so every reachable engine is well
  formed. The rest of the theory reads the outcome of a command off the specification.
\<close>

section \<open>Steps\<close>

definition engine_init :: "engine \<Rightarrow> bool" where
  "engine_init e \<longleftrightarrow> e = empty_engine"

inductive engine_step :: "engine \<Rightarrow> engine \<Rightarrow> bool" where
  step_add: "engine_add cmd e = Inr (out, e') \<Longrightarrow> engine_step e e'"
| step_cancel: "engine_cancel ccmd e = Inr (evs, e') \<Longrightarrow> engine_step e e'"
| step_replace: "engine_replace rcmd e = Inr (out, e') \<Longrightarrow> engine_step e e'"
| step_reject: "engine_reject s k reason e = (ev, e') \<Longrightarrow> engine_step e e'"

abbreviation reachable_engine :: "engine \<Rightarrow> bool" where
  "reachable_engine \<equiv> reachable engine_init engine_step"

definition spec_init :: "spec_state \<Rightarrow> bool" where
  "spec_init S \<longleftrightarrow> S = ((\<lambda>_ _. []), empty_engine)"

inductive spec_step :: "spec_state \<Rightarrow> spec_state \<Rightarrow> bool" where
  spec_step_add: "spec_step S (snd (spec_add cmd S))"
| spec_step_cancel: "spec_step S (snd (spec_cancel ccmd S))"
| spec_step_replace: "spec_step S (snd (spec_replace rcmd S))"
| spec_step_reject: "spec_step (Q, e) (Q, snd (engine_reject s k reason e))"

inductive_cases engine_stepE: "engine_step e e'"

lemma view_empty: "view empty_engine = ((\<lambda>_ _. []), empty_engine)"
  by (simp add: view_def engine_queue_def forget_def empty_engine_def fun_eq_iff)

lemma empty_engine_simps [simp]:
  "books empty_engine = (\<lambda>_. None)" "index empty_engine = (\<lambda>_. None)"
  "engine_sequence empty_engine = 0" "next_node empty_engine = 0"
  by (simp_all add: empty_engine_def)

lemma empty_engine_wf: "wf_engine empty_engine"
  by (simp add: wf_engine_def view_empty books_ok_def spec_inv_def orders_ok_def
      uncrossed_def nodes_ok_def index_sound_def in_priority_order_def)

lemma engine_reject_refines:
  "view (snd (engine_reject s k reason e)) = (fst (view e), snd (engine_reject s k reason (snd (view e))))"
  "wf_engine e \<Longrightarrow> wf_engine (snd (engine_reject s k reason e))"
  by (simp_all add: engine_reject_def event_view event_wf)

text \<open>A command that returned, seen through \<open>view\<close>.\<close>

lemma engine_add_view:
  "wf_engine e \<Longrightarrow> engine_add cmd e = Inr (out, e') \<Longrightarrow>
     spec_add cmd (view e) = (out, view e') \<and> wf_engine e'"
  using engine_add_refines [of e cmd] by auto

lemma engine_cancel_view:
  "wf_engine e \<Longrightarrow> engine_cancel cmd e = Inr (evs, e') \<Longrightarrow>
     spec_cancel cmd (view e) = (evs, view e') \<and> wf_engine e'"
  using engine_cancel_refines [of e cmd] by auto

lemma engine_replace_view:
  "wf_engine e \<Longrightarrow> engine_replace cmd e = Inr (out, e') \<Longrightarrow>
     spec_replace cmd (view e) = (out, view e') \<and> wf_engine e'"
  using engine_replace_refines [of e cmd] by auto

lemma engine_step_view:
  assumes "wf_engine e" "engine_step e e'"
  shows "wf_engine e' \<and> spec_step (view e) (view e')"
  using assms(2)
proof cases
  case (step_add cmd out)
  show ?thesis
    using engine_add_view [OF assms(1) step_add] spec_step_add [of "view e" cmd] by simp
next
  case (step_cancel cmd evs)
  show ?thesis
    using engine_cancel_view [OF assms(1) step_cancel] spec_step_cancel [of "view e" cmd] by simp
next
  case (step_replace cmd out)
  show ?thesis
    using engine_replace_view [OF assms(1) step_replace] spec_step_replace [of "view e" cmd] by simp
next
  case (step_reject s k reason ev)
  then have e': "e' = snd (engine_reject s k reason e)" by simp
  show ?thesis unfolding e' engine_reject_refines(1)
    using engine_reject_refines(2) [OF assms(1)] spec_step_reject [of "fst (view e)" "snd (view e)"]
    by simp
qed

interpretation eng: refinement_system engine_init engine_step wf_engine view spec_init spec_step
proof
  show "wf_engine e" if "engine_init e" for e
    using that by (simp add: engine_init_def empty_engine_wf)
  show "wf_engine e'" if "wf_engine e" "engine_step e e'" for e e'
    using engine_step_view [OF that] by simp
  show "spec_init (view e)" if "engine_init e" for e
    using that by (simp add: engine_init_def spec_init_def view_empty)
  show "view e' = view e \<or> spec_step (view e) (view e')" if "wf_engine e" "engine_step e e'" for e e'
    using engine_step_view [OF that] by simp
qed

section \<open>Outcomes of a command\<close>

lemma view_simps [simp]: "fst (view e) = engine_queue e" "snd (view e) = forget e"
  by (simp_all add: view_def)

lemma spec_add_unfillable:
  assumes "unfillable cmd (Q (ao_symbol cmd) (opposite (ao_side cmd)))"
    and "spec_add cmd (Q, e) = ((evs, ts), (Q', e'))"
  shows "ts = []" "Q' = Q" "e' = e\<lparr>engine_sequence := engine_sequence e + 1\<rparr>"
    "evs = [\<lparr>ev_sequence = engine_sequence e + 1, ev_type = Rejected, ev_symbol = ao_symbol cmd,
       ev_payload = [''order_id'' \<mapsto> PInt (ao_order_id cmd), ''reason'' \<mapsto> PStr ''FOK_UNFILLABLE'']\<rparr>]"
  using assms by (auto simp: spec_add_def event_def Let_def)

lemma spec_add_fillable:
  assumes "\<not> unfillable cmd (Q (ao_symbol cmd) (opposite (ao_side cmd)))"
    and "spec_add cmd (Q, e) = ((evs, ts), (Q', e'))"
    and "match_queue cmd (Q (ao_symbol cmd) (opposite (ao_side cmd))) (accept_run cmd e) = (q, r)"
  shows "0 < run_remaining r \<Longrightarrow> ao_time_in_force cmd = GTC \<Longrightarrow>
      ts = run_trades r \<and> evs = run_events (rested_run cmd (run_remaining r) r) \<and>
      Q' = fst (spec_rest cmd (run_remaining r)
        (set_queue (ao_symbol cmd) (opposite (ao_side cmd)) q Q, run_engine r)) \<and>
      engine_sequence e' = engine_sequence (run_engine r) + 1"
    and "\<not> (0 < run_remaining r \<and> ao_time_in_force cmd = GTC) \<Longrightarrow>
      ts = run_trades r \<and>
      evs = run_events (if 0 < run_remaining r \<and> ao_time_in_force cmd \<noteq> FOK
        then dropped_run cmd (run_remaining r) r else r) \<and>
      Q' = set_queue (ao_symbol cmd) (opposite (ao_side cmd)) q Q \<and>
      engine_sequence e' = (if 0 < run_remaining r \<and> ao_time_in_force cmd \<noteq> FOK
        then engine_sequence (run_engine r) + 1 else engine_sequence (run_engine r))"
  using assms
  by (auto simp: spec_add_def spec_rest_def rested_run_def dropped_run_def Let_def split: if_splits)

lemma spec_add_trades:
  assumes "spec_add cmd (Q, e) = ((evs, ts), (Q', e'))"
  shows "ts = (if unfillable cmd (Q (ao_symbol cmd) (opposite (ao_side cmd))) then []
    else map (\<lambda>(ord, k). trade_of cmd ord k)
      (fills (ao_quantity cmd) (eligible cmd (Q (ao_symbol cmd) (opposite (ao_side cmd))))))"
proof (cases "unfillable cmd (Q (ao_symbol cmd) (opposite (ao_side cmd)))")
  case True
  with spec_add_unfillable(1) [OF True assms] show ?thesis by simp
next
  case False
  obtain q r where mq: "match_queue cmd (Q (ao_symbol cmd) (opposite (ao_side cmd))) (accept_run cmd e) = (q, r)"
    by fastforce
  have "ts = run_trades r" using spec_add_fillable [OF False assms mq] by blast
  with False match_queue_trades [of cmd "Q (ao_symbol cmd) (opposite (ao_side cmd))" "accept_run cmd e"] mq
  show ?thesis by simp
qed

end
