(* ===== verification/Engine_Laws.thy ===== *)
theory Engine_Laws
  imports Engine_System
begin

text \<open>
  Facts about one command on a well-formed engine, shared by the engine's properties: what is in
  the queues, the best prices, and for \<open>add\<close> the numbering of its events, the balance of its
  quantities, its trades and what it leaves on either side of the book.
\<close>

section \<open>Queues of a well-formed engine\<close>

lemma reachable_wf: "reachable_engine e \<Longrightarrow> wf_engine e"
  by (rule eng.reachable_inv)

lemma wf_engine_view: "wf_engine e \<Longrightarrow> spec_inv (engine_queue e, forget e)"
  by (simp add: wf_engine_def view_def)

lemma queue_order_wf:
  "wf_engine e \<Longrightarrow> nd \<in> set (engine_queue e s sd) \<Longrightarrow>
     wf_order s sd (ro_price_ticks (snd nd)) (snd nd)"
  by (drule wf_engine_view) (simp add: spec_inv_def orders_ok_def)

lemma queue_order_pos:
  "wf_engine e \<Longrightarrow> nd \<in> set (engine_queue e s sd) \<Longrightarrow> 0 < ro_remaining (snd nd)"
  by (drule (1) queue_order_wf) (simp add: wf_order_def)

lemma queue_in_order: "wf_engine e \<Longrightarrow> in_priority_order sd (engine_queue e s sd)"
  by (drule wf_engine_view) (simp add: spec_inv_def orders_ok_def)

lemma queue_uncrossed:
  "wf_engine e \<Longrightarrow> x \<in> set (engine_queue e s Buy) \<Longrightarrow> y \<in> set (engine_queue e s Sell) \<Longrightarrow>
     ro_price_ticks (snd x) < ro_price_ticks (snd y)"
  by (drule wf_engine_view) (simp add: spec_inv_def uncrossed_def)

section \<open>Best prices\<close>

lemma front_level:
  assumes "wf_side s sd' m" "best_level (opposite sd) m = Some (p, lv)"
  shows "\<exists>nd q. side_queue sd m = nd # q \<and> ro_price_ticks (snd nd) = p"
proof -
  from best_level_in_set [OF assms(2)] have mem: "(p, lv) \<in> set m" .
  obtain nd lv' where lv: "lv = nd # lv'"
    using wf_side_levelD(1) [OF assms(1) mem] by (cases lv) auto
  have "ro_price_ticks (snd nd) = p"
    using wf_side_levelD(2) [OF assms(1) mem, of nd] lv by (simp add: wf_order_def)
  with assms(2) lv show ?thesis
    by (cases sd; cases nd) (auto simp: best_level_def opposite_def om_begin_eq_Some om_rbegin_eq_Some side_queue_def)
qed

lemma front_none: "best_level (opposite sd) m = None \<longleftrightarrow> m = []"
  by (simp add: best_level_def om_begin_def om_rbegin_def split: list.splits)

lemma best_price_hd:
  assumes "wf_engine e"
  shows "(case books e s of None \<Rightarrow> None
      | Some b \<Rightarrow> map_option fst (best_level (opposite sd) (book_side sd b))) =
    (case engine_queue e s sd of [] \<Rightarrow> None | nd # q \<Rightarrow> Some (ro_price_ticks (snd nd)))"
proof (cases "books e s")
  case None
  then show ?thesis by (simp add: engine_queue_def)
next
  case (Some b)
  then have wf: "wf_side s sd (book_side sd b)"
    using assms by (simp add: wf_engine_def books_ok_def wf_book_sides)
  show ?thesis
  proof (cases "best_level (opposite sd) (book_side sd b)")
    case None
    then have "book_side sd b = []" by (simp add: front_none)
    with Some None show ?thesis by (simp add: engine_queue_def)
  next
    case (Some pl)
    with front_level [OF wf, of sd "fst pl" "snd pl"] \<open>books e s = Some b\<close> show ?thesis
      by (auto simp: engine_queue_def)
  qed
qed

lemma best_bid_hd:
  "wf_engine e \<Longrightarrow> best_bid s e =
     (case engine_queue e s Buy of [] \<Rightarrow> None | nd # q \<Rightarrow> Some (ro_price_ticks (snd nd)))"
  using best_price_hd [of e Buy s]
  by (simp add: best_bid_def find_book_def best_level_def opposite_def cong: option.case_cong)

lemma best_ask_hd:
  "wf_engine e \<Longrightarrow> best_ask s e =
     (case engine_queue e s Sell of [] \<Rightarrow> None | nd # q \<Rightarrow> Some (ro_price_ticks (snd nd)))"
  using best_price_hd [of e Sell s]
  by (simp add: best_ask_def find_book_def best_level_def opposite_def cong: option.case_cong)

section \<open>One add\<close>

lemma spec_add_numbered:
  assumes "spec_add cmd (Q, e) = ((evs, ts), (Q', e'))"
  shows "numbered (engine_sequence e) evs (engine_sequence e')"
proof (cases "unfillable cmd (Q (ao_symbol cmd) (opposite (ao_side cmd)))")
  case True
  with spec_add_unfillable [OF True assms] show ?thesis
    using numbered_snoc [of "engine_sequence e" "[]" "engine_sequence e"] by simp
next
  case False
  obtain q r where mq: "match_queue cmd (Q (ao_symbol cmd) (opposite (ao_side cmd))) (accept_run cmd e) = (q, r)"
    by fastforce
  have "run_numbered (engine_sequence e) (accept_run cmd e)"
    unfolding accept_run_def by (intro run_numbered_emit) (simp add: run_numbered_def)
  then have "run_numbered (engine_sequence e) r"
    using match_queue_numbered [of "engine_sequence e" "accept_run cmd e" cmd] mq by (metis snd_conv)
  then have num: "numbered (engine_sequence e) (run_events r) (engine_sequence (run_engine r))"
    by (simp add: run_numbered_def)
  show ?thesis
  proof (cases "0 < run_remaining r \<and> ao_time_in_force cmd = GTC")
    case True
    with spec_add_fillable(1) [OF False assms mq] num show ?thesis
      by (simp add: rested_run_def numbered_snoc)
  next
    case no: False
    with spec_add_fillable(2) [OF False assms mq no] num show ?thesis
      by (auto simp: dropped_run_def numbered_snoc split: if_splits)
  qed
qed

lemma queue_volume_enqueue: "queue_volume (enqueue sd p nd q) = ro_remaining (snd nd) + queue_volume q"
proof -
  have "queue_volume (takeWhile P q) + queue_volume (dropWhile P q) = queue_volume q" for P
    by (metis queue_volume_simps(3) takeWhile_dropWhile_id)
  then show ?thesis by (simp add: enqueue_def)
qed

definition symbol_volume :: "queues \<Rightarrow> string \<Rightarrow> int" where
  "symbol_volume Q s = queue_volume (Q s Buy) + queue_volume (Q s Sell)"

lemma symbol_volume_set:
  "symbol_volume (set_queue s sd q Q) s = symbol_volume Q s - queue_volume (Q s sd) + queue_volume q"
  by (cases sd) (simp_all add: symbol_volume_def set_queue_apply)

text \<open>A fill-or-kill order that passed the check and meets no self-trade prevention is filled
  whole.\<close>

lemma fok_filled:
  assumes "\<And>nd. nd \<in> set q \<Longrightarrow> 0 < ro_remaining (snd nd)"
    and "\<not> unfillable cmd q" "ao_time_in_force cmd = FOK" "ao_stp cmd = StpNone" "0 \<le> ao_quantity cmd"
  shows "run_remaining (snd (match_queue cmd q (accept_run cmd e))) = 0"
    and "traded_qty (run_trades (snd (match_queue cmd q (accept_run cmd e)))) = ao_quantity cmd"
proof -
  let ?f = "takeWhile (within_limit cmd) q"
  have "run_trades (snd (match_queue cmd q (accept_run cmd e))) =
      map (\<lambda>(ord, k). trade_of cmd ord k) (fills (ao_quantity cmd) ?f)"
    using match_queue_trades [of cmd q "accept_run cmd e"] assms(4) by (simp add: eligible_no_stp)
  moreover have "traded_qty (map (\<lambda>(ord, k). trade_of cmd ord k) fs) = sum_list (map snd fs)" for fs
    by (simp add: traded_qty_def case_prod_beta comp_def)
  moreover have "sum_list (map snd (fills (ao_quantity cmd) ?f)) = min (ao_quantity cmd) (queue_volume ?f)"
    using assms(1,5) by (intro sum_fills) (auto dest: set_takeWhileD)
  moreover have "ao_quantity cmd \<le> queue_volume ?f" using assms(2,3) by (simp add: unfillable_def)
  ultimately show traded: "traded_qty (run_trades (snd (match_queue cmd q (accept_run cmd e)))) = ao_quantity cmd"
    by simp
  with match_queue_remaining [OF assms(4), of q "accept_run cmd e"]
  show "run_remaining (snd (match_queue cmd q (accept_run cmd e))) = 0" by simp
qed

lemma accept_run_amounts [simp]:
  "accepted_qty (run_events (accept_run cmd e)) = ao_quantity cmd"
  "executed_qty (run_events (accept_run cmd e)) = 0"
  "cancelled_qty (run_events (accept_run cmd e)) = 0"
  by (simp_all add: accept_run_def qty_defs event_amount_def)

lemma spec_add_balance:
  assumes add: "spec_add cmd (Q, e) = ((evs, ts), (Q', e'))"
    and pos: "\<And>nd. nd \<in> set (Q (ao_symbol cmd) (opposite (ao_side cmd))) \<Longrightarrow> 0 < ro_remaining (snd nd)"
    and "0 \<le> ao_quantity cmd" "ao_time_in_force cmd = FOK \<longrightarrow> ao_stp cmd = StpNone"
  shows "symbol_volume Q' (ao_symbol cmd) = symbol_volume Q (ao_symbol cmd) +
    accepted_qty evs - 2 * executed_qty evs - cancelled_qty evs \<and> executed_qty evs = traded_qty ts"
proof -
  let ?s = "ao_symbol cmd" and ?osd = "opposite (ao_side cmd)"
  show ?thesis
  proof (cases "unfillable cmd (Q ?s ?osd)")
    case True
    from spec_add_unfillable [OF True add] show ?thesis by (simp add: qty_defs)
  next
    case False
    obtain q r where mq: "match_queue cmd (Q ?s ?osd) (accept_run cmd e) = (q, r)" by fastforce
    have bal: "queue_volume q + run_remaining r + 2 * executed_qty (run_events r) + cancelled_qty (run_events r) =
        queue_volume (Q ?s ?osd) + ao_quantity cmd"
      and acc: "accepted_qty (run_events r) = ao_quantity cmd"
      and tr: "executed_qty (run_events r) = traded_qty (run_trades r)"
      and nonneg: "0 \<le> run_remaining r"
      using match_queue_balance [of cmd "Q ?s ?osd" "accept_run cmd e"]
        match_queue_accepted [of cmd "Q ?s ?osd" "accept_run cmd e"]
        match_queue_traded [of cmd "Q ?s ?osd" "accept_run cmd e"]
        match_queue_nonneg [of "accept_run cmd e" cmd "Q ?s ?osd"] assms(3) mq by simp_all
    show ?thesis
    proof (cases "0 < run_remaining r \<and> ao_time_in_force cmd = GTC")
      case True
      with spec_add_fillable(1) [OF False add mq] bal acc tr show ?thesis
        by (simp add: rested_run_def spec_rest_def Let_def symbol_volume_set set_queue_apply
            queue_volume_enqueue resting_of_def qty_defs)
    next
      case no: False
      have "run_remaining r = 0" if "ao_time_in_force cmd = FOK"
        using fok_filled(1) [OF pos False that, of e] assms(3,4) that mq by simp
      with spec_add_fillable(2) [OF False add mq no] bal acc tr nonneg show ?thesis
        by (auto simp: dropped_run_def symbol_volume_set qty_defs event_amount_def split: if_splits)
    qed
  qed
qed

end
