(* ===== verification/Engine_Ids.thy ===== *)
theory Engine_Ids
  imports Engine_Laws
begin

text \<open>
  Order ids. The index has one entry per id, and \<open>rest_order\<close> overwrites it, so the index finds
  every resting order only as long as no id is used again while an order with it rests. Under that
  discipline (\<open>fresh_step\<close>) the index is complete in every reachable state: the interpretation
  \<open>ids\<close>.
\<close>

definition fresh :: "queues \<Rightarrow> int \<Rightarrow> bool" where
  "fresh Q k \<longleftrightarrow> (\<forall>s sd. \<forall>nd \<in> set (Q s sd). ro_order_id (snd nd) \<noteq> k)"

inductive fresh_step :: "engine \<Rightarrow> engine \<Rightarrow> bool" where
  fresh_add: "fresh (engine_queue e) (ao_order_id cmd) \<Longrightarrow> engine_add cmd e = Inr (out, e') \<Longrightarrow>
    fresh_step e e'"
| fresh_cancel: "engine_cancel ccmd e = Inr (evs, e') \<Longrightarrow> fresh_step e e'"
| fresh_replace: "fresh (engine_queue e) (rp_new_order_id rcmd) \<Longrightarrow>
    engine_replace rcmd e = Inr (out, e') \<Longrightarrow> fresh_step e e'"
| fresh_reject: "engine_reject s k reason e = (ev, e') \<Longrightarrow> fresh_step e e'"

lemma index_completeI:
  "(\<And>s sd nd. nd \<in> set (Q s sd) \<Longrightarrow> index e (ro_order_id (snd nd)) = Some
      \<lparr>loc_symbol = s, loc_side = sd, loc_price = ro_price_ticks (snd nd), loc_iter = fst nd\<rparr>) \<Longrightarrow>
     index_complete (Q, e)"
  by (simp add: index_complete_def)

lemma index_completeD:
  "index_complete (Q, e) \<Longrightarrow> nd \<in> set (Q s sd) \<Longrightarrow>
     index e (ro_order_id (snd nd)) =
       Some \<lparr>loc_symbol = s, loc_side = sd, loc_price = ro_price_ticks (snd nd), loc_iter = fst nd\<rparr>"
  by (simp add: index_complete_def)

lemma index_complete_unique:
  assumes "index_complete (Q, e)" "x \<in> set (Q s sd)" "y \<in> set (Q t td)"
    "ro_order_id (snd x) = ro_order_id (snd y)"
  shows "s = t \<and> sd = td \<and> fst x = fst y"
  using index_completeD [OF assms(1,2)] index_completeD [OF assms(1,3)] assms(4) by simp

lemma index_complete_leaves:
  assumes inv: "spec_inv (Q, e)" and ic: "index_complete (Q, e)" and lv: "leaves (Q s sd) gone q"
    and ix: "index e' = without (index e) (order_ids gone)"
  shows "index_complete (set_queue s sd q Q, e')"
proof -
  have kept: "ro_order_id (snd nd) \<notin> order_ids gone"
    if nd: "nd \<in> set (Q t td)" "t = s \<Longrightarrow> td = sd \<Longrightarrow> fst nd \<notin> fst ` set gone" for nd t td
  proof
    assume "ro_order_id (snd nd) \<in> order_ids gone"
    then obtain g where g: "g \<in> set gone" "ro_order_id (snd nd) = ro_order_id (snd g)"
      by (auto simp: order_ids_def)
    have "g \<in> set (Q s sd)" using g(1) lv by (auto simp: leaves_def)
    from index_complete_unique [OF ic nd(1) this g(2)] nd(2) g(1) show False by auto
  qed
  have "distinct (map fst (Q s sd))" using inv nodes_okD(1) by (auto simp: spec_inv_def)
  then have apart: "fst nd \<notin> fst ` set gone" if "nd \<in> set q" for nd
    using leaves_maps(1) [OF lv] that by auto
  have entry: "index e' (ro_order_id (snd nd)) =
      Some \<lparr>loc_symbol = t, loc_side = td, loc_price = ro_price_ticks (snd nd), loc_iter = fst nd\<rparr>"
    if "nd \<in> set (Q t td)" "t = s \<Longrightarrow> td = sd \<Longrightarrow> fst nd \<notin> fst ` set gone" for nd t td
    using kept [OF that] index_completeD [OF ic that(1)] by (simp add: ix without_def)
  have "index e' (ro_order_id (snd nd)) =
      Some \<lparr>loc_symbol = s, loc_side = sd, loc_price = ro_price_ticks (snd nd), loc_iter = fst nd\<rparr>"
    if nd: "nd \<in> set q" for nd
  proof -
    from leaves_origin [OF lv, of "fst nd" "snd nd"] nd obtain ord k where
      "(fst nd, ord) \<in> set (Q s sd)" "snd nd = ord\<lparr>ro_remaining := k\<rparr>" by auto
    with entry [of "(fst nd, ord)" s sd] apart [OF nd] show ?thesis by simp
  qed
  with entry show ?thesis by (auto simp: index_complete_def set_queue_apply)
qed

lemma index_complete_rest:
  assumes ic: "index_complete (Q, e)" and fr: "fresh Q (ao_order_id cmd)"
  shows "index_complete (spec_rest cmd remaining (Q, e))"
proof -
  have "index e (ro_order_id (snd nd)) = Some
      \<lparr>loc_symbol = s, loc_side = sd, loc_price = ro_price_ticks (snd nd), loc_iter = fst nd\<rparr>"
    "ro_order_id (snd nd) \<noteq> ao_order_id cmd" if "nd \<in> set (Q s sd)" for nd s sd
    using index_completeD [OF ic that] fr that by (auto simp: fresh_def)
  then show ?thesis
    by (auto simp: index_complete_def spec_rest_def set_queue_apply resting_of_def location_of_def Let_def)
qed

lemma index_complete_event [simp]:
  "index_complete (Q, e\<lparr>engine_sequence := n\<rparr>) = index_complete (Q, e)"
  "index_complete (Q, snd (event ty s p e)) = index_complete (Q, e)"
  by (simp_all add: index_complete_def)

lemma fresh_leaves:
  assumes "fresh Q k" "leaves (Q s sd) gone q"
  shows "fresh (set_queue s sd q Q) k"
proof -
  have "ro_order_id (snd nd) \<noteq> k" if "nd \<in> set q" for nd
    using leaves_origin [OF assms(2), of "fst nd" "snd nd"] that assms(1) by (fastforce simp: fresh_def)
  with assms(1) show ?thesis by (simp add: fresh_def set_queue_apply)
qed

lemma spec_add_complete:
  assumes inv: "spec_inv (Q, e)" and ic: "index_complete (Q, e)" and fr: "fresh Q (ao_order_id cmd)"
  shows "index_complete (snd (spec_add cmd (Q, e)))"
proof -
  let ?s = "ao_symbol cmd" and ?osd = "opposite (ao_side cmd)"
  obtain q r where mq: "match_queue cmd (Q ?s ?osd) (accept_run cmd e) = (q, r)" by fastforce
  from match_queue_leaves [of "Q ?s ?osd" cmd "accept_run cmd e"] mq obtain gone where
    lv: "leaves (Q ?s ?osd) gone q" "index (run_engine r) = without (index e) (order_ids gone)" by auto
  have ic1: "index_complete (set_queue ?s ?osd q Q, run_engine r)"
    by (rule index_complete_leaves [OF inv ic lv])
  have "index_complete (spec_rest cmd (run_remaining r) (set_queue ?s ?osd q Q, run_engine r))"
    by (rule index_complete_rest [OF ic1 fresh_leaves [OF fr lv(1)]])
  with ic ic1 show ?thesis
    by (auto simp: spec_add_def mq rested_run_def dropped_run_def index_complete_def Let_def split_beta)
qed

lemma spec_remove_complete:
  assumes inv: "spec_inv (Q, e)" and ic: "index_complete (Q, e)" and ix: "index e k = Some loc"
  shows "index_complete (spec_remove k loc (Q, e))"
proof -
  from spec_order_found [OF inv ix] obtain ord where
    ord: "(loc_iter loc, ord) \<in> set (Q (loc_symbol loc) (loc_side loc))" "ro_order_id ord = k" by blast
  have entry: "ro_order_id (snd nd) \<noteq> k \<and> index e (ro_order_id (snd nd)) = Some
      \<lparr>loc_symbol = s, loc_side = sd, loc_price = ro_price_ticks (snd nd), loc_iter = fst nd\<rparr>"
    if "nd \<in> set (Q s sd)" "s = loc_symbol loc \<Longrightarrow> sd = loc_side loc \<Longrightarrow> fst nd \<noteq> loc_iter loc" for nd s sd
    using index_complete_unique [OF ic that(1) ord(1)] index_completeD [OF ic that(1)] that(2) ord(2)
    by auto
  show ?thesis
    unfolding spec_remove_def Let_def prod.case
  proof (rule index_completeI)
    fix s sd nd
    assume "nd \<in> set (set_queue (loc_symbol loc) (loc_side loc)
      (filter (\<lambda>nd. fst nd \<noteq> loc_iter loc) (Q (loc_symbol loc) (loc_side loc))) Q s sd)"
    then have "nd \<in> set (Q s sd)" "s = loc_symbol loc \<Longrightarrow> sd = loc_side loc \<Longrightarrow> fst nd \<noteq> loc_iter loc"
      by (auto simp: set_queue_apply split: if_splits)
    from entry [OF this] show "index (e\<lparr>index := (index e)(k := None)\<rparr>) (ro_order_id (snd nd)) =
        Some \<lparr>loc_symbol = s, loc_side = sd, loc_price = ro_price_ticks (snd nd), loc_iter = fst nd\<rparr>"
      by simp
  qed
qed

lemma spec_cancel_complete:
  assumes "spec_inv (Q, e)" "index_complete (Q, e)"
  shows "index_complete (snd (spec_cancel cmd (Q, e)))"
  using assms spec_remove_complete [OF assms]
  by (auto simp: spec_cancel_def spec_unknown_def split_beta Let_def split: option.splits)

lemma fresh_remove: "fresh Q k \<Longrightarrow> fresh (fst (spec_remove j loc (Q, e))) k"
  by (fastforce simp: spec_remove_def fresh_def set_queue_apply Let_def split: if_splits)

lemma fresh_cancel_queues:
  "fresh Q k \<Longrightarrow> fresh (fst (snd (spec_cancel cmd (Q, e)))) k"
  by (auto simp: spec_cancel_def spec_unknown_def split_beta Let_def fresh_remove split: option.splits)

lemma spec_replace_complete:
  assumes inv: "spec_inv (Q, e)" and ic: "index_complete (Q, e)" and fr: "fresh Q (rp_new_order_id cmd)"
  shows "index_complete (snd (spec_replace cmd (Q, e)))"
proof -
  let ?c = "spec_cancel \<lparr>co_symbol = rp_symbol cmd, co_order_id = rp_order_id cmd\<rparr> (Q, e)"
  obtain evs Q1 e1 where c: "?c = (evs, (Q1, e1))" by (cases ?c) auto
  have "spec_inv (Q1, e1)" "index_complete (Q1, e1)" "fresh Q1 (rp_new_order_id cmd)"
    using spec_cancel_inv [OF inv] spec_cancel_complete [OF inv ic]
      fresh_cancel_queues [OF fr, of _ e] c by (metis snd_conv fst_conv)+
  then have "index_complete (snd (spec_add (replacement cmd sd ord) (Q1, e1)))" for sd ord
    by (intro spec_add_complete) (simp_all add: replacement_def)
  with ic c show ?thesis
    by (auto simp: spec_replace_def spec_unknown_def split_beta Let_def split: option.splits)
qed

definition ids_inv :: "engine \<Rightarrow> bool" where
  "ids_inv e \<longleftrightarrow> wf_engine e \<and> index_complete (view e)"

lemma fresh_step_inv:
  assumes "ids_inv e" "fresh_step e e'"
  shows "ids_inv e'"
proof -
  have wf: "wf_engine e" and inv: "spec_inv (engine_queue e, forget e)"
    and ic: "index_complete (engine_queue e, forget e)"
    using assms(1) by (simp_all add: ids_inv_def wf_engine_def view_def)
  from assms(2) show ?thesis
  proof cases
    case (fresh_add cmd out)
    with engine_add_view [OF wf fresh_add(2)] spec_add_complete [OF inv ic fresh_add(1)]
    show ?thesis by (simp add: ids_inv_def view_def)
  next
    case (fresh_cancel cmd evs)
    with engine_cancel_view [OF wf fresh_cancel] spec_cancel_complete [OF inv ic, of cmd]
    show ?thesis by (simp add: ids_inv_def view_def)
  next
    case (fresh_replace cmd out)
    with engine_replace_view [OF wf fresh_replace(2)] spec_replace_complete [OF inv ic fresh_replace(1)]
    show ?thesis by (simp add: ids_inv_def view_def)
  next
    case (fresh_reject s k reason ev)
    then have e': "e' = snd (engine_reject s k reason e)" by simp
    show ?thesis using engine_reject_refines(1) [of s k reason e] engine_reject_refines(2) [of e s k reason] wf ic
      unfolding e' by (simp add: ids_inv_def engine_reject_def)
  qed
qed

interpretation ids: invariant_system engine_init fresh_step ids_inv
proof
  show "ids_inv e" if "engine_init e" for e
    using that by (simp add: engine_init_def ids_inv_def empty_engine_wf view_empty index_complete_def)
  show "ids_inv e'" if "ids_inv e" "fresh_step e e'" for e e'
    using that by (rule fresh_step_inv)
qed

end
