(* ===== verification/Engine_Properties.thy ===== *)
theory Engine_Properties
  imports Engine_Ids
begin

text \<open>
  The properties of the matching engine, each about engines that a sequence of public operations
  can reach from the empty one, with no restriction on the commands unless it is stated. A small
  book (\<open>sample_engine\<close>: two asks at 101, one at 103 and a bid at 99) serves the concrete instances.
\<close>

section \<open>A sample book\<close>

definition sample_order :: "int \<Rightarrow> string \<Rightarrow> side \<Rightarrow> int \<Rightarrow> int \<Rightarrow> add_order" where
  "sample_order k who sd p q =
     \<lparr>ao_symbol = ''X'', ao_order_id = k, ao_participant_id = who, ao_side = sd, ao_price_ticks = p,
      ao_quantity = q, ao_time_in_force = GTC, ao_stp = StpNone\<rparr>"

definition after_add :: "add_order \<Rightarrow> engine \<Rightarrow> engine" where
  "after_add cmd e = (case engine_add cmd e of Inl _ \<Rightarrow> e | Inr (_, e') \<Rightarrow> e')"

definition sample_engine :: engine where
  "sample_engine = after_add (sample_order 4 ''C'' Buy 99 4) (after_add (sample_order 3 ''A'' Sell 103 7)
     (after_add (sample_order 2 ''B'' Sell 101 5) (after_add (sample_order 1 ''A'' Sell 101 10) empty_engine)))"

lemmas engine_eval = engine_add_def book_for_def empty_book_def store_book_def book_side_def
  opposite_def set_book_side_def emit_def event_def rest_order_def om_find_def check_not_crossed_def
  om_begin_def om_rbegin_def finish_add_def best_level_def beyond_limit_def match_side.simps
  match_level_Cons fill_run_def executed_event_def self_trade_def trade_of_def unindex_def
  stp_skip_def cancel_passive_event_def available_volume_def level_volume_def om_erase_def
  cancels_aggressor_def

lemmas sample_eval = sample_engine_def after_add_def sample_order_def empty_engine_def engine_eval

lemma reachable_empty: "reachable_engine empty_engine"
  by (rule reachable.reachable_init) (simp add: engine_init_def)

lemma reachable_after_add: "reachable_engine e \<Longrightarrow> reachable_engine (after_add cmd e)"
  by (auto simp: after_add_def split: sum.splits intro: reachable.reachable_step step_add)

lemma sample_reachable: "reachable_engine sample_engine"
  by (simp add: sample_engine_def reachable_after_add reachable_empty)

section \<open>Refinement and safety\<close>



text \<open>C9: The book of a symbol is never crossed or locked between commands: the best bid is below
  the best ask.\<close>

theorem book_never_crossed:
  assumes "reachable_engine e" "best_bid s e = Some b" "best_ask s e = Some a"
  shows "b < a"
proof -
  note wf = reachable_wf [OF assms(1)]
  from assms(2) obtain x where "x \<in> set (engine_queue e s Buy)" "b = ro_price_ticks (snd x)"
    unfolding best_bid_hd [OF wf] by (auto split: list.splits)
  moreover from assms(3) obtain y where "y \<in> set (engine_queue e s Sell)" "a = ro_price_ticks (snd y)"
    unfolding best_ask_hd [OF wf] by (auto split: list.splits)
  ultimately show ?thesis using queue_uncrossed [OF wf] by simp
qed

theorem book_never_crossed_witness:
  "best_bid ''X'' sample_engine = Some 99 \<and> best_ask ''X'' sample_engine = Some 101 \<and> (99::int) < 101"
proof -
  have "best_bid ''X'' sample_engine = Some 99" "best_ask ''X'' sample_engine = Some 101"
    by (simp_all add: sample_eval best_bid_def best_ask_def find_book_def)
  with book_never_crossed [OF sample_reachable this] show ?thesis by blast
qed

text \<open>The quotes are the best prices: \<open>best_bid\<close> is the highest price of a resting bid and
  \<open>best_ask\<close> the lowest of a resting ask, and they report nothing exactly when that side is empty.\<close>

theorem best_prices:
  assumes "reachable_engine e"
  shows "best_bid s e = (if engine_queue e s Buy = [] then None
      else Some (Max ((\<lambda>nd. ro_price_ticks (snd nd)) ` set (engine_queue e s Buy)))) \<and>
    best_ask s e = (if engine_queue e s Sell = [] then None
      else Some (Min ((\<lambda>nd. ro_price_ticks (snd nd)) ` set (engine_queue e s Sell))))"
proof -
  note wf = reachable_wf [OF assms]
  show ?thesis
    using queue_in_order [OF wf, of Buy s] queue_in_order [OF wf, of Sell s]
    unfolding best_bid_hd [OF wf] best_ask_hd [OF wf]
    by (cases "engine_queue e s Buy"; cases "engine_queue e s Sell")
      (auto simp: in_priority_order_def worse_def not_less intro!: Max_eqI [symmetric] Min_eqI [symmetric])
qed

theorem best_prices_witness:
  "best_bid ''X'' sample_engine = (if engine_queue sample_engine ''X'' Buy = [] then None
      else Some (Max ((\<lambda>nd. ro_price_ticks (snd nd)) ` set (engine_queue sample_engine ''X'' Buy)))) \<and>
   best_bid ''X'' sample_engine = Some 99"
  using best_prices [OF sample_reachable, of "''X''"]
  by (simp add: sample_eval best_bid_def find_book_def engine_queue_def side_queue_def)

section \<open>Trades\<close>



definition trade_terms :: "add_order \<Rightarrow> node list \<Rightarrow> trade \<Rightarrow> bool" where
  "trade_terms cmd q t \<longleftrightarrow>
     0 < tr_quantity t \<and> tr_quantity t \<le> ao_quantity cmd \<and> tr_symbol t = ao_symbol cmd \<and>
     (\<exists>nd \<in> set q. tr_price_ticks t = ro_price_ticks (snd nd) \<and>
        tr_passive_order_id t = ro_order_id (snd nd) \<and> tr_quantity t \<le> ro_remaining (snd nd)) \<and>
     (ao_time_in_force cmd = MARKET \<or>
        (if ao_side cmd = Buy then tr_price_ticks t \<le> ao_price_ticks cmd
         else ao_price_ticks cmd \<le> tr_price_ticks t))"

text \<open>C25: The terms of every trade: a positive quantity, at most the incoming order's and at most
  what the resting order had left, the same symbol, the price of an order that was resting on the
  opposite side, and for an order with a limit never a price worse than the limit.\<close>

theorem add_trade_terms:
  assumes "reachable_engine e"
  shows "\<exists>evs ts e'. engine_add cmd e = Inr ((evs, ts), e') \<and>
    (\<forall>t \<in> set ts. trade_terms cmd (engine_queue e (ao_symbol cmd) (opposite (ao_side cmd))) t)"
proof -
  let ?q = "engine_queue e (ao_symbol cmd) (opposite (ao_side cmd))"
  note wf = reachable_wf [OF assms]
  from engine_add_refines [OF wf, of cmd] obtain evs ts e' where
    add: "engine_add cmd e = Inr ((evs, ts), e')"
    and "spec_add cmd (engine_queue e, forget e) = ((evs, ts), (engine_queue e', forget e'))"
    by (auto simp: view_def)
  note ts = spec_add_trades [OF this(2)]
  have "trade_terms cmd ?q t" if "t \<in> set ts" for t
  proof -
    from that ts obtain ord k where t: "t = trade_of cmd ord k"
      and k: "(ord, k) \<in> set (fills (ao_quantity cmd) (eligible cmd ?q))" by (auto split: if_splits)
    from fills_in_queue [OF k] obtain n where n: "(n, ord) \<in> set (eligible cmd ?q)" by blast
    then have mem: "(n, ord) \<in> set ?q" using eligible_subset by blast
    have bounds: "0 < k" "k \<le> ro_remaining ord" "k \<le> ao_quantity cmd"
      using fills_bounds [OF _ k] eligible_subset queue_order_pos [OF wf] by blast+
    have "within_limit cmd (n, ord)" using eligible_within [OF n] by blast
    then have "ao_time_in_force cmd = MARKET \<or> (if ao_side cmd = Buy then
        ro_price_ticks ord \<le> ao_price_ticks cmd else ao_price_ticks cmd \<le> ro_price_ticks ord)"
      by (cases "ao_side cmd") (simp_all add: within_limit_test beyond_limit_def not_less)
    with bounds show ?thesis unfolding t trade_terms_def
      by (intro conjI bexI [OF _ mem]) (simp_all add: trade_of_def split: if_splits)
  qed
  with add show ?thesis by blast
qed

theorem add_trade_terms_witness:
  "\<exists>evs ts e'. engine_add (sample_order 5 ''D'' Buy 102 12) sample_engine = Inr ((evs, ts), e') \<and>
     length ts = 2 \<and> (\<forall>t \<in> set ts. tr_quantity t \<le> 12 \<and> tr_price_ticks t \<le> 102)"
proof -
  have "\<exists>evs ts e'. engine_add (sample_order 5 ''D'' Buy 102 12) sample_engine = Inr ((evs, ts), e') \<and>
      length ts = 2"
    by (simp add: sample_eval)
  with add_trade_terms [OF sample_reachable, of "sample_order 5 ''D'' Buy 102 12"] show ?thesis
    by (fastforce simp: sample_order_def trade_terms_def)
qed

text \<open>C11: Under every self-trade prevention mode other than \<open>None\<close>, no trade of an incoming order
  has the same participant on both sides.\<close>

theorem add_never_self_trades:
  assumes "reachable_engine e" "ao_stp cmd \<noteq> StpNone"
  shows "\<exists>evs ts e'. engine_add cmd e = Inr ((evs, ts), e') \<and>
    (\<forall>t \<in> set ts. tr_buyer_participant_id t \<noteq> tr_seller_participant_id t)"
proof -
  let ?q = "engine_queue e (ao_symbol cmd) (opposite (ao_side cmd))"
  from engine_add_refines [OF reachable_wf [OF assms(1)], of cmd] obtain evs ts e' where
    add: "engine_add cmd e = Inr ((evs, ts), e')"
    and "spec_add cmd (engine_queue e, forget e) = ((evs, ts), (engine_queue e', forget e'))"
    by (auto simp: view_def)
  note ts = spec_add_trades [OF this(2)]
  have "tr_buyer_participant_id t \<noteq> tr_seller_participant_id t" if "t \<in> set ts" for t
  proof -
    from that ts obtain ord k where t: "t = trade_of cmd ord k"
      and k: "(ord, k) \<in> set (fills (ao_quantity cmd) (eligible cmd ?q))" by (auto split: if_splits)
    from fills_in_queue [OF k] obtain n where "(n, ord) \<in> set (eligible cmd ?q)" by blast
    from eligible_within [OF this] assms(2) show ?thesis
      by (auto simp: t trade_of_def self_trade_def)
  qed
  with add show ?thesis by blast
qed

theorem add_never_self_trades_witness:
  "\<exists>evs ts e'. engine_add ((sample_order 5 ''A'' Buy 102 12)\<lparr>ao_stp := CancelPassive\<rparr>) sample_engine =
      Inr ((evs, ts), e') \<and> map tr_seller_participant_id ts = [''B''] \<and>
    (\<forall>t \<in> set ts. tr_buyer_participant_id t \<noteq> tr_seller_participant_id t)"
proof -
  let ?c = "(sample_order 5 ''A'' Buy 102 12)\<lparr>ao_stp := CancelPassive\<rparr>"
  have "\<exists>evs ts e'. engine_add ?c sample_engine = Inr ((evs, ts), e') \<and>
      map tr_seller_participant_id ts = [''B'']"
    by (simp add: sample_eval cancels_passive_def)
  with add_never_self_trades [OF sample_reachable, of ?c] show ?thesis by fastforce
qed

section \<open>Quantities\<close>





text \<open>A fill-or-kill order with self-trade prevention can be filled in part: the check counts
  the participant's own resting orders, which are then cancelled instead of traded. In the sample
  book such a buy of 12 trades 5 only, and no event says what became of the other 7.\<close>

theorem fok_with_stp_partial_fill:
  "\<exists>evs ts e'. engine_add ((sample_order 5 ''A'' Buy 102 12)\<lparr>ao_time_in_force := FOK, ao_stp := CancelPassive\<rparr>)
       sample_engine = Inr ((evs, ts), e') \<and>
     traded_qty ts = 5 \<and> accepted_qty evs = 12 \<and>
     map (\<lambda>ev. (ev_type ev, payload_int (ev_payload ev) ''order_id'')) (filter (\<lambda>ev. ev_type ev \<noteq> Executed) evs) =
       [(Accepted, Inr 5), (Cancelled, Inr 1)]"
  by (simp add: sample_eval cancels_passive_def qty_defs event_amount_def payload_int_def)

section \<open>What is left of the order\<close>

lemma add_remainder:
  assumes "wf_engine e" "ao_stp cmd = StpNone"
  shows "\<exists>evs ts e'. engine_add cmd e = Inr ((evs, ts), e') \<and>
    (let k = ao_quantity cmd - traded_qty ts
     in engine_queue e' (ao_symbol cmd) (ao_side cmd) =
       (if ao_time_in_force cmd = GTC \<and> 0 < k
        then enqueue (ao_side cmd) (ao_price_ticks cmd)
          (next_node e, resting_of cmd k (engine_sequence e' - 1))
          (engine_queue e (ao_symbol cmd) (ao_side cmd))
        else engine_queue e (ao_symbol cmd) (ao_side cmd)))"
proof -
  let ?s = "ao_symbol cmd" and ?sd = "ao_side cmd" and ?osd = "opposite (ao_side cmd)"
  from engine_add_refines [OF assms(1), of cmd] obtain evs ts e' where
    add: "engine_add cmd e = Inr ((evs, ts), e')"
    and spec: "spec_add cmd (engine_queue e, forget e) = ((evs, ts), (engine_queue e', forget e'))"
    by (auto simp: view_def)
  have sides: "?sd \<noteq> ?osd" by (cases ?sd) (simp_all add: opposite_def)
  show ?thesis
  proof (cases "unfillable cmd (engine_queue e ?s ?osd)")
    case True
    then have "ao_time_in_force cmd = FOK" by (simp add: unfillable_def)
    with spec_add_unfillable(2) [OF True spec] add show ?thesis by simp
  next
    case False
    obtain q r where mq: "match_queue cmd (engine_queue e ?s ?osd) (accept_run cmd (forget e)) = (q, r)"
      by fastforce
    have rem: "run_remaining r = ao_quantity cmd - traded_qty (run_trades r)"
      and node: "next_node (run_engine r) = next_node e"
      using match_queue_remaining [OF assms(2), of "engine_queue e ?s ?osd" "accept_run cmd (forget e)"]
        match_queue_frame(2) [of cmd "engine_queue e ?s ?osd" "accept_run cmd (forget e)"] mq by simp_all
    show ?thesis
    proof (cases "0 < run_remaining r \<and> ao_time_in_force cmd = GTC")
      case True
      with spec_add_fillable(1) [OF False spec mq] rem node add sides show ?thesis
        by (auto simp: spec_rest_def set_queue_apply Let_def)
    next
      case no: False
      with spec_add_fillable(2) [OF False spec mq no] rem add sides show ?thesis
        by (auto simp: set_queue_apply Let_def)
    qed
  qed
qed



section \<open>Events and symbols\<close>

lemma spec_cancel_numbered:
  assumes "spec_inv (Q, e)" "spec_cancel cmd (Q, e) = (evs, (Q', e'))"
  shows "numbered (engine_sequence e) evs (engine_sequence e')"
proof (cases "index e (co_order_id cmd)")
  case None
  with assms(2) show ?thesis
    using numbered_snoc [of "engine_sequence e" "[]" "engine_sequence e"]
    by (auto simp: spec_cancel_def spec_unknown_def event_def Let_def)
next
  case (Some loc)
  with spec_order_found [OF assms(1) Some] assms(2) show ?thesis
    using numbered_snoc [of "engine_sequence e" "[]" "engine_sequence e"]
    by (auto simp: spec_cancel_def spec_remove_def event_def Let_def)
qed

text \<open>C24: The event stream has no gaps and no repeats: the events of every command are numbered with
  the integers that follow the engine's sequence number, in order, and the engine's number
  afterwards is the last of them.\<close>

theorem events_numbered:
  assumes "reachable_engine e"
  shows "(\<exists>evs ts e'. engine_add a e = Inr ((evs, ts), e') \<and>
      numbered (engine_sequence e) evs (engine_sequence e')) \<and>
    (\<exists>evs e'. engine_cancel c e = Inr (evs, e') \<and>
      numbered (engine_sequence e) evs (engine_sequence e')) \<and>
    (\<exists>evs ts e'. engine_replace r e = Inr ((evs, ts), e') \<and>
      numbered (engine_sequence e) evs (engine_sequence e'))"
proof -
  note wf = reachable_wf [OF assms]
  have add: "\<exists>evs ts e'. engine_add a e = Inr ((evs, ts), e') \<and> wf_engine e' \<and>
      numbered (engine_sequence e) evs (engine_sequence e')" if "wf_engine e" for a e
    using engine_add_refines [OF that, of a] spec_add_numbered [of a "engine_queue e" "forget e"]
    by (force simp: view_def)
  have cancel: "\<exists>evs e'. engine_cancel c e = Inr (evs, e') \<and> wf_engine e' \<and>
      numbered (engine_sequence e) evs (engine_sequence e')" for c
    using engine_cancel_refines [OF wf, of c] spec_cancel_numbered [OF wf_engine_view [OF wf], of c]
    by (force simp: view_def)
  have "\<exists>evs ts e'. engine_replace r e = Inr ((evs, ts), e') \<and>
      numbered (engine_sequence e) evs (engine_sequence e')"
  proof (cases "index e (rp_order_id r)")
    case None
    then show ?thesis using numbered_snoc [of "engine_sequence e" "[]" "engine_sequence e"]
      by (simp add: engine_replace_def event_def Let_def)
  next
    case (Some loc)
    from deref_refines [OF wf Some] obtain ord where "deref e loc = Inr ord" by blast
    moreover from cancel obtain evs e1 where
      "engine_cancel \<lparr>co_symbol = rp_symbol r, co_order_id = rp_order_id r\<rparr> e = Inr (evs, e1)"
      and wf1: "wf_engine e1" and "numbered (engine_sequence e) evs (engine_sequence e1)" by blast
    moreover from add [OF wf1, of "replacement r (loc_side loc) ord"] obtain evs' ts e2 where
      "engine_add (replacement r (loc_side loc) ord) e1 = Inr ((evs', ts), e2)"
      and "numbered (engine_sequence e1) evs' (engine_sequence e2)" by blast
    ultimately show ?thesis using Some numbered_append
      by (fastforce simp: engine_replace_def replacement_def)
  qed
  with add [OF wf, of a] cancel [of c] show ?thesis by blast
qed

theorem events_numbered_witness:
  "\<exists>evs ts e'. engine_add (sample_order 5 ''D'' Buy 102 20) sample_engine = Inr ((evs, ts), e') \<and>
     engine_sequence sample_engine = 8 \<and> numbered 8 evs (engine_sequence e') \<and> length evs = 4"
proof -
  let ?c = "sample_order 5 ''D'' Buy 102 20"
  have "\<exists>evs ts e'. engine_add ?c sample_engine = Inr ((evs, ts), e') \<and> length evs = 4"
    "engine_sequence sample_engine = 8"
    by (simp_all add: sample_eval)
  with events_numbered [OF sample_reachable, of ?c] show ?thesis by fastforce
qed

text \<open>Symbols are isolated: an \<open>add\<close> changes the book of its own symbol only, and every event and
  trade it produces carries that symbol.\<close>

theorem add_isolated_by_symbol:
  assumes "reachable_engine e"
  shows "\<exists>evs ts e'. engine_add cmd e = Inr ((evs, ts), e') \<and>
    (\<forall>t. t = ao_symbol cmd \<or> engine_queue e' t = engine_queue e t) \<and>
    (\<forall>ev \<in> set evs. ev_symbol ev = ao_symbol cmd) \<and> (\<forall>t \<in> set ts. tr_symbol t = ao_symbol cmd)"
proof -
  let ?s = "ao_symbol cmd" and ?q = "engine_queue e (ao_symbol cmd) (opposite (ao_side cmd))"
  from engine_add_refines [OF reachable_wf [OF assms], of cmd] obtain evs ts e' where
    add: "engine_add cmd e = Inr ((evs, ts), e')"
    and spec: "spec_add cmd (engine_queue e, forget e) = ((evs, ts), (engine_queue e', forget e'))"
    by (auto simp: view_def)
  obtain q r where mq: "match_queue cmd ?q (accept_run cmd (forget e)) = (q, r)" by fastforce
  have "\<forall>ev \<in> set (run_events (snd (match_queue cmd q r))). ev_symbol ev = ?s"
    if "\<forall>ev \<in> set (run_events r). ev_symbol ev = ?s" for q r
    using that by (induction cmd q r rule: match_queue.induct)
      (simp_all add: stp_skip_def stp_stop_def fill_run_def cancel_passive_event_def
        cancel_aggressor_event_def executed_event_def Let_def)
  from this [of "accept_run cmd (forget e)" ?q] mq
  have evs: "\<forall>ev \<in> set (run_events r). ev_symbol ev = ?s" by (simp add: accept_run_def)
  have ts: "\<forall>t \<in> set ts. tr_symbol t = ?s" unfolding spec_add_trades [OF spec] by (auto simp: trade_of_def)
  show ?thesis
  proof (cases "unfillable cmd ?q")
    case True
    from spec_add_unfillable [OF True spec] add ts show ?thesis by simp
  next
    case False
    show ?thesis using spec_add_fillable [OF False spec mq] add ts evs
      by (cases "0 < run_remaining r \<and> ao_time_in_force cmd = GTC")
        (auto simp: rested_run_def dropped_run_def spec_rest_def set_queue_def Let_def split: if_splits)
  qed
qed

theorem add_isolated_by_symbol_witness:
  "\<exists>evs ts e'. engine_add ((sample_order 5 ''D'' Buy 102 20)\<lparr>ao_symbol := ''Y''\<rparr>) sample_engine =
     Inr ((evs, ts), e') \<and> engine_queue e' ''X'' = engine_queue sample_engine ''X'' \<and> ts = []"
proof -
  let ?c = "(sample_order 5 ''D'' Buy 102 20)\<lparr>ao_symbol := ''Y''\<rparr>"
  have "\<exists>evs ts e'. engine_add ?c sample_engine = Inr ((evs, ts), e') \<and> ts = []" "ao_symbol ?c \<noteq> ''X''"
    by (simp_all add: sample_eval)
  moreover from add_isolated_by_symbol [OF sample_reachable, of ?c] obtain evs ts e' where
    "engine_add ?c sample_engine = Inr ((evs, ts), e')"
    "''X'' = ao_symbol ?c \<or> engine_queue e' ''X'' = engine_queue sample_engine ''X''" by blast
  ultimately show ?thesis by auto
qed

section \<open>Cancelling and replacing\<close>

text \<open>C21: \<open>cancel\<close>. For an id the index knows, exactly the one order the index leads to leaves its
  queue, the id leaves the index, and the one event reports the quantity that was left; everything
  else stays. For an unknown id the only effect is a rejection \<open>UNKNOWN_ORDER\<close>. In both cases the
  event carries the symbol of the command, whatever the symbol of the order.\<close>

theorem cancel_removes_one_order:
  assumes "reachable_engine e"
  shows "\<exists>ev e'. engine_cancel cmd e = Inr ([ev], e') \<and> ev_symbol ev = co_symbol cmd \<and>
    (case index e (co_order_id cmd) of
       None \<Rightarrow> ev_type ev = Rejected \<and> engine_queue e' = engine_queue e \<and> index e' = index e \<and>
         payload_str (ev_payload ev) ''reason'' = Inr ''UNKNOWN_ORDER''
     | Some loc \<Rightarrow> \<exists>ord. (loc_iter loc, ord) \<in> set (engine_queue e (loc_symbol loc) (loc_side loc)) \<and>
         ro_order_id ord = co_order_id cmd \<and> ev_type ev = Cancelled \<and>
         payload_int (ev_payload ev) ''remaining'' = Inr (ro_remaining ord) \<and>
         engine_queue e' = set_queue (loc_symbol loc) (loc_side loc)
           (filter (\<lambda>nd. fst nd \<noteq> loc_iter loc) (engine_queue e (loc_symbol loc) (loc_side loc)))
           (engine_queue e) \<and>
         index e' = (index e)(co_order_id cmd := None))"
proof -
  note wf = reachable_wf [OF assms]
  from engine_cancel_refines [OF wf, of cmd] obtain evs e' where
    run: "engine_cancel cmd e = Inr (evs, e')"
    and spec: "spec_cancel cmd (engine_queue e, forget e) = (evs, (engine_queue e', forget e'))"
    by (auto simp: view_def)
  show ?thesis
  proof (cases "index e (co_order_id cmd)")
    case None
    with run spec show ?thesis
      by (auto simp: spec_cancel_def spec_unknown_def event_def payload_str_def Let_def dest!: forget_eqD)
  next
    case (Some loc)
    from spec_order_found [OF wf_engine_view [OF wf], of "co_order_id cmd" loc] Some obtain ord where
      ord: "spec_order loc (engine_queue e, forget e) = Some ord" "ro_order_id ord = co_order_id cmd"
        "(loc_iter loc, ord) \<in> set (engine_queue e (loc_symbol loc) (loc_side loc))" by auto
    with Some run spec ord show ?thesis
      by (auto simp: spec_cancel_def spec_remove_def event_def payload_int_def Let_def dest!: forget_eqD)
  qed
qed

theorem cancel_removes_one_order_witness:
  "\<exists>ev e'. engine_cancel \<lparr>co_symbol = ''X'', co_order_id = 2\<rparr> sample_engine = Inr ([ev], e') \<and>
     ev_symbol ev = ''X'' \<and> index sample_engine 2 \<noteq> None \<and> ev_type ev = Cancelled"
  using cancel_removes_one_order [OF sample_reachable, of "\<lparr>co_symbol = ''X'', co_order_id = 2\<rparr>"]
  by (auto simp: sample_eval)



section \<open>Order ids\<close>

text \<open>C23: As long as an id is not reused while an order with it rests, every resting order can be
  cancelled by its id: the cancel succeeds, reports the order's remaining quantity and takes exactly
  that order out of its queue.\<close>

theorem resting_order_cancellable:
  assumes "reachable engine_init fresh_step e" "(n, ord) \<in> set (engine_queue e s sd)"
  shows "\<exists>ev e'. engine_cancel \<lparr>co_symbol = s, co_order_id = ro_order_id ord\<rparr> e = Inr ([ev], e') \<and>
    ev_type ev = Cancelled \<and> payload_int (ev_payload ev) ''remaining'' = Inr (ro_remaining ord) \<and>
    engine_queue e' = set_queue s sd (filter (\<lambda>nd. fst nd \<noteq> n) (engine_queue e s sd)) (engine_queue e)"
proof -
  let ?c = "\<lparr>co_symbol = s, co_order_id = ro_order_id ord\<rparr>"
  let ?loc = "\<lparr>loc_symbol = s, loc_side = sd, loc_price = ro_price_ticks ord, loc_iter = n\<rparr>"
  have "ids_inv e" by (rule ids.reachable_inv [OF assms(1)])
  then have wf: "wf_engine e" and ic: "index_complete (engine_queue e, forget e)"
    by (simp_all add: ids_inv_def view_def)
  have ix: "index e (ro_order_id ord) = Some ?loc"
    using index_completeD [OF ic assms(2)] by simp
  have "distinct (map fst (engine_queue e s sd))"
    using wf_engine_view [OF wf] nodes_okD(1) by (auto simp: spec_inv_def)
  then have "spec_order ?loc (engine_queue e, forget e) = Some ord"
    using assms(2) by (simp add: spec_order_def)
  with engine_cancel_refines [OF wf, of ?c] ix show ?thesis
    by (auto simp: view_def spec_cancel_def spec_remove_def event_def payload_int_def Let_def)
qed

theorem resting_order_cancellable_witness:
  "\<exists>ev e'. engine_cancel \<lparr>co_symbol = ''X'', co_order_id = 1\<rparr>
       (after_add (sample_order 1 ''A'' Sell 101 10) empty_engine) = Inr ([ev], e') \<and>
     payload_int (ev_payload ev) ''remaining'' = Inr 10 \<and> engine_queue e' ''X'' Sell = []"
proof -
  let ?c = "sample_order 1 ''A'' Sell 101 10" and ?e = "after_add (sample_order 1 ''A'' Sell 101 10) empty_engine"
  have "\<exists>out. engine_add ?c empty_engine = Inr (out, ?e)" by (simp add: sample_eval)
  moreover have "fresh (engine_queue empty_engine) (ao_order_id ?c)"
    by (simp add: fresh_def engine_queue_def)
  ultimately have "reachable engine_init fresh_step ?e"
    by (meson reachable.intros engine_init_def fresh_step.fresh_add)
  moreover have q: "engine_queue ?e ''X'' Sell = [(0, resting_of ?c 10 1)]"
    by (simp add: sample_eval engine_queue_def side_queue_def resting_of_def)
  ultimately show ?thesis
    using resting_order_cancellable [of ?e 0 "resting_of ?c 10 1" "''X''" Sell]
    by (force simp: resting_of_def sample_order_def set_queue_apply)
qed

text \<open>The engine does not check ids: adding two orders with the same id succeeds, one \<open>cancel\<close>
  removes the second, and the first then rests in the book with no way to cancel or replace it, for
  its id is unknown.\<close>

theorem duplicate_id_orphans_order:
  "\<exists>e e'. reachable_engine e \<and> reachable_engine e' \<and>
     (\<exists>evs. engine_cancel \<lparr>co_symbol = ''X'', co_order_id = 1\<rparr> e = Inr (evs, e') \<and> map ev_type evs = [Cancelled]) \<and>
     map (\<lambda>nd. (ro_order_id (snd nd), ro_remaining (snd nd))) (engine_queue e' ''X'' Sell) = [(1, 10)] \<and>
     (\<exists>evs e''. engine_cancel \<lparr>co_symbol = ''X'', co_order_id = 1\<rparr> e' = Inr (evs, e'') \<and> map ev_type evs = [Rejected])"
proof -
  let ?e = "after_add (sample_order 1 ''B'' Sell 102 5) (after_add (sample_order 1 ''A'' Sell 101 10) empty_engine)"
  let ?c = "\<lparr>co_symbol = ''X'', co_order_id = 1\<rparr>"
  have reach: "reachable_engine ?e" by (simp add: reachable_after_add reachable_empty)
  have run: "\<exists>evs e'. engine_cancel ?c ?e = Inr (evs, e') \<and> map ev_type evs = [Cancelled] \<and>
      map (\<lambda>nd. (ro_order_id (snd nd), ro_remaining (snd nd))) (engine_queue e' ''X'' Sell) = [(1, 10)] \<and>
      index e' 1 = None"
    by (simp add: sample_eval engine_cancel_def deref_def remove_resting_def erase_node_def
        engine_queue_def side_queue_def)
  then obtain evs e' where e': "engine_cancel ?c ?e = Inr (evs, e')" "map ev_type evs = [Cancelled]"
    "map (\<lambda>nd. (ro_order_id (snd nd), ro_remaining (snd nd))) (engine_queue e' ''X'' Sell) = [(1, 10)]"
    "index e' 1 = None" by (elim exE conjE) (rule that)
  have "reachable_engine e'" using reach e'(1) by (blast intro: reachable.reachable_step step_cancel)
  moreover have "\<exists>evs e''. engine_cancel ?c e' = Inr (evs, e'') \<and> map ev_type evs = [Rejected]"
    using e'(4) by (simp add: engine_cancel_def event_def Let_def)
  moreover have "\<exists>evs. engine_cancel ?c ?e = Inr (evs, e') \<and> map ev_type evs = [Cancelled]"
    using e'(1,2) by (intro exI conjI)
  ultimately show ?thesis using reach e'(3) by (intro exI [of _ ?e] exI [of _ e'] conjI)
qed

section \<open>Available volume\<close>

text \<open>\<open>available_volume\<close>, the basis of the fill-or-kill check, is the total remaining quantity of
  exactly those resting orders of the side whose price is at the limit or better.\<close>

theorem available_volume_total:
  assumes "reachable_engine e" "books e s = Some b"
  shows "available_volume b sd limit =
    queue_volume (filter (\<lambda>nd. if sd = Sell then ro_price_ticks (snd nd) \<le> limit
      else limit \<le> ro_price_ticks (snd nd)) (engine_queue e s sd))"
proof -
  let ?P = "\<lambda>nd. \<not> worse sd limit (ro_price_ticks (snd nd))"
  note wf = reachable_wf [OF assms(1)]
  from wf assms(2) have "wf_side s sd (book_side sd b)"
    by (simp add: wf_engine_def books_ok_def wf_book_sides)
  from available_volume_queue [OF this] have vol:
    "available_volume b sd limit = queue_volume (takeWhile ?P (engine_queue e s sd))"
    using assms(2) by (simp add: engine_queue_def)
  have tw: "takeWhile ?P q = filter ?P q" if "in_priority_order sd q" for q
    using that by (induction q)
      (auto simp: in_priority_order_def worse_def not_less split: if_splits intro!: filter_False [symmetric])
  have "?P = (\<lambda>nd. if sd = Sell then ro_price_ticks (snd nd) \<le> limit else limit \<le> ro_price_ticks (snd nd))"
    by (auto simp: worse_def fun_eq_iff)
  then show ?thesis unfolding vol tw [OF queue_in_order [OF wf]] by (rule arg_cong)
qed

theorem available_volume_total_witness:
  "\<exists>b. books sample_engine ''X'' = Some b \<and> available_volume b Sell 101 = 15 \<and>
     available_volume b Sell 101 =
       queue_volume (filter (\<lambda>nd. ro_price_ticks (snd nd) \<le> 101) (engine_queue sample_engine ''X'' Sell))"
proof -
  have "\<exists>b. books sample_engine ''X'' = Some b \<and> available_volume b Sell 101 = 15"
    by (simp add: sample_eval)
  then obtain b where "books sample_engine ''X'' = Some b" "available_volume b Sell 101 = 15" by blast
  with available_volume_total [OF sample_reachable this(1), of Sell 101] show ?thesis by simp
qed

end
