(* ===== verification/Pre_Trade_Risk.thy ===== *)
theory Pre_Trade_Risk
  imports Order_Types
begin

text \<open>
  The pre-trade checks of \<open>include/risk.hpp\<close>. \<open>price_ticks * quantity\<close> is a \<open>long long\<close> product,
  so it overflows when it leaves the signed 64-bit range, which is undefined in C++; the model makes
  this the error \<open>SignedOverflow\<close>. Limits whose largest order still fits (\<open>safe_limits\<close>, and the
  default limits are safe) never get there.
\<close>

record risk_limits =
  max_order_quantity :: int
  min_price_ticks :: int
  max_price_ticks :: int
  max_notional_ticks :: int

definition default_limits :: risk_limits where
  "default_limits =
     \<lparr>max_order_quantity = 1000000, min_price_ticks = 1, max_price_ticks = 10000000000,
      max_notional_ticks = 10000000000000\<rparr>"

definition mult_ll :: "int \<Rightarrow> int \<Rightarrow> int result" where
  "mult_ll a b = (if fits_ll (a * b) then Inr (a * b) else Inl SignedOverflow)"

definition check_add :: "risk_limits \<Rightarrow> add_order \<Rightarrow> string option result" where
  "check_add limits cmd =
     (if ao_quantity cmd \<le> 0 then Inr (Some ''RISK_QTY_NON_POSITIVE'')
      else if ao_quantity cmd > max_order_quantity limits then Inr (Some ''RISK_QTY_TOO_LARGE'')
      else if ao_time_in_force cmd \<noteq> MARKET then
        (if ao_price_ticks cmd < min_price_ticks limits \<or> ao_price_ticks cmd > max_price_ticks limits
         then Inr (Some ''RISK_PRICE_OUT_OF_RANGE'')
         else rbind (mult_ll (ao_price_ticks cmd) (ao_quantity cmd)) (\<lambda>notional.
           if notional > max_notional_ticks limits then Inr (Some ''RISK_NOTIONAL_EXCEEDED'')
           else Inr None))
      else Inr None)"

section \<open>Properties\<close>

definition safe_limits :: "risk_limits \<Rightarrow> bool" where
  "safe_limits l \<longleftrightarrow>
     (max_price_ticks l \<ge> 0 \<longrightarrow> max_price_ticks l * max_order_quantity l \<le> ll_max) \<and>
     (min_price_ticks l \<le> 0 \<longrightarrow> ll_min \<le> min_price_ticks l * max_order_quantity l)"

lemma default_limits_safe: "safe_limits default_limits"
  by (simp add: safe_limits_def default_limits_def ll_max_def)

text \<open>The product of an admitted price and quantity lies between the products at the corners.\<close>

lemma notional_fits:
  assumes safe: "safe_limits l" and q: "0 < q" "q \<le> max_order_quantity l"
    and p: "min_price_ticks l \<le> p" "p \<le> max_price_ticks l"
  shows "fits_ll (p * q)"
proof -
  have "p * q \<le> ll_max"
  proof (cases "0 \<le> p")
    case True
    then have "p * q \<le> max_price_ticks l * max_order_quantity l" using p q by (intro mult_mono) auto
    with safe True p show ?thesis by (auto simp: safe_limits_def)
  next
    case False
    then have "p * q \<le> 0" using q by (simp add: mult_nonpos_nonneg)
    then show ?thesis by (simp add: ll_max_def)
  qed
  moreover have "ll_min \<le> p * q"
  proof (cases "p \<le> 0")
    case True
    have "- p * q \<le> - min_price_ticks l * max_order_quantity l"
      using True p q by (intro mult_mono) auto
    with safe True p show ?thesis by (auto simp: safe_limits_def)
  next
    case False
    then have "0 \<le> p * q" using q by simp
    then show ?thesis by (simp add: ll_min_def)
  qed
  ultimately show ?thesis by (simp add: fits_ll_def)
qed

text \<open>C31: The risk gate. Under limits whose extreme orders fit in 64 bits the check always returns
  (the notional product never overflows), and it lets an order pass exactly when the quantity is
  positive and within its limit and, unless it is a market order, the price is within the band and
  the notional within its limit.\<close>

theorem risk_gate_exact:
  assumes "safe_limits l"
  shows "\<exists>r. check_add l cmd = Inr r \<and>
    (r = None \<longleftrightarrow> 0 < ao_quantity cmd \<and> ao_quantity cmd \<le> max_order_quantity l \<and>
       (ao_time_in_force cmd = MARKET \<or>
        min_price_ticks l \<le> ao_price_ticks cmd \<and> ao_price_ticks cmd \<le> max_price_ticks l \<and>
        ao_price_ticks cmd * ao_quantity cmd \<le> max_notional_ticks l))"
  using notional_fits [OF assms, of "ao_quantity cmd" "ao_price_ticks cmd"]
  by (auto simp: check_add_def mult_ll_def)

theorem risk_gate_exact_witness:
  "\<exists>r. check_add default_limits \<lparr>ao_symbol = ''X'', ao_order_id = 1, ao_participant_id = ''A'',
       ao_side = Buy, ao_price_ticks = 10000000000, ao_quantity = 1000000, ao_time_in_force = GTC,
       ao_stp = StpNone\<rparr> = Inr r \<and> r \<noteq> None"
  using risk_gate_exact [OF default_limits_safe, of "\<lparr>ao_symbol = ''X'', ao_order_id = 1,
    ao_participant_id = ''A'', ao_side = Buy, ao_price_ticks = 10000000000, ao_quantity = 1000000,
    ao_time_in_force = GTC, ao_stp = StpNone\<rparr>"]
  by (auto simp: default_limits_def)

text \<open>Without such a bound the check itself is undefined behaviour: limits a caller may pass
  admit an order whose notional overflows a \<open>long long\<close>.\<close>

theorem risk_gate_overflow:
  "\<exists>l cmd. fits_ll (max_order_quantity l) \<and> fits_ll (max_price_ticks l) \<and> fits_ll (ao_price_ticks cmd) \<and>
     fits_ll (ao_quantity cmd) \<and> check_add l cmd = Inl SignedOverflow"
proof -
  let ?l = "\<lparr>max_order_quantity = 10000000000, min_price_ticks = 1, max_price_ticks = 10000000000,
    max_notional_ticks = 1000\<rparr>"
  let ?c = "\<lparr>ao_symbol = ''X'', ao_order_id = 1, ao_participant_id = ''A'', ao_side = Buy,
    ao_price_ticks = 10000000000, ao_quantity = 10000000000, ao_time_in_force = GTC, ao_stp = StpNone\<rparr>"
  have "check_add ?l ?c = Inl SignedOverflow"
    by (simp add: check_add_def mult_ll_def fits_ll_iff)
  then show ?thesis by (intro exI [of _ ?l] exI [of _ ?c]) (simp add: fits_ll_iff)
qed

end
