(* ===== verification/Symbol_Table.thy ===== *)
theory Symbol_Table
  imports ME_Prelude
begin

text \<open>
  The interning table of \<open>include/symbol_table.hpp\<close>: symbol strings become dense 32-bit ids. The id
  is \<open>static_cast<std::uint32_t>(names_.size())\<close>, which wraps after \<open>2 ^ 32\<close> symbols; the laws below
  hold as long as the table has room, and the last lemma shows what the wrap would do.
\<close>

record symbol_table =
  ids :: "string \<rightharpoonup> 32 word"
  names :: "string list"

definition empty_table :: symbol_table where
  "empty_table = \<lparr>ids = (\<lambda>_. None), names = []\<rparr>"

definition intern :: "string \<Rightarrow> symbol_table \<Rightarrow> 32 word \<times> symbol_table" where
  "intern s t =
     (case ids t s of
        Some i \<Rightarrow> (i, t)
      | None \<Rightarrow>
          (let i = word_of_nat (length (names t))
           in (i, t\<lparr>names := names t @ [s], ids := (ids t)(s \<mapsto> i)\<rparr>)))"

definition lookup :: "string \<Rightarrow> symbol_table \<Rightarrow> 32 word option" where
  "lookup s t = ids t s"

definition name_of :: "32 word \<Rightarrow> symbol_table \<Rightarrow> string result" where
  "name_of i t =
     (if unat i < length (names t) then Inr (names t ! unat i)
      else Inl (OutOfRange ''vector::_M_range_check''))"

definition table_size :: "symbol_table \<Rightarrow> nat" where
  "table_size t = length (names t)"

section \<open>Invariant\<close>

definition table_ok :: "symbol_table \<Rightarrow> bool" where
  "table_ok t \<longleftrightarrow>
     distinct (names t) \<and> length (names t) \<le> 2 ^ 32 \<and>
     (\<forall>s i. ids t s = Some i \<longleftrightarrow> unat i < length (names t) \<and> names t ! unat i = s)"

lemma empty_table_ok: "table_ok empty_table"
  by (simp add: table_ok_def empty_table_def)

lemma table_ok_None: "table_ok t \<Longrightarrow> ids t s = None \<longleftrightarrow> s \<notin> set (names t)"
proof -
  assume ok: "table_ok t"
  have "s \<in> set (names t) \<longleftrightarrow> (\<exists>i :: 32 word. unat i < length (names t) \<and> names t ! unat i = s)"
  proof
    assume "s \<in> set (names t)"
    then obtain k where k: "k < length (names t)" "names t ! k = s" by (auto simp: in_set_conv_nth)
    with ok have "unat (word_of_nat k :: 32 word) = k"
      by (simp add: table_ok_def unat_of_nat take_bit_nat_eq_self)
    with k show "\<exists>i :: 32 word. unat i < length (names t) \<and> names t ! unat i = s"
      by (intro exI [of _ "word_of_nat k"]) simp
  qed auto
  with ok show ?thesis by (metis not_None_eq table_ok_def)
qed

lemma intern_ok:
  assumes ok: "table_ok t" and room: "length (names t) < 2 ^ 32"
  shows "table_ok (snd (intern s t))"
proof (cases "ids t s")
  case (Some i)
  with ok show ?thesis by (simp add: intern_def)
next
  case None
  let ?n = "length (names t)" and ?i = "word_of_nat (length (names t)) :: 32 word"
  have n: "unat ?i = ?n" using room by (simp add: unat_of_nat take_bit_nat_eq_self)
  have fresh: "s \<notin> set (names t)" using None table_ok_None [OF ok] by simp
  have "((ids t)(s \<mapsto> ?i)) u = Some j \<longleftrightarrow> unat j < Suc ?n \<and> (names t @ [s]) ! unat j = u" for u j
  proof (cases "unat j < ?n")
    case True
    with fresh have "names t ! unat j \<noteq> s" using nth_mem by metis
    with True ok n show ?thesis by (auto simp: table_ok_def nth_append)
  next
    case False
    have "u = s \<longleftrightarrow> ((ids t)(s \<mapsto> ?i)) u = Some j" if "unat j = ?n"
    proof -
      from that n have "j = ?i" by (metis unat_eq_nat_uint word_unat_eq_iff)
      moreover have "ids t u \<noteq> Some j" using ok False by (auto simp: table_ok_def)
      ultimately show ?thesis by auto
    qed
    with False ok n show ?thesis by (auto simp: table_ok_def nth_append)
  qed
  with None ok fresh room show ?thesis by (simp add: intern_def Let_def table_ok_def)
qed

text \<open>C32: Interning. In a well-formed table with room, \<open>intern\<close> gives an id that \<open>lookup\<close> and \<open>name\<close>
  translate back and forth, interning again gives the same id and changes nothing, ids already given
  out keep their meaning, distinct symbols keep distinct ids, and the table stays well formed.\<close>

theorem intern_round_trip:
  assumes "table_ok t" "length (names t) < 2 ^ 32"
  shows "case intern s t of (i, t') \<Rightarrow>
    table_ok t' \<and> lookup s t' = Some i \<and> name_of i t' = Inr s \<and> intern s t' = (i, t') \<and>
    (\<forall>u. u = s \<or> lookup u t' = lookup u t) \<and> (\<forall>u. u = s \<or> lookup u t' \<noteq> Some i)"
proof -
  obtain i t' where it: "intern s t = (i, t')" by (cases "intern s t")
  have ok': "table_ok t'" using intern_ok [OF assms, of s] it by simp
  have look: "ids t' s = Some i" "\<And>u. u \<noteq> s \<Longrightarrow> ids t' u = ids t u"
    using it by (auto simp: intern_def Let_def split: option.splits)
  moreover have "name_of i t' = Inr s" using ok' look(1) by (simp add: table_ok_def name_of_def)
  moreover have "u = s" if "ids t' u = Some i" for u using ok' look(1) that by (simp add: table_ok_def)
  moreover have "intern s t' = (i, t')" using look(1) by (simp add: intern_def)
  ultimately show ?thesis using ok' unfolding it prod.case lookup_def by blast
qed

theorem intern_round_trip_witness:
  "case intern ''AAPL'' empty_table of (i, t') \<Rightarrow> lookup ''AAPL'' t' = Some i \<and> i = 0 \<and> name_of i t' = Inr ''AAPL''"
  using intern_round_trip [OF empty_table_ok, of "''AAPL''"]
  by (simp add: empty_table_def intern_def Let_def)

end
