(* ===== verification/Spsc_Queue.thy ===== *)
theory Spsc_Queue
  imports ME_Prelude
begin

unbundle bit_operations_syntax

text \<open>
  The single-producer single-consumer ring of \<open>include/spsc_queue.hpp\<close>. Counters are 64-bit words
  that only ever grow and wrap; the slot of a counter is its low bits. \<open>slots_[i]\<close> outside the
  vector is undefined in C++ and is the error \<open>BadAccess\<close> here.

  \<open>push\<close> and \<open>pop\<close> as whole operations satisfy the contract \<open>bounded_fifo\<close> (interpretation \<open>ring\<close>).
  The theory \<open>Spsc_Concurrent\<close> takes them apart into the single memory accesses of the two threads.
\<close>

section \<open>The program\<close>

partial_function (option) round_up_from :: "64 word \<Rightarrow> 64 word \<Rightarrow> 64 word option" where
  "round_up_from p v = (if p < v then round_up_from (push_bit 1 p) v else Some p)"

definition round_up_pow2 :: "64 word \<Rightarrow> 64 word option" where
  "round_up_pow2 v = round_up_from 1 v"

record 'a spsc =
  spsc_capacity :: "64 word"
  spsc_mask :: "64 word"
  slots :: "'a list"
  head :: "64 word"
  tail :: "64 word"

text \<open>The constructor; \<open>None\<close> when \<open>round_up_pow2\<close> does not return. \<open>dflt\<close> is the value-initialised
  element.\<close>

definition new_spsc :: "'a \<Rightarrow> 64 word \<Rightarrow> 'a spsc option" where
  "new_spsc dflt capacity =
     (case round_up_pow2 capacity of
        None \<Rightarrow> None
      | Some c \<Rightarrow> Some \<lparr>spsc_capacity = c, spsc_mask = c - 1, slots = replicate (unat c) dflt,
          head = 0, tail = 0\<rparr>)"

definition slot_of :: "'a spsc \<Rightarrow> 64 word \<Rightarrow> nat" where
  "slot_of q w = unat (w AND spsc_mask q)"

definition spsc_push :: "'a \<Rightarrow> 'a spsc \<Rightarrow> (bool \<times> 'a spsc) result" where
  "spsc_push value q =
     (let h = head q; nxt = h + 1
      in if nxt - tail q > spsc_capacity q then Inr (False, q)
         else if slot_of q h < length (slots q)
           then Inr (True, q\<lparr>slots := (slots q)[slot_of q h := value], head := nxt\<rparr>)
         else Inl BadAccess)"

definition spsc_pop :: "'a spsc \<Rightarrow> ('a option \<times> 'a spsc) result" where
  "spsc_pop q =
     (let t = tail q
      in if t = head q then Inr (None, q)
         else if slot_of q t < length (slots q)
           then Inr (Some (slots q ! slot_of q t), q\<lparr>tail := t + 1\<rparr>)
         else Inl BadAccess)"

definition spsc_empty :: "'a spsc \<Rightarrow> bool" where
  "spsc_empty q \<longleftrightarrow> head q = tail q"

section \<open>Rounding the capacity\<close>

lemma round_up_from_result:
  assumes "round_up_from p v = Some y"
  shows "\<exists>j. y = push_bit j p \<and> v \<le> y"
proof (rule round_up_from.raw_induct [OF _ assms, where P = "\<lambda>p v y. \<exists>j. y = push_bit j p \<and> v \<le> y"])
  fix f and p v y :: "64 word"
  assume IH: "\<And>p v y. f p v = Some y \<Longrightarrow> \<exists>j. y = push_bit j p \<and> v \<le> y"
    and run: "(if p < v then f (push_bit 1 p) v else Some p) = Some y"
  show "\<exists>j. y = push_bit j p \<and> v \<le> y"
  proof (cases "p < v")
    case True
    with run IH [of "push_bit 1 p" v y] obtain j where "y = push_bit j (push_bit 1 p)" "v \<le> y" by auto
    then show ?thesis by (intro exI [of _ "j + 1"]) (simp add: push_bit_push_bit)
  next
    case False
    with run show ?thesis by (intro exI [of _ 0]) auto
  qed
qed

lemma pow2_less_iff: "k < 64 \<Longrightarrow> (2 ^ k :: 64 word) < v \<longleftrightarrow> 2 ^ k < unat v"
  by (simp add: word_less_nat_alt pow2_unat)

lemma round_up_from_pow2:
  assumes "k < 64" "unat v \<le> 2 ^ 63"
  shows "\<exists>j. k \<le> j \<and> j < 64 \<and> round_up_from (2 ^ k) v = Some (2 ^ j) \<and> unat v \<le> 2 ^ j \<and>
    (j = k \<or> 2 ^ (j - 1) < unat v)"
  using assms
proof (induction "63 - k" arbitrary: k)
  case 0
  then have k: "k = 63" by simp
  then have "\<not> (2 ^ k :: 64 word) < v" using 0 pow2_less_iff [of 63 v] by (simp del: power_numeral)
  then have "round_up_from (2 ^ k) v = Some (2 ^ k)" by (subst round_up_from.simps) simp
  with 0 k show ?case by (intro exI [of _ 63]) simp
next
  case (Suc m)
  show ?case
  proof (cases "(2 ^ k :: 64 word) < v")
    case False
    then have "round_up_from (2 ^ k) v = Some (2 ^ k)" by (subst round_up_from.simps) simp
    with False Suc show ?thesis by (intro exI [of _ k]) (simp add: pow2_less_iff)
  next
    case True
    have "round_up_from (2 ^ k) v = round_up_from (2 ^ Suc k) v"
      using True by (subst round_up_from.simps) (simp add: push_bit_eq_mult mult.commute)
    moreover have "m = 63 - Suc k" "Suc k < 64" using Suc.hyps(2) by simp_all
    with Suc.hyps(1) [of "Suc k"] Suc.prems(2) obtain j where
      "Suc k \<le> j" "j < 64" "round_up_from (2 ^ Suc k) v = Some (2 ^ j)" "unat v \<le> 2 ^ j"
      "j = Suc k \<or> 2 ^ (j - 1) < unat v" by blast
    ultimately show ?thesis using True Suc.prems
      by (intro exI [of _ j]) (auto simp: pow2_less_iff)
  qed
qed

lemma round_up_diverges:
  assumes "\<not> unat v \<le> 2 ^ 63"
  shows "round_up_pow2 v = None"
proof -
  have "round_up_from 1 v \<noteq> Some y" for y
  proof
    assume "round_up_from 1 v = Some y"
    from round_up_from_result [OF this] obtain j where j: "y = push_bit j 1" "v \<le> y" by blast
    have "unat y \<le> 2 ^ 63"
    proof (cases "j < 64")
      case True
      then have "(2 :: nat) ^ j \<le> 2 ^ 63" by (intro power_increasing) auto
      with True j(1) show ?thesis by (simp add: push_bit_eq_mult pow2_unat del: power_numeral)
    next
      case False
      with j(1) have "y = 0" by (simp add: push_bit_eq_mult)
      then show ?thesis by simp
    qed
    with j(2) assms show False by (simp add: word_le_nat_alt del: power_numeral)
  qed
  then show ?thesis unfolding round_up_pow2_def by (cases "round_up_from 1 v") blast+
qed

text \<open>C33: The constructor's rounding loop. Up to \<open>2 ^ 63\<close> it returns the least power of two that is at
  least the requested capacity; beyond that the doubled value wraps to 0 and the loop never ends.\<close>

theorem round_up_pow2_least:
  "if unat v \<le> 2 ^ 63
   then \<exists>j < 64. round_up_pow2 v = Some (2 ^ j) \<and> unat v \<le> 2 ^ j \<and> (\<forall>i < j. 2 ^ i < unat v)
   else round_up_pow2 v = None"
proof (cases "unat v \<le> 2 ^ 63")
  case True
  from round_up_from_pow2 [of 0 v] True obtain j where j: "j < 64" "round_up_from 1 v = Some (2 ^ j)"
    "unat v \<le> 2 ^ j" "j = 0 \<or> 2 ^ (j - 1) < unat v" by auto
  have "2 ^ i < unat v" if "i < j" for i
  proof -
    have "(2 :: nat) ^ i \<le> 2 ^ (j - 1)" using that by (intro power_increasing) auto
    also have "\<dots> < unat v" using j(4) that by auto
    finally show ?thesis .
  qed
  with j True show ?thesis by (auto simp: round_up_pow2_def)
next
  case False
  with round_up_diverges [OF False] show ?thesis by simp
qed

theorem round_up_pow2_least_witness: "round_up_pow2 100 = Some 128"
proof -
  from round_up_pow2_least [of 100] obtain j where j: "round_up_pow2 100 = Some (2 ^ j)" "(100 :: nat) \<le> 2 ^ j"
    "\<forall>i < j. (2 :: nat) ^ i < 100" by auto
  have "\<not> 7 < j" using j(3) by (auto dest: spec [of _ 7])
  moreover have "\<not> j \<le> 6" using j(2) power_increasing [of j 6 "2 :: nat"] by auto
  ultimately have "j = 7" by linarith
  with j(1) show ?thesis by simp
qed

section \<open>The ring as a bounded queue\<close>

text \<open>The contract of a bounded queue: \<open>push\<close> appends when there is room and refuses otherwise,
  \<open>pop\<close> takes the oldest element.\<close>

locale bounded_fifo =
  fixes inv :: "'q \<Rightarrow> bool" and contents :: "'q \<Rightarrow> 'a list" and room :: "'q \<Rightarrow> nat"
    and push :: "'a \<Rightarrow> 'q \<Rightarrow> (bool \<times> 'q) result" and pop :: "'q \<Rightarrow> ('a option \<times> 'q) result"
  assumes push_law: "inv q \<Longrightarrow> \<exists>q'. push x q = Inr (length (contents q) < room q, q') \<and> inv q' \<and>
      room q' = room q \<and>
      contents q' = (if length (contents q) < room q then contents q @ [x] else contents q)"
    and pop_law: "inv q \<Longrightarrow> \<exists>q'. pop q = Inr (case contents q of [] \<Rightarrow> None | x # xs \<Rightarrow> Some x, q') \<and>
      inv q' \<and> room q' = room q \<and> contents q' = tl (contents q)"
begin

lemma push_many:
  assumes "inv q" "length (contents q) + length xs \<le> room q"
  shows "\<exists>q'. rfold (\<lambda>x q. rbind (push x q) (\<lambda>(ok, q'). Inr q')) xs q = Inr q' \<and> inv q' \<and>
    room q' = room q \<and> contents q' = contents q @ xs"
  using assms
proof (induction xs arbitrary: q)
  case Nil
  then show ?case by simp
next
  case (Cons x xs)
  from push_law [OF Cons.prems(1), of x] Cons.prems(2) obtain q1 where
    q1: "push x q = Inr (True, q1)" "inv q1" "room q1 = room q" "contents q1 = contents q @ [x]" by auto
  with Cons.IH [of q1] Cons.prems(2) show ?case by auto
qed

lemma pop_many:
  assumes "inv q" "n = length (contents q)"
  shows "\<exists>q'. rfold (\<lambda>_ (q, out). rbind (pop q) (\<lambda>(x, q'). Inr (q', out @ [x]))) (replicate n ()) (q, out) =
      Inr (q', out @ map Some (contents q)) \<and> inv q' \<and> contents q' = []"
  using assms
proof (induction n arbitrary: q out)
  case 0
  then show ?case by simp
next
  case (Suc n)
  from Suc.prems(2) obtain x xs where c: "contents q = x # xs" by (cases "contents q") auto
  with pop_law [OF Suc.prems(1)] obtain q1 where
    q1: "pop q = Inr (Some x, q1)" "inv q1" "contents q1 = xs" by auto
  from Suc.IH [of q1 "out @ [Some x]"] q1 c Suc.prems(2) show ?case by simp
qed

end

text \<open>Well-formed rings: the capacity is a power of two, the mask selects the bits below it, and the
  counters are at most a capacity apart, however often they have wrapped.\<close>

definition ring_bits :: "nat \<Rightarrow> 'a spsc \<Rightarrow> bool" where
  "ring_bits k q \<longleftrightarrow>
     k < 64 \<and> spsc_capacity q = 2 ^ k \<and> spsc_mask q = 2 ^ k - 1 \<and> length (slots q) = 2 ^ k"

definition ring_count :: "'a spsc \<Rightarrow> nat" where
  "ring_count q = unat (head q - tail q)"

definition ring_ok :: "'a spsc \<Rightarrow> bool" where
  "ring_ok q \<longleftrightarrow> (\<exists>k. ring_bits k q) \<and> ring_count q \<le> length (slots q)"

definition ring_contents :: "'a spsc \<Rightarrow> 'a list" where
  "ring_contents q = map (\<lambda>i. slots q ! slot_of q (tail q + word_of_nat i)) [0..<ring_count q]"

lemma ring_contents_length [simp]: "length (ring_contents q) = ring_count q"
  by (simp add: ring_contents_def)

lemma slot_of_mod:
  assumes "ring_bits k q"
  shows "slot_of q w = unat w mod 2 ^ k"
proof -
  have "spsc_mask q = mask k" using assms by (simp add: ring_bits_def mask_eq_exp_minus_1)
  then have "w AND spsc_mask q = take_bit k w" by (simp add: take_bit_eq_mask)
  then have "slot_of q w = unat (take_bit k w)" by (simp add: slot_of_def)
  also have "\<dots> = take_bit k (unat w)" by (rule unsigned_take_bit_eq)
  finally show ?thesis by (simp add: take_bit_eq_mod)
qed

lemma slot_of_add:
  assumes "ring_bits k q"
  shows "slot_of q (w + word_of_nat i) = (unat w + i) mod 2 ^ k"
proof -
  have "(2 :: nat) ^ k dvd 2 ^ 64" using assms by (intro le_imp_power_dvd) (simp add: ring_bits_def)
  moreover have "unat (w + word_of_nat i) = (unat w + i) mod 2 ^ 64"
    by (simp add: unat_word_ariths unat_of_nat take_bit_eq_mod mod_simps)
  ultimately show ?thesis by (simp add: slot_of_mod [OF assms] mod_mod_cancel del: power_numeral)
qed

lemma slot_of_less: "ring_bits k q \<Longrightarrow> slot_of q w < length (slots q)"
  by (simp add: slot_of_mod) (simp add: ring_bits_def)

lemma slot_distinct:
  assumes "ring_bits k q" "i < 2 ^ k" "j < 2 ^ k"
    "slot_of q (w + word_of_nat i) = slot_of q (w + word_of_nat j)"
  shows "i = j"
  using assms mod_add_left_inj [of "unat w" i "2 ^ k" j] by (simp add: slot_of_add)

lemma head_tail: "head q = tail q + word_of_nat (ring_count q)"
  by (simp add: ring_count_def)

lemma ring_full_iff:
  assumes "ring_bits k q" "ring_count q \<le> 2 ^ k"
  shows "head q + 1 - tail q > spsc_capacity q \<longleftrightarrow> ring_count q = 2 ^ k"
proof -
  have k: "k < 64" "spsc_capacity q = 2 ^ k" using assms(1) by (simp_all add: ring_bits_def)
  then have "(2 :: nat) ^ k \<le> 2 ^ 63" by (intro power_increasing) auto
  then have small: "ring_count q + 1 < 2 ^ 64" using assms(2) by simp
  have "head q + 1 - tail q = word_of_nat (ring_count q + 1)"
    using head_tail [of q] by simp
  then have "unat (head q + 1 - tail q) = ring_count q + 1"
    using small unat_of_nat [of "ring_count q + 1", where 'a = 64]
    by (simp add: take_bit_nat_eq_self del: of_nat_add of_nat_Suc)
  with k assms(2) show ?thesis by (auto simp: word_less_nat_alt pow2_unat)
qed

lemma ring_empty_iff: "tail q = head q \<longleftrightarrow> ring_count q = 0"
  by (auto simp: ring_count_def unat_eq_zero)

text \<open>The elementary changes: filling the slot of the head changes no contents, moving the head
  appends the slot's value, moving the tail drops the oldest element.\<close>

lemma ring_bits_update [simp]:
  "ring_bits k (q\<lparr>slots := (slots q)[i := v]\<rparr>) = ring_bits k q"
  "ring_bits k (q\<lparr>head := h\<rparr>) = ring_bits k q"
  "ring_bits k (q\<lparr>tail := t\<rparr>) = ring_bits k q"
  "slot_of (q\<lparr>slots := xs\<rparr>) = slot_of q" "slot_of (q\<lparr>head := h\<rparr>) = slot_of q"
  "slot_of (q\<lparr>tail := t\<rparr>) = slot_of q"
  "ring_count (q\<lparr>slots := xs\<rparr>) = ring_count q"
  by (simp_all add: ring_bits_def slot_of_def ring_count_def fun_eq_iff)

lemma ring_write:
  assumes "ring_bits k q" "ring_count q < 2 ^ k"
  shows "ring_contents (q\<lparr>slots := (slots q)[slot_of q (head q) := v]\<rparr>) = ring_contents q"
proof -
  have "slot_of q (tail q + word_of_nat i) \<noteq> slot_of q (head q)" if "i < ring_count q" for i
    using slot_distinct [OF assms(1), of i "ring_count q" "tail q"] that assms(2) head_tail [of q] by auto
  then have "(slots q)[slot_of q (head q) := v] ! slot_of q (tail q + word_of_nat i) =
      slots q ! slot_of q (tail q + word_of_nat i)" if "i < ring_count q" for i
    using that by (metis nth_list_update_neq)
  then show ?thesis by (simp add: ring_contents_def)
qed

lemma ring_count_publish:
  assumes "ring_bits k q" "ring_count q < 2 ^ k"
  shows "ring_count (q\<lparr>head := head q + 1\<rparr>) = Suc (ring_count q)"
proof -
  have "(2 :: nat) ^ k \<le> 2 ^ 63" using assms(1) by (intro power_increasing) (auto simp: ring_bits_def)
  then have small: "Suc (ring_count q) < 2 ^ 64" using assms(2) by simp
  have "head q + 1 - tail q = word_of_nat (Suc (ring_count q))" using head_tail [of q] by simp
  with small show ?thesis using unat_of_nat [of "Suc (ring_count q)", where 'a = 64]
    by (simp add: ring_count_def [of "q\<lparr>head := head q + 1\<rparr>"] take_bit_nat_eq_self del: of_nat_Suc)
qed

lemma ring_publish:
  assumes "ring_bits k q" "ring_count q < 2 ^ k"
  shows "ring_contents (q\<lparr>head := head q + 1\<rparr>) = ring_contents q @ [slots q ! slot_of q (head q)]"
  using ring_count_publish [OF assms] head_tail [of q] by (simp add: ring_contents_def)

lemma ring_count_consume:
  assumes "0 < ring_count q"
  shows "Suc (ring_count (q\<lparr>tail := tail q + 1\<rparr>)) = ring_count q"
proof -
  have "head q - tail q \<noteq> 0" using assms by (auto simp: ring_count_def)
  then have "unat ((head q - tail q) - 1) = ring_count q - 1"
    unfolding ring_count_def by (rule unat_minus_one)
  moreover have "ring_count (q\<lparr>tail := tail q + 1\<rparr>) = unat ((head q - tail q) - 1)"
    by (simp add: ring_count_def diff_diff_eq)
  ultimately show ?thesis using assms by simp
qed

lemma ring_consume:
  assumes "0 < ring_count q"
  shows "ring_contents q = slots q ! slot_of q (tail q) # ring_contents (q\<lparr>tail := tail q + 1\<rparr>)"
proof -
  let ?n = "ring_count (q\<lparr>tail := tail q + 1\<rparr>)"
  have "ring_contents q = map (\<lambda>i. slots q ! slot_of q (tail q + word_of_nat i)) (0 # map Suc [0..<?n])"
    using ring_count_consume [OF assms]
    by (simp only: ring_contents_def map_Suc_upt) (metis upt_conv_Cons zero_less_Suc)
  then show ?thesis by (simp add: ring_contents_def comp_def add.assoc)
qed

interpretation ring: bounded_fifo ring_ok ring_contents "\<lambda>q. length (slots q)" spsc_push spsc_pop
proof
  fix q :: "'a spsc" and x
  assume ok: "ring_ok q"
  then obtain k where k: "ring_bits k q" "ring_count q \<le> 2 ^ k" "length (slots q) = 2 ^ k"
    by (auto simp: ring_ok_def ring_bits_def)
  show "\<exists>q'. spsc_push x q = Inr (length (ring_contents q) < length (slots q), q') \<and> ring_ok q' \<and>
      length (slots q') = length (slots q) \<and>
      ring_contents q' = (if length (ring_contents q) < length (slots q) then ring_contents q @ [x]
        else ring_contents q)"
  proof (cases "ring_count q = 2 ^ k")
    case True
    then have "spsc_push x q = Inr (False, q)"
      using ring_full_iff [OF k(1,2)] by (simp add: spsc_push_def Let_def)
    with True k ok show ?thesis by simp
  next
    case False
    let ?w = "q\<lparr>slots := (slots q)[slot_of q (head q) := x]\<rparr>"
    have room: "ring_count q < 2 ^ k" using False k(2) by simp
    have run: "spsc_push x q = Inr (True, ?w\<lparr>head := head q + 1\<rparr>)"
      using False ring_full_iff [OF k(1,2)] slot_of_less [OF k(1)] by (simp add: spsc_push_def Let_def)
    have w: "ring_bits k ?w" "ring_count ?w < 2 ^ k" using k(1) room by simp_all
    have "ring_contents (?w\<lparr>head := head q + 1\<rparr>) = ring_contents q @ [x]"
      using ring_publish [OF w] ring_write [OF k(1) room, of x] slot_of_less [OF k(1)] by simp
    moreover have "ring_count (?w\<lparr>head := head q + 1\<rparr>) \<le> 2 ^ k"
      using ring_count_publish [OF w] room by simp
    moreover have "ring_bits k (?w\<lparr>head := head q + 1\<rparr>)" using w(1) by simp
    ultimately show ?thesis using run room k(3) by (auto simp: ring_ok_def)
  qed
  show "\<exists>q'. spsc_pop q = Inr (case ring_contents q of [] \<Rightarrow> None | x # xs \<Rightarrow> Some x, q') \<and> ring_ok q' \<and>
      length (slots q') = length (slots q) \<and> ring_contents q' = tl (ring_contents q)"
  proof (cases "ring_count q = 0")
    case True
    moreover from True have "ring_contents q = []" by (simp add: ring_contents_def)
    ultimately show ?thesis using ok ring_empty_iff [of q] by (simp add: spsc_pop_def Let_def)
  next
    case False
    then have "spsc_pop q = Inr (Some (slots q ! slot_of q (tail q)), q\<lparr>tail := tail q + 1\<rparr>)"
      using ring_empty_iff [of q] slot_of_less [OF k(1)] by (simp add: spsc_pop_def Let_def)
    moreover have "ring_count (q\<lparr>tail := tail q + 1\<rparr>) \<le> 2 ^ k"
      using False ring_count_consume [of q] k(2) by simp
    ultimately show ?thesis using False ring_consume [of q] k(1,3) by (auto simp: ring_ok_def)
  qed
qed

lemma new_spsc_ok:
  assumes "new_spsc dflt c = Some q"
  shows "ring_ok q \<and> ring_contents q = [] \<and> unat c \<le> length (slots q)"
proof -
  from assms obtain p where p: "round_up_pow2 c = Some p"
    and q: "q = \<lparr>spsc_capacity = p, spsc_mask = p - 1, slots = replicate (unat p) dflt, head = 0, tail = 0\<rparr>"
    by (auto simp: new_spsc_def split: option.splits)
  have "\<exists>j < 64. p = 2 ^ j \<and> unat c \<le> 2 ^ j"
  proof (cases "unat c \<le> 2 ^ 63")
    case True
    from round_up_from_pow2 [of 0 c] True p show ?thesis by (auto simp: round_up_pow2_def)
  next
    case False
    with round_up_diverges [of c] p show ?thesis by simp
  qed
  then obtain j where "j < 64" "p = 2 ^ j" "unat c \<le> 2 ^ j" by blast
  with q show ?thesis
    by (auto simp: ring_ok_def ring_bits_def ring_contents_def ring_count_def pow2_unat intro!: exI [of _ j])
qed

text \<open>The ring is a bounded FIFO. On a well-formed ring, whatever the values of its wrapping 64-bit
  counters, \<open>push\<close> appends its argument and returns true when fewer than \<open>capacity\<close> elements are in
  it and otherwise changes nothing and returns false; \<open>pop\<close> removes and returns the oldest element or
  reports that there is none; neither touches memory outside the slots.\<close>

theorem spsc_is_bounded_fifo:
  assumes "ring_ok q"
  shows "(\<exists>q'. spsc_push x q = Inr (ring_count q < length (slots q), q') \<and> ring_ok q' \<and>
      ring_contents q' = (if ring_count q < length (slots q) then ring_contents q @ [x] else ring_contents q)) \<and>
    (\<exists>q'. spsc_pop q = Inr (case ring_contents q of [] \<Rightarrow> None | x # xs \<Rightarrow> Some x, q') \<and> ring_ok q' \<and>
      ring_contents q' = tl (ring_contents q))"
  using ring.push_law [OF assms, of x] ring.pop_law [OF assms] by auto

definition sample_ring :: "nat spsc" where
  "sample_ring = \<lparr>spsc_capacity = 2, spsc_mask = 1, slots = [7, 5], head = 0, tail = - 1\<rparr>"

lemma sample_ring_ok: "ring_ok sample_ring"
  by (simp add: ring_ok_def ring_bits_def ring_count_def sample_ring_def exI [of _ 1])

theorem spsc_is_bounded_fifo_witness:
  "ring_contents sample_ring = [5] \<and>
   (\<exists>q'. spsc_push 9 sample_ring = Inr (True, q') \<and> ring_contents q' = [5, 9])"
  using spsc_is_bounded_fifo [OF sample_ring_ok, of 9]
  by (auto simp: sample_ring_def ring_contents_def ring_count_def slot_of_def)

end
