(* ===== verification/Spsc_Concurrent.thy ===== *)
theory Spsc_Concurrent
  imports Spsc_Queue
begin

text \<open>
  The ring used by two threads. Every access to a shared location is a step of its own, and the
  steps of producer and consumer interleave in any order: loading the own counter, loading the other
  thread's counter, writing or reading the slot, storing the own counter.

  An acquire load may return an older value of the other thread's counter. How much older is bounded
  by what the thread has already seen: \<open>prod_lag\<close> counts the stores to \<open>tail_\<close> the producer has not
  observed yet, \<open>cons_lag\<close> the stores to \<open>head_\<close> the consumer has not. A load returns any value
  within the lag and becomes the new observation. Slot contents are visible when the counter that
  publishes them is, which is what release and acquire give.

  \<open>pushed\<close> and \<open>popped\<close> record the values whose push or pop has taken effect.
\<close>

section \<open>The two threads\<close>

datatype 'a producer =
    PIdle
  | PLoaded 'a "64 word"
  | PMayWrite 'a "64 word"
  | PWritten 'a "64 word"

datatype 'a consumer =
    CIdle
  | CLoaded "64 word"
  | CMayRead "64 word"
  | CHolds "64 word" 'a

record 'a spsc_run =
  shared :: "'a spsc"
  producer :: "'a producer"
  consumer :: "'a consumer"
  prod_lag :: nat
  cons_lag :: nat
  pushed :: "'a list"
  popped :: "'a list"

definition spsc_start :: "'a spsc_run \<Rightarrow> bool" where
  "spsc_start r \<longleftrightarrow>
     (\<exists>dflt c. new_spsc dflt c = Some (shared r)) \<and> producer r = PIdle \<and> consumer r = CIdle \<and>
     prod_lag r = 0 \<and> cons_lag r = 0 \<and> pushed r = [] \<and> popped r = []"

inductive spsc_step :: "'a spsc_run \<Rightarrow> 'a spsc_run \<Rightarrow> bool" where
  push_load:
    "producer r = PIdle \<Longrightarrow> spsc_step r (r\<lparr>producer := PLoaded v (head (shared r))\<rparr>)"
| push_full:
    "producer r = PLoaded v h \<Longrightarrow> j \<le> prod_lag r \<Longrightarrow>
       (h + 1) - (tail (shared r) - word_of_nat j) > spsc_capacity (shared r) \<Longrightarrow>
       spsc_step r (r\<lparr>producer := PIdle, prod_lag := j\<rparr>)"
| push_room:
    "producer r = PLoaded v h \<Longrightarrow> j \<le> prod_lag r \<Longrightarrow>
       \<not> (h + 1) - (tail (shared r) - word_of_nat j) > spsc_capacity (shared r) \<Longrightarrow>
       spsc_step r (r\<lparr>producer := PMayWrite v h, prod_lag := j\<rparr>)"
| push_write:
    "producer r = PMayWrite v h \<Longrightarrow>
       spsc_step r (r\<lparr>producer := PWritten v h,
         shared := (shared r)\<lparr>slots := (slots (shared r))[slot_of (shared r) h := v]\<rparr>\<rparr>)"
| push_store:
    "producer r = PWritten v h \<Longrightarrow>
       spsc_step r (r\<lparr>producer := PIdle, shared := (shared r)\<lparr>head := h + 1\<rparr>,
         cons_lag := Suc (cons_lag r), pushed := pushed r @ [v]\<rparr>)"
| pop_load:
    "consumer r = CIdle \<Longrightarrow> spsc_step r (r\<lparr>consumer := CLoaded (tail (shared r))\<rparr>)"
| pop_none:
    "consumer r = CLoaded t \<Longrightarrow> j \<le> cons_lag r \<Longrightarrow> t = head (shared r) - word_of_nat j \<Longrightarrow>
       spsc_step r (r\<lparr>consumer := CIdle, cons_lag := j\<rparr>)"
| pop_some:
    "consumer r = CLoaded t \<Longrightarrow> j \<le> cons_lag r \<Longrightarrow> t \<noteq> head (shared r) - word_of_nat j \<Longrightarrow>
       spsc_step r (r\<lparr>consumer := CMayRead t, cons_lag := j\<rparr>)"
| pop_read:
    "consumer r = CMayRead t \<Longrightarrow>
       spsc_step r (r\<lparr>consumer := CHolds t (slots (shared r) ! slot_of (shared r) t)\<rparr>)"
| pop_store:
    "consumer r = CHolds t x \<Longrightarrow>
       spsc_step r (r\<lparr>consumer := CIdle, shared := (shared r)\<lparr>tail := t + 1\<rparr>,
         prod_lag := Suc (prod_lag r), popped := popped r @ [x]\<rparr>)"

abbreviation spsc_reachable :: "'a spsc_run \<Rightarrow> bool" where
  "spsc_reachable \<equiv> reachable spsc_start spsc_step"

section \<open>Invariant\<close>

definition producer_ok :: "nat \<Rightarrow> 'a spsc_run \<Rightarrow> bool" where
  "producer_ok k r \<longleftrightarrow>
     (case producer r of
        PIdle \<Rightarrow> True
      | PLoaded v h \<Rightarrow> h = head (shared r)
      | PMayWrite v h \<Rightarrow> h = head (shared r) \<and> ring_count (shared r) + prod_lag r < 2 ^ k
      | PWritten v h \<Rightarrow> h = head (shared r) \<and> ring_count (shared r) + prod_lag r < 2 ^ k \<and>
          slots (shared r) ! slot_of (shared r) h = v)"

definition consumer_ok :: "'a spsc_run \<Rightarrow> bool" where
  "consumer_ok r \<longleftrightarrow>
     (case consumer r of
        CIdle \<Rightarrow> True
      | CLoaded t \<Rightarrow> t = tail (shared r)
      | CMayRead t \<Rightarrow> t = tail (shared r) \<and> cons_lag r < ring_count (shared r)
      | CHolds t x \<Rightarrow> t = tail (shared r) \<and> cons_lag r < ring_count (shared r) \<and>
          slots (shared r) ! slot_of (shared r) t = x)"

definition threads_ok :: "'a spsc_run \<Rightarrow> bool" where
  "threads_ok r \<longleftrightarrow>
     (\<exists>k. ring_bits k (shared r) \<and> ring_count (shared r) + prod_lag r \<le> 2 ^ k \<and> producer_ok k r) \<and>
     cons_lag r \<le> ring_count (shared r) \<and> consumer_ok r \<and>
     pushed r = popped r @ ring_contents (shared r)"

lemma distance_small: "ring_bits k q \<Longrightarrow> n \<le> 2 ^ k \<Longrightarrow> unat (word_of_nat (Suc n) :: 64 word) = Suc n"
proof -
  assume "ring_bits k q" "n \<le> 2 ^ k"
  moreover from \<open>ring_bits k q\<close> have "(2 :: nat) ^ k \<le> 2 ^ 63"
    by (intro power_increasing) (auto simp: ring_bits_def)
  ultimately have "Suc n < 2 ^ 64" by simp
  then show ?thesis using unat_of_nat [of "Suc n", where 'a = 64]
    by (simp add: take_bit_nat_eq_self del: of_nat_Suc)
qed

text \<open>What the two tests decide, for any admissible staleness: room for one more element counting
  those the producer still believes queued, and an element beyond those the consumer knows of.\<close>

lemma full_test:
  assumes "ring_bits k q" "ring_count q + j \<le> 2 ^ k"
  shows "(head q + 1) - (tail q - word_of_nat j) > spsc_capacity q \<longleftrightarrow> ring_count q + j = 2 ^ k"
proof -
  have "head q = tail q + word_of_nat (ring_count q)" by (rule head_tail)
  then have "(head q + 1) - (tail q - word_of_nat j) = word_of_nat (Suc (ring_count q + j))" by simp
  then have "unat ((head q + 1) - (tail q - word_of_nat j)) = Suc (ring_count q + j)"
    using distance_small [OF assms] by (simp only:)
  with assms show ?thesis by (auto simp: word_less_nat_alt ring_bits_def pow2_unat)
qed

lemma empty_test:
  assumes "j \<le> ring_count q"
  shows "tail q = head q - word_of_nat j \<longleftrightarrow> ring_count q = j"
proof
  assume "tail q = head q - word_of_nat j"
  then have "head q - tail q = word_of_nat j" by simp
  then have "ring_count q = unat (word_of_nat j :: 64 word)" by (simp add: ring_count_def)
  moreover have "unat (word_of_nat j :: 64 word) \<le> j"
    by (simp add: unat_of_nat take_bit_nat_less_eq_self)
  ultimately show "ring_count q = j" using assms by simp
qed (use head_tail [of q] in simp)

lemma start_ok: "spsc_start r \<Longrightarrow> threads_ok r"
proof -
  assume st: "spsc_start r"
  then obtain dflt c where "new_spsc dflt c = Some (shared r)" by (auto simp: spsc_start_def)
  from new_spsc_ok [OF this] have ok: "ring_ok (shared r)" "ring_contents (shared r) = []" by simp_all
  from ok(2) have "ring_count (shared r) = 0" by (metis ring_contents_length list.size(3))
  with st ok show ?thesis by (auto simp: spsc_start_def threads_ok_def ring_ok_def producer_ok_def consumer_ok_def)
qed

lemma step_ok:
  assumes inv: "threads_ok r" and step: "spsc_step r r'"
  shows "threads_ok r'"
proof -
  from inv obtain k where k: "ring_bits k (shared r)" "ring_count (shared r) + prod_lag r \<le> 2 ^ k"
    "producer_ok k r" and c: "cons_lag r \<le> ring_count (shared r)" "consumer_ok r"
    and log: "pushed r = popped r @ ring_contents (shared r)" by (auto simp: threads_ok_def)
  note defs = threads_ok_def producer_ok_def consumer_ok_def
  from step show ?thesis
  proof cases
    case (push_load v)
    with k c log show ?thesis by (auto simp: defs split: consumer.splits)
  next
    case (push_full v h j)
    with k c log show ?thesis by (auto simp: defs split: consumer.splits)
  next
    case (push_room v h j)
    then have h: "h = head (shared r)" using k(3) by (simp add: producer_ok_def)
    have "ring_count (shared r) + j \<le> 2 ^ k" using push_room(3) k(2) by simp
    with push_room h k(1) full_test [OF k(1) this] have "ring_count (shared r) + j < 2 ^ k" by simp
    with push_room h k c log show ?thesis by (auto simp: defs split: consumer.splits)
  next
    case (push_write v h)
    then have h: "h = head (shared r)" "ring_count (shared r) + prod_lag r < 2 ^ k"
      using k(3) by (simp_all add: producer_ok_def)
    let ?q = "(shared r)\<lparr>slots := (slots (shared r))[slot_of (shared r) (head (shared r)) := v]\<rparr>"
    have room: "ring_count (shared r) < 2 ^ k" using h(2) by simp
    have "slot_of (shared r) (tail (shared r)) \<noteq> slot_of (shared r) (head (shared r))"
      if "0 < ring_count (shared r)"
      using slot_distinct [OF k(1), of 0 "ring_count (shared r)" "tail (shared r)"] that room
        head_tail [of "shared r"] by auto
    then have "slots ?q ! slot_of (shared r) (tail (shared r)) = slots (shared r) ! slot_of (shared r) (tail (shared r))"
      if "0 < ring_count (shared r)" using that by simp
    then have "consumer_ok (r\<lparr>producer := PWritten v h, shared := ?q\<rparr>)"
      using c(2) by (auto simp: consumer_ok_def split: consumer.splits)
    with push_write h k c log slot_of_less [OF k(1)] ring_write [OF k(1) room, of v] show ?thesis
      by (auto simp: threads_ok_def producer_ok_def)
  next
    case (push_store v h)
    then have h: "h = head (shared r)" "ring_count (shared r) + prod_lag r < 2 ^ k"
      "slots (shared r) ! slot_of (shared r) h = v"
      using k(3) by (auto simp: producer_ok_def)
    have room: "ring_count (shared r) < 2 ^ k" using h(2) by simp
    from push_store h k c log ring_count_publish [OF k(1) room] ring_publish [OF k(1) room] show ?thesis
      by (auto simp: defs split: consumer.splits)
  next
    case pop_load
    with k c log show ?thesis by (auto simp: defs split: producer.splits)
  next
    case (pop_none t j)
    with k c log show ?thesis by (auto simp: defs split: producer.splits)
  next
    case (pop_some t j)
    then have "t = tail (shared r)" "j \<le> ring_count (shared r)" using c by (simp_all add: consumer_ok_def)
    with pop_some empty_test [of j "shared r"] have "j < ring_count (shared r)" by auto
    with pop_some k c log show ?thesis by (auto simp: defs split: producer.splits)
  next
    case (pop_read t)
    with k c log show ?thesis by (auto simp: defs split: producer.splits)
  next
    case (pop_store t x)
    then have t: "t = tail (shared r)" "cons_lag r < ring_count (shared r)"
      "slots (shared r) ! slot_of (shared r) t = x" using c by (auto simp: consumer_ok_def)
    then have pos: "0 < ring_count (shared r)" by simp
    have cnt: "ring_count ((shared r)\<lparr>tail := tail (shared r) + 1\<rparr>) + Suc (prod_lag r) =
        ring_count (shared r) + prod_lag r" using ring_count_consume [OF pos] by simp
    from pop_store t k c log cnt ring_count_consume [OF pos] ring_consume [OF pos] show ?thesis
      by (auto simp: defs split: producer.splits)
  qed
qed

interpretation spsc: invariant_system spsc_start spsc_step threads_ok
  by unfold_locales (auto intro: start_ok step_ok)

section \<open>A sample run\<close>

text \<open>A ring of two slots: 7 has been pushed, the producer is about to write 8 and the consumer about
  to read 7.\<close>

definition run_start :: "nat spsc_run" where
  "run_start = \<lparr>shared = \<lparr>spsc_capacity = 2, spsc_mask = 1, slots = [0, 0], head = 0, tail = 0\<rparr>,
     producer = PIdle, consumer = CIdle, prod_lag = 0, cons_lag = 0, pushed = [], popped = []\<rparr>"

definition run_pushed :: "nat spsc_run" where
  "run_pushed = run_start\<lparr>shared := \<lparr>spsc_capacity = 2, spsc_mask = 1, slots = [7, 0], head = 1, tail = 0\<rparr>,
     cons_lag := 1, pushed := [7]\<rparr>"

definition run_busy :: "nat spsc_run" where
  "run_busy = run_pushed\<lparr>producer := PMayWrite 8 1, consumer := CMayRead 0, cons_lag := 0\<rparr>"

lemmas run_defs = run_start_def run_pushed_def run_busy_def slot_of_def

lemma run_start_reachable: "spsc_reachable run_start"
proof (rule reachable_init)
  have "round_up_pow2 2 = Some 2"
    unfolding round_up_pow2_def by (subst round_up_from.simps, subst round_up_from.simps) simp
  moreover have "replicate 2 (0 :: nat) = [0, 0]" by (simp add: numeral_2_eq_2)
  ultimately have "new_spsc 0 2 = Some (shared run_start)"
    by (simp add: new_spsc_def run_start_def)
  then show "spsc_start run_start" unfolding spsc_start_def by (auto simp: run_start_def)
qed

lemma run_pushed_reachable: "spsc_reachable run_pushed"
proof -
  let ?r1 = "run_start\<lparr>producer := PLoaded 7 0\<rparr>"
  let ?r2 = "?r1\<lparr>producer := PMayWrite 7 0\<rparr>"
  let ?r3 = "?r2\<lparr>producer := PWritten 7 0, shared := (shared run_start)\<lparr>slots := [7, 0]\<rparr>\<rparr>"
  have "spsc_step run_start ?r1" using push_load [of run_start 7] by (simp add: run_defs)
  moreover have "spsc_step ?r1 ?r2" using push_room [of ?r1 7 0 0] by (simp add: run_defs)
  moreover have "spsc_step ?r2 ?r3" using push_write [of ?r2 7 0] by (simp add: run_defs)
  moreover have "spsc_step ?r3 run_pushed" using push_store [of ?r3 7 0] by (simp add: run_defs)
  ultimately show ?thesis using run_start_reachable by (meson reachable_step)
qed

lemma run_busy_reachable: "spsc_reachable run_busy"
proof -
  let ?r1 = "run_pushed\<lparr>producer := PLoaded 8 1\<rparr>"
  let ?r2 = "?r1\<lparr>producer := PMayWrite 8 1\<rparr>"
  let ?r3 = "?r2\<lparr>consumer := CLoaded 0\<rparr>"
  have "spsc_step run_pushed ?r1" using push_load [of run_pushed 8] by (simp add: run_defs)
  moreover have "spsc_step ?r1 ?r2" using push_room [of ?r1 8 1 0] by (simp add: run_defs)
  moreover have "spsc_step ?r2 ?r3" using pop_load [of ?r2] by (simp add: run_defs)
  moreover have "spsc_step ?r3 run_busy" using pop_some [of ?r3 0 0] by (simp add: run_defs)
  ultimately show ?thesis using run_pushed_reachable by (meson reachable_step)
qed

section \<open>Properties\<close>

text \<open>C8: The lock-free queue between two threads, under every interleaving of their memory accesses and
  every admissible staleness of their loads: what has been popped, followed by what is in the ring,
  is exactly what has been pushed, in order. Nothing is lost, duplicated, reordered or torn, and the
  ring never holds more than its capacity.\<close>

theorem spsc_threads_fifo:
  assumes "spsc_reachable r"
  shows "pushed r = popped r @ ring_contents (shared r) \<and>
    length (ring_contents (shared r)) \<le> length (slots (shared r))"
  using spsc.reachable_inv [OF assms] by (auto simp: threads_ok_def ring_bits_def)

theorem spsc_threads_fifo_witness:
  "pushed run_busy = popped run_busy @ ring_contents (shared run_busy) \<and> ring_contents (shared run_busy) = [7]"
  using spsc_threads_fifo [OF run_busy_reachable] by (simp add: run_defs)

text \<open>C26: No data race on the slots: whenever the producer is about to write a slot while the consumer
  is about to read one (or has read it and not yet released it), the two slots are different, and
  both are inside the array.\<close>

theorem spsc_slots_race_free:
  assumes "spsc_reachable r" "producer r = PMayWrite v h" "consumer r = CMayRead t \<or> consumer r = CHolds t x"
  shows "slot_of (shared r) h \<noteq> slot_of (shared r) t \<and>
    slot_of (shared r) h < length (slots (shared r)) \<and> slot_of (shared r) t < length (slots (shared r))"
proof -
  from spsc.reachable_inv [OF assms(1)] obtain k where k: "ring_bits k (shared r)" "producer_ok k r"
    and c: "consumer_ok r" by (auto simp: threads_ok_def)
  then have "h = head (shared r)" "ring_count (shared r) < 2 ^ k" "t = tail (shared r)"
    "0 < ring_count (shared r)"
    using assms(2,3) by (auto simp: producer_ok_def consumer_ok_def)
  then show ?thesis
    using slot_distinct [OF k(1), of 0 "ring_count (shared r)" "tail (shared r)"] slot_of_less [OF k(1)]
      head_tail [of "shared r"] by auto
qed

theorem spsc_slots_race_free_witness:
  "slot_of (shared run_busy) 1 \<noteq> slot_of (shared run_busy) 0"
  using spsc_slots_race_free [OF run_busy_reachable, of 8 1 0] by (simp add: run_defs)

end
