(* ===== verification/Gateway.thy ===== *)
theory Gateway
  imports Order_Types "HOL-Library.Sublist"
begin

text \<open>
  The ingress of \<open>include/gateway.hpp\<close>: the command variant, the bounded ring that drops its oldest
  entry when full, and the sequencer that numbers commands.
\<close>

datatype command = CAdd add_order | CCancel cancel_order | CReplace replace_order

fun command_symbol :: "command \<Rightarrow> string" where
  "command_symbol (CAdd c) = ao_symbol c"
| "command_symbol (CCancel c) = co_symbol c"
| "command_symbol (CReplace c) = rp_symbol c"

record sequenced_command =
  ingress_sequence :: int
  sc_command :: command

record ingress_ring =
  ring_capacity :: nat
  ring_queue :: "sequenced_command list"

definition new_ring :: "nat \<Rightarrow> ingress_ring" where
  "new_ring capacity = \<lparr>ring_capacity = capacity, ring_queue = []\<rparr>"

definition ring_push :: "sequenced_command \<Rightarrow> ingress_ring \<Rightarrow> ingress_ring" where
  "ring_push item r =
     (let q = ring_queue r;
          q1 = (if length q = ring_capacity r \<and> q \<noteq> [] then tl q else q)
      in r\<lparr>ring_queue := q1 @ [item]\<rparr>)"

definition ring_pop :: "ingress_ring \<Rightarrow> sequenced_command option \<times> ingress_ring" where
  "ring_pop r =
     (case ring_queue r of [] \<Rightarrow> (None, r) | item # q \<Rightarrow> (Some item, r\<lparr>ring_queue := q\<rparr>))"

definition ring_size :: "ingress_ring \<Rightarrow> nat" where
  "ring_size r = length (ring_queue r)"

record sequencer =
  next_number :: int

definition new_sequencer :: sequencer where
  "new_sequencer = \<lparr>next_number = 1\<rparr>"

definition assign :: "command \<Rightarrow> sequencer \<Rightarrow> sequenced_command \<times> sequencer" where
  "assign c s = (\<lparr>ingress_sequence = next_number s, sc_command = c\<rparr>, s\<lparr>next_number := next_number s + 1\<rparr>)"

fun assign_all :: "command list \<Rightarrow> sequencer \<Rightarrow> sequenced_command list \<times> sequencer" where
  "assign_all [] s = ([], s)"
| "assign_all (c # cs) s =
     (let (m, s1) = assign c s; (ms, s2) = assign_all cs s1 in (m # ms, s2))"

section \<open>Properties\<close>

lemma ring_push_capacity [simp]: "ring_capacity (ring_push x r) = ring_capacity r"
  by (simp add: ring_push_def Let_def)

lemma ring_push_queue:
  assumes "0 < ring_capacity r" "length (ring_queue r) \<le> ring_capacity r"
  shows "ring_queue (ring_push x r) =
    drop (Suc (length (ring_queue r)) - ring_capacity r) (ring_queue r @ [x])"
  using assms by (cases "ring_queue r") (auto simp: ring_push_def Let_def)

lemma ring_pushes:
  assumes "0 < ring_capacity r" "length (ring_queue r) \<le> ring_capacity r"
  shows "ring_queue (fold ring_push xs r) =
    drop (length (ring_queue r) + length xs - ring_capacity r) (ring_queue r @ xs)"
  using assms
proof (induction xs arbitrary: r)
  case Nil
  then show ?case by simp
next
  case (Cons x xs)
  let ?r = "ring_push x r" and ?k = "Suc (length (ring_queue r)) - ring_capacity r"
  have q: "ring_queue ?r = drop ?k (ring_queue r @ [x])" by (rule ring_push_queue [OF Cons.prems])
  have k: "?k \<le> length (ring_queue r @ [x])" by simp
  have len: "length (ring_queue ?r) \<le> ring_capacity ?r" using Cons.prems by (simp add: q)
  have "ring_queue (fold ring_push (x # xs) r) =
      drop (length (ring_queue ?r) + length xs - ring_capacity r) (drop ?k (ring_queue r @ [x]) @ xs)"
    using Cons.IH [of ?r] Cons.prems len by (simp add: q)
  also have "drop ?k (ring_queue r @ [x]) @ xs = drop ?k (ring_queue r @ x # xs)"
    using drop_append [of ?k "ring_queue r @ [x]" xs] k by simp
  also have "drop (length (ring_queue ?r) + length xs - ring_capacity r) (drop ?k (ring_queue r @ x # xs)) =
      drop (length (ring_queue r) + length (x # xs) - ring_capacity r) (ring_queue r @ x # xs)"
    unfolding drop_drop using Cons.prems by (intro arg_cong2 [where f = drop] refl) (simp add: q)
  finally show ?case .
qed

text \<open>The ingress ring keeps the newest entries: after any sequence of pushes a ring of positive
  capacity holds, in arrival order, the last \<open>capacity\<close> of them (all, if there were fewer), so it
  never holds more than its capacity and drops from the front only.\<close>

theorem ring_keeps_newest:
  assumes "0 < capacity"
  shows "ring_queue (fold ring_push xs (new_ring capacity)) = drop (length xs - capacity) xs \<and>
    ring_size (fold ring_push xs (new_ring capacity)) = min capacity (length xs)"
  using ring_pushes [of "new_ring capacity" xs] assms by (auto simp: new_ring_def ring_size_def)

theorem ring_keeps_newest_witness:
  "ring_size (fold ring_push [\<lparr>ingress_sequence = 1, sc_command = CCancel \<lparr>co_symbol = ''X'', co_order_id = 1\<rparr>\<rparr>,
     \<lparr>ingress_sequence = 2, sc_command = CCancel \<lparr>co_symbol = ''X'', co_order_id = 2\<rparr>\<rparr>] (new_ring 1)) = min 1 2"
  using ring_keeps_newest [of 1 "[\<lparr>ingress_sequence = 1, sc_command = CCancel \<lparr>co_symbol = ''X'', co_order_id = 1\<rparr>\<rparr>,
     \<lparr>ingress_sequence = 2, sc_command = CCancel \<lparr>co_symbol = ''X'', co_order_id = 2\<rparr>\<rparr>]"] by simp

text \<open>A ring of capacity 0 is not the empty ring of a \<open>deque(maxlen=0)\<close> that the comment in the
  code names: from its second entry on it never drops, and it grows without bound.\<close>

theorem ring_capacity_zero_grows:
  "ring_queue (fold ring_push xs (new_ring 0)) = xs"
proof -
  have "ring_queue (fold ring_push xs r) = ring_queue r @ xs" if "ring_capacity r = 0" for r
    using that
  proof (induction xs arbitrary: r)
    case Nil
    then show ?case by simp
  next
    case (Cons x xs)
    then show ?case by (simp add: ring_push_def Let_def)
  qed
  then show ?thesis by (simp add: new_ring_def)
qed

lemma assign_all_numbers:
  "map ingress_sequence (fst (assign_all cs s)) = [next_number s .. next_number s + int (length cs) - 1] \<and>
   map sc_command (fst (assign_all cs s)) = cs \<and>
   next_number (snd (assign_all cs s)) = next_number s + int (length cs)"
proof (induction cs arbitrary: s)
  case Nil
  then show ?case by simp
next
  case (Cons c cs)
  show ?case using Cons.IH [of "s\<lparr>next_number := next_number s + 1\<rparr>"]
      upto_rec1 [of "next_number s" "next_number s + int (length (c # cs)) - 1"]
    by (simp add: assign_def split_beta algebra_simps)
qed

text \<open>The sequencer numbers the commands 1, 2, 3 and so on in the order they come, without gaps,
  and passes them on unchanged.\<close>

theorem sequencer_numbers:
  "map ingress_sequence (fst (assign_all cs new_sequencer)) = [1 .. int (length cs)] \<and>
   map sc_command (fst (assign_all cs new_sequencer)) = cs"
  using assign_all_numbers [of cs new_sequencer] by (simp add: new_sequencer_def)

end
