(* ===== verification/Checksum.thy ===== *)
theory Checksum
  imports ME_Prelude
begin

unbundle bit_operations_syntax

text \<open>
  CRC-32 of \<open>include/checksum.hpp\<close>: the table of 256 entries, the loop over the bytes of a string,
  and the seed that lets a checksum continue an earlier one. The reference is the bitwise
  definition, eight conditional shifts per byte.
\<close>

section \<open>The program\<close>

definition crc_poly :: "32 word" where
  "crc_poly = 0xEDB88320"

definition crc_shift :: "32 word \<Rightarrow> 32 word" where
  "crc_shift c = (if c AND 1 \<noteq> 0 then crc_poly XOR drop_bit 1 c else drop_bit 1 c)"

definition crc_entry :: "nat \<Rightarrow> 32 word" where
  "crc_entry i = (crc_shift ^^ 8) (word_of_nat i)"

definition crc_table :: "32 word list" where
  "crc_table = map crc_entry [0..<256]"

definition byte :: "char \<Rightarrow> 32 word" where
  "byte c = word_of_nat (of_char c)"

definition crc_step :: "32 word \<Rightarrow> char \<Rightarrow> 32 word" where
  "crc_step crc c = crc_table ! unat ((crc XOR byte c) AND 0xFF) XOR drop_bit 8 crc"

definition crc32 :: "string \<Rightarrow> 32 word \<Rightarrow> 32 word" where
  "crc32 s seed = NOT (foldl crc_step (NOT seed) s)"

section \<open>The bitwise reference\<close>

definition crc_bits :: "32 word \<Rightarrow> char \<Rightarrow> 32 word" where
  "crc_bits crc c = (crc_shift ^^ 8) (crc XOR byte c)"

definition crc32_bitwise :: "string \<Rightarrow> 32 word \<Rightarrow> 32 word" where
  "crc32_bitwise s seed = NOT (foldl crc_bits (NOT seed) s)"

section \<open>The table implements the bitwise step\<close>

lemma odd_bit: "c AND 1 \<noteq> 0 \<longleftrightarrow> bit c 0" for c :: "32 word"
  by (simp add: and_one_eq odd_iff_mod_2_eq_one bit_0)

lemma crc_shift_xor: "crc_shift (a XOR b) = crc_shift a XOR crc_shift b"
  unfolding crc_shift_def odd_bit
  by (rule bit_word_eqI) (auto simp: bit_simps)

lemma crc_shifts_xor: "(crc_shift ^^ n) (a XOR b) = (crc_shift ^^ n) a XOR (crc_shift ^^ n) b"
  by (induction n) (simp_all add: crc_shift_xor)

lemma crc_shifts_zero:
  "(\<And>k. k < n \<Longrightarrow> \<not> bit c k) \<Longrightarrow> (crc_shift ^^ n) c = drop_bit n c"
proof (induction n arbitrary: c)
  case 0
  then show ?case by simp
next
  case (Suc n)
  have "\<not> bit c 0" using Suc.prems by simp
  then have "crc_shift c = drop_bit 1 c" by (simp add: crc_shift_def odd_bit)
  moreover have "(crc_shift ^^ n) (drop_bit 1 c) = drop_bit n (drop_bit 1 c)"
    by (rule Suc.IH) (use Suc.prems in \<open>auto simp: bit_simps\<close>)
  ultimately show ?case by (simp add: funpow_swap1 drop_bit_drop_bit del: funpow.simps) (simp add: funpow_swap1)
qed

lemma low_byte_less: "unat ((c :: 32 word) AND 0xFF) < 256"
proof -
  have "c AND 0xFF \<le> 0xFF" by (rule word_and_le1)
  then show ?thesis by (simp add: word_le_nat_alt)
qed

lemma crc_table_nth: "i < 256 \<Longrightarrow> crc_table ! i = (crc_shift ^^ 8) (word_of_nat i)"
  by (simp add: crc_table_def crc_entry_def)

lemma ff_mask: "(0xFF :: 32 word) = mask 8"
  by (simp add: mask_eq_exp_minus_1)

lemma byte_bit: "bit (byte c) k \<Longrightarrow> k < 8"
proof -
  assume b: "bit (byte c) k"
  have "of_char c < (256 :: nat)" by simp
  then have "take_bit 8 (of_char c) = (of_char c :: nat)" by (simp add: take_bit_nat_eq_self)
  moreover from b have "bit (of_char c :: nat) k" by (simp add: byte_def bit_simps)
  ultimately show "k < 8" by (metis bit_take_bit_iff)
qed

lemma byte_inject: "byte c = byte d \<longleftrightarrow> c = d"
proof
  assume "byte c = byte d"
  then have "unat (word_of_nat (of_char c) :: 32 word) = unat (word_of_nat (of_char d) :: 32 word)"
    by (simp add: byte_def)
  moreover have "of_char e < (2 ^ 32 :: nat)" for e
    by (rule less_trans [of _ 256]) simp_all
  ultimately have "(of_char c :: nat) = of_char d" by (simp add: unat_of_nat take_bit_nat_eq_self)
  then show "c = d" by simp
qed simp

lemma crc_step_bitwise: "crc_step crc c = crc_bits crc c"
proof -
  let ?x = "crc XOR byte c"
  have split: "?x = (?x AND 0xFF) XOR (?x AND NOT 0xFF)"
    by (rule bit_word_eqI) (auto simp: bit_simps)
  have high: "drop_bit 8 (?x AND NOT 0xFF) = drop_bit 8 crc"
    by (rule bit_word_eqI) (auto simp: ff_mask bit_simps dest: byte_bit bit_imp_le_length)
  have low: "(crc_shift ^^ 8) (?x AND NOT 0xFF) = drop_bit 8 (?x AND NOT 0xFF)"
    by (rule crc_shifts_zero) (simp add: ff_mask bit_simps)
  have "crc_bits crc c = (crc_shift ^^ 8) (?x AND 0xFF) XOR (crc_shift ^^ 8) (?x AND NOT 0xFF)"
    unfolding crc_bits_def by (subst split) (rule crc_shifts_xor)
  also have "(crc_shift ^^ 8) (?x AND 0xFF) = crc_table ! unat (?x AND 0xFF)"
    using crc_table_nth [OF low_byte_less] by simp
  finally show ?thesis by (simp only: low high crc_step_def)
qed

lemma crc_fold_bitwise: "foldl crc_step c s = foldl crc_bits c s"
  by (induction s arbitrary: c) (simp_all add: crc_step_bitwise)

text \<open>C27: The table-driven checksum is the CRC-32 defined bit by bit: reflected, polynomial
  \<open>0xEDB88320\<close>, register complemented before and after, for every string and every seed.\<close>

theorem crc32_table_is_bitwise: "crc32 s seed = crc32_bitwise s seed"
  by (simp add: crc32_def crc32_bitwise_def crc_fold_bitwise)

text \<open>The checksum can be computed piecewise: with the checksum of a prefix as the seed, the
  checksum of the rest is the checksum of the whole.\<close>

theorem crc32_append: "crc32 (s @ t) seed = crc32 t (crc32 s seed)"
  by (simp add: crc32_def)

section \<open>Error detection\<close>

lemma crc_shift_bit31: "bit (crc_shift c) 31 \<longleftrightarrow> bit c 0"
  using bit_imp_le_length [of c 32] by (auto simp: crc_shift_def odd_bit bit_simps crc_poly_def)

lemma crc_shift_inject: "crc_shift a = crc_shift b \<Longrightarrow> a = b"
proof (rule bit_word_eqI)
  fix n
  assume eq: "crc_shift a = crc_shift b" and n: "n < LENGTH(32)"
  then have par: "bit a 0 = bit b 0" using crc_shift_bit31 by metis
  have "drop_bit 1 c = (if bit c 0 then crc_poly XOR crc_shift c else crc_shift c)" for c
    by (auto simp: crc_shift_def odd_bit xor.assoc [symmetric])
  with eq par have "drop_bit 1 a = drop_bit 1 b" by metis
  then have "bit (drop_bit 1 a) k = bit (drop_bit 1 b) k" for k by simp
  then show "bit a n = bit b n" using par by (cases n) (auto simp: bit_simps)
qed

lemma crc_shifts_inject: "(crc_shift ^^ n) a = (crc_shift ^^ n) b \<Longrightarrow> a = b"
  by (induction n) (auto dest: crc_shift_inject)

text \<open>The bytes of a short string as one little-endian word.\<close>

fun pack_bytes :: "string \<Rightarrow> 32 word" where
  "pack_bytes [] = 0"
| "pack_bytes (c # s) = byte c XOR push_bit 8 (pack_bytes s)"

lemma pack_bytes_bit: "bit (pack_bytes s) k \<Longrightarrow> k < 8 * length s"
proof (induction s arbitrary: k)
  case Nil
  then show ?case by simp
next
  case (Cons c s)
  then show ?case by (auto simp: bit_simps dest!: byte_bit Cons.IH)
qed

lemma pack_bytes_inject:
  "length s = length t \<Longrightarrow> length s \<le> 4 \<Longrightarrow> pack_bytes s = pack_bytes t \<Longrightarrow> s = t"
proof (induction s t rule: list_induct2)
  case Nil
  then show ?case by simp
next
  case (Cons c s d t)
  have bits: "bit (pack_bytes (e # u)) k \<longleftrightarrow> (if k < 8 then bit (byte e) k else k < 32 \<and> bit (pack_bytes u) (k - 8))"
    for e u k using byte_bit [of e k] by (auto simp: bit_simps)
  have "byte c = byte d"
  proof (rule bit_word_eqI)
    fix k
    show "bit (byte c) k = bit (byte d) k"
      using bits [of c s k] bits [of d t k] Cons.prems(2) byte_bit by (cases "k < 8") auto
  qed
  moreover have "pack_bytes s = pack_bytes t"
  proof (rule bit_word_eqI)
    fix k
    show "bit (pack_bytes s) k = bit (pack_bytes t) k"
      using bits [of c s "k + 8"] bits [of d t "k + 8"] Cons pack_bytes_bit [of s k] pack_bytes_bit [of t k]
      by auto
  qed
  ultimately show ?case using Cons by (simp add: byte_inject)
qed

lemma crc_fold_pack:
  "length s \<le> 4 \<Longrightarrow> foldl crc_bits c s = (crc_shift ^^ (8 * length s)) (c XOR pack_bytes s)"
proof (induction s arbitrary: c)
  case Nil
  then show ?case by simp
next
  case (Cons x s)
  have "drop_bit 8 (push_bit 8 (pack_bytes s)) = pack_bytes s"
    by (rule bit_word_eqI) (use Cons.prems in \<open>auto simp: bit_simps dest: pack_bytes_bit\<close>)
  moreover have "(crc_shift ^^ 8) (push_bit 8 (pack_bytes s)) = drop_bit 8 (push_bit 8 (pack_bytes s))"
    by (rule crc_shifts_zero) (simp add: bit_simps)
  ultimately have "(crc_shift ^^ 8) (c XOR byte x) XOR pack_bytes s =
      (crc_shift ^^ 8) (c XOR byte x XOR push_bit 8 (pack_bytes s))"
    by (simp only: crc_shifts_xor xor.assoc)
  with Cons show ?case
    by (simp add: crc_bits_def funpow_add xor.assoc add.commute [of 8] del: funpow.simps)
qed

lemma xor_cancel_left: "a XOR b = a XOR c \<longleftrightarrow> b = c" for a :: "32 word"
proof
  assume "a XOR b = a XOR c"
  then have "a XOR (a XOR b) = a XOR (a XOR c)" by (rule arg_cong)
  then show "b = c" by (simp add: xor.assoc [symmetric])
qed simp

lemma crc_fold_inject: "foldl crc_bits a s = foldl crc_bits b s \<Longrightarrow> a = b"
proof (induction s arbitrary: a b)
  case Nil
  then show ?case by simp
next
  case (Cons c s)
  then have "crc_bits a c = crc_bits b c" by simp
  then have "a XOR byte c = b XOR byte c" by (auto simp: crc_bits_def dest: crc_shifts_inject)
  then show ?case by (simp add: xor.commute [of _ "byte c"] xor_cancel_left)
qed

lemma crc_fold_burst:
  assumes "length u = length v" "length u \<le> 4" "u \<noteq> v"
  shows "foldl crc_bits c (s @ u @ t) \<noteq> foldl crc_bits c (s @ v @ t)"
proof
  let ?c = "foldl crc_bits c s"
  assume "foldl crc_bits c (s @ u @ t) = foldl crc_bits c (s @ v @ t)"
  then have "foldl crc_bits (foldl crc_bits ?c u) t = foldl crc_bits (foldl crc_bits ?c v) t" by simp
  then have "foldl crc_bits ?c u = foldl crc_bits ?c v" by (rule crc_fold_inject)
  then have "(crc_shift ^^ (8 * length u)) (?c XOR pack_bytes u) =
      (crc_shift ^^ (8 * length u)) (?c XOR pack_bytes v)"
    using assms(1,2) crc_fold_pack [of u ?c] crc_fold_pack [of v ?c] by simp
  then have "?c XOR pack_bytes u = ?c XOR pack_bytes v" by (rule crc_shifts_inject)
  then have "pack_bytes u = pack_bytes v" by (simp add: xor_cancel_left)
  with pack_bytes_inject [OF assms(1,2)] assms(3) show False by blast
qed

text \<open>What the checksum guards against: if two texts of the same length differ, and differ only
  within four consecutive bytes, their checksums differ. So a frame or log record damaged in a burst
  of up to four bytes never passes the check.\<close>

theorem crc32_detects_bursts:
  assumes "length u = length v" "length u \<le> 4" "u \<noteq> v"
  shows "crc32 (s @ u @ t) seed \<noteq> crc32 (s @ v @ t) seed"
  using crc_fold_burst [OF assms] by (simp add: crc32_def crc_fold_bitwise del: foldl_append)

theorem crc32_detects_bursts_witness:
  "crc32 (''ab'' @ ''xy'' @ ''c'') 0 \<noteq> crc32 (''ab'' @ ''yx'' @ ''c'') 0"
  by (rule crc32_detects_bursts) simp_all

end
