(* ===== verification/Protocol.thy ===== *)
theory Protocol
  imports Gateway Checksum
begin

unbundle bit_operations_syntax

text \<open>
  The wire protocol of \<open>include/protocol.hpp\<close> and \<open>src/protocol.cpp\<close>: big-endian integers, the three
  command codecs, and the frames that carry them over a stream. A buffer is a string of bytes.
  Reading a byte outside the buffer is undefined in C++ and is the error \<open>BadAccess\<close> (the position
  just past the end reads as the terminating zero).

  A \<open>long long\<close> travels as the \<open>uint64_t\<close> with the same bits: \<open>word_of_int\<close> and back by \<open>sint\<close>.
\<close>

section \<open>Bytes and integers\<close>

datatype message_type = MsgAdd | MsgCancel | MsgReplace | MsgEvent | MsgOther "8 word"

fun message_code :: "message_type \<Rightarrow> 8 word" where
  "message_code MsgAdd = 1"
| "message_code MsgCancel = 2"
| "message_code MsgReplace = 3"
| "message_code MsgEvent = 10"
| "message_code (MsgOther w) = w"

text \<open>\<open>static_cast<MessageType>\<close>: any byte is a value of the enumeration's type.\<close>

definition message_of_code :: "8 word \<Rightarrow> message_type" where
  "message_of_code w =
     (if w = 1 then MsgAdd else if w = 2 then MsgCancel else if w = 3 then MsgReplace
      else if w = 10 then MsgEvent else MsgOther w)"

definition char_at :: "string \<Rightarrow> nat \<Rightarrow> char result" where
  "char_at buf i =
     (if i < length buf then Inr (buf ! i) else if i = length buf then Inr (CHR 0x00) else Inl BadAccess)"

definition byte_of :: "char \<Rightarrow> 'w::len word" where
  "byte_of c = word_of_nat (of_char c)"

definition put_be :: "nat list \<Rightarrow> 'w::len word \<Rightarrow> string" where
  "put_be shifts v = map (\<lambda>shift. char_of (unat (drop_bit shift v AND 0xFF))) shifts"

definition put_u8 :: "string \<Rightarrow> 8 word \<Rightarrow> string" where
  "put_u8 out v = out @ [char_of (unat v)]"

definition put_u32 :: "string \<Rightarrow> 32 word \<Rightarrow> string" where
  "put_u32 out v = out @ put_be [24, 16, 8, 0] v"

definition put_u64 :: "string \<Rightarrow> 64 word \<Rightarrow> string" where
  "put_u64 out v = out @ put_be [56, 48, 40, 32, 24, 16, 8, 0] v"

definition get_be :: "nat list \<Rightarrow> string \<Rightarrow> nat \<Rightarrow> 'w::len word result" where
  "get_be is buf offset =
     rfold (\<lambda>i v. rbind (char_at buf (offset + i)) (\<lambda>c. Inr (push_bit 8 v OR byte_of c))) is 0"

definition get_u8 :: "string \<Rightarrow> nat \<Rightarrow> 8 word result" where
  "get_u8 buf offset = rbind (char_at buf offset) (\<lambda>c. Inr (byte_of c))"

definition get_u32 :: "string \<Rightarrow> nat \<Rightarrow> 32 word result" where
  "get_u32 buf offset = get_be [0, 1, 2, 3] buf offset"

definition get_u64 :: "string \<Rightarrow> nat \<Rightarrow> 64 word result" where
  "get_u64 buf offset = get_be [0, 1, 2, 3, 4, 5, 6, 7] buf offset"

fun tif_to_code :: "time_in_force \<Rightarrow> int" where
  "tif_to_code GTC = 1"
| "tif_to_code IOC = 2"
| "tif_to_code FOK = 3"
| "tif_to_code MARKET = 4"

definition code_to_tif :: "int \<Rightarrow> time_in_force result" where
  "code_to_tif code =
     (if code = 1 then Inr GTC else if code = 2 then Inr IOC else if code = 3 then Inr FOK
      else if code = 4 then Inr MARKET else Inl (RuntimeError ''invalid tif code''))"

fun stp_to_code :: "self_trade_prevention \<Rightarrow> int" where
  "stp_to_code StpNone = 0"
| "stp_to_code CancelAggressor = 1"
| "stp_to_code CancelPassive = 2"
| "stp_to_code CancelBoth = 3"

definition code_to_stp :: "int \<Rightarrow> self_trade_prevention result" where
  "code_to_stp code =
     (if code = 0 then Inr StpNone else if code = 1 then Inr CancelAggressor
      else if code = 2 then Inr CancelPassive else if code = 3 then Inr CancelBoth
      else Inl (RuntimeError ''invalid stp code''))"

definition substr :: "string \<Rightarrow> nat \<Rightarrow> nat \<Rightarrow> string" where
  "substr s pos n = take n (drop pos s)"

section \<open>Commands\<close>

definition header_size :: nat where
  "header_size = 5 + 8 * 3"

definition pack_add_order :: "add_order \<Rightarrow> string result" where
  "pack_add_order cmd =
     (if length (ao_symbol cmd) > 255 \<or> length (ao_participant_id cmd) > 255
      then Inl (RuntimeError ''symbol or participant too long'')
      else
        (let out = put_u8 [] (word_of_nat (length (ao_symbol cmd)));
             out = put_u8 out (word_of_nat (length (ao_participant_id cmd)));
             out = put_u8 out (if ao_side cmd = Buy then 1 else 2);
             out = put_u8 out (word_of_int (tif_to_code (ao_time_in_force cmd)));
             out = put_u8 out (word_of_int (stp_to_code (ao_stp cmd)));
             out = put_u64 out (word_of_int (ao_order_id cmd));
             out = put_u64 out (word_of_int (ao_price_ticks cmd));
             out = put_u64 out (word_of_int (ao_quantity cmd))
         in Inr (out @ ao_symbol cmd @ ao_participant_id cmd)))"

definition unpack_add_order :: "string \<Rightarrow> add_order result" where
  "unpack_add_order buf =
     (if length buf < header_size then Inl (RuntimeError ''buffer too small'')
      else if length buf > 4096 then Inl (RuntimeError ''buffer too large'')
      else
        rbind (get_u8 buf 0) (\<lambda>symbol_len.
        rbind (get_u8 buf 1) (\<lambda>participant_len.
        rbind (get_u8 buf 2) (\<lambda>side_raw.
        rbind (get_u8 buf 3) (\<lambda>tif_raw.
        rbind (get_u8 buf 4) (\<lambda>stp_raw.
        rbind (get_u64 buf 5) (\<lambda>order_id.
        rbind (get_u64 buf 13) (\<lambda>price.
        rbind (get_u64 buf 21) (\<lambda>qty.
          if length buf < header_size + unat symbol_len + unat participant_len
          then Inl (RuntimeError ''truncated payload'')
          else
            rbind (code_to_tif (uint tif_raw)) (\<lambda>tif.
            rbind (code_to_stp (uint stp_raw)) (\<lambda>stp.
              Inr \<lparr>ao_symbol = substr buf header_size (unat symbol_len),
                ao_order_id = sint order_id,
                ao_participant_id = substr buf (header_size + unat symbol_len) (unat participant_len),
                ao_side = (if side_raw = 1 then Buy else Sell),
                ao_price_ticks = sint price, ao_quantity = sint qty,
                ao_time_in_force = tif, ao_stp = stp\<rparr>)))))))))))"

definition pack_cancel_order :: "cancel_order \<Rightarrow> string result" where
  "pack_cancel_order cmd =
     (if length (co_symbol cmd) > 255 then Inl (RuntimeError ''symbol too long'')
      else
        (let out = put_u8 [] (word_of_nat (length (co_symbol cmd)));
             out = put_u64 out (word_of_int (co_order_id cmd))
         in Inr (out @ co_symbol cmd)))"

definition unpack_cancel_order :: "string \<Rightarrow> cancel_order result" where
  "unpack_cancel_order buf =
     (if length buf < 9 then Inl (RuntimeError ''buffer too small'')
      else
        rbind (get_u8 buf 0) (\<lambda>symbol_len.
        rbind (get_u64 buf 1) (\<lambda>order_id.
          if length buf < 9 + unat symbol_len then Inl (RuntimeError ''truncated payload'')
          else Inr \<lparr>co_symbol = substr buf 9 (unat symbol_len), co_order_id = sint order_id\<rparr>)))"

definition pack_replace_order :: "replace_order \<Rightarrow> string result" where
  "pack_replace_order cmd =
     (if length (rp_symbol cmd) > 255 then Inl (RuntimeError ''symbol too long'')
      else
        (let out = put_u8 [] (word_of_nat (length (rp_symbol cmd)));
             out = put_u8 out (word_of_int (tif_to_code (rp_time_in_force cmd)));
             out = put_u64 out (word_of_int (rp_order_id cmd));
             out = put_u64 out (word_of_int (rp_new_order_id cmd));
             out = put_u64 out (word_of_int (rp_new_price_ticks cmd));
             out = put_u64 out (word_of_int (rp_new_quantity cmd))
         in Inr (out @ rp_symbol cmd)))"

definition replace_head :: nat where
  "replace_head = 2 + 8 * 4"

definition unpack_replace_order :: "string \<Rightarrow> replace_order result" where
  "unpack_replace_order buf =
     (if length buf < replace_head then Inl (RuntimeError ''buffer too small'')
      else
        rbind (get_u8 buf 0) (\<lambda>symbol_len.
        rbind (get_u8 buf 1) (\<lambda>tif_raw.
          if length buf < replace_head + unat symbol_len then Inl (RuntimeError ''truncated payload'')
          else
            rbind (get_u64 buf 2) (\<lambda>order_id.
            rbind (get_u64 buf 10) (\<lambda>new_order_id.
            rbind (get_u64 buf 18) (\<lambda>new_price.
            rbind (get_u64 buf 26) (\<lambda>new_quantity.
            rbind (code_to_tif (uint tif_raw)) (\<lambda>tif.
              Inr \<lparr>rp_symbol = substr buf replace_head (unat symbol_len), rp_order_id = sint order_id,
                rp_new_order_id = sint new_order_id, rp_new_price_ticks = sint new_price,
                rp_new_quantity = sint new_quantity, rp_time_in_force = tif\<rparr>)))))))) "

section \<open>Frames\<close>

definition frame_message :: "message_type \<Rightarrow> string \<Rightarrow> string" where
  "frame_message ty payload =
     put_u32 (put_u32 (put_u8 [] (message_code ty)) (word_of_nat (length payload)) @ payload)
       (crc32 payload 0)"

text \<open>\<open>a - b\<close> on \<open>size_t\<close>: it wraps when \<open>b\<close> is larger.\<close>

definition size_sub :: "nat \<Rightarrow> nat \<Rightarrow> nat" where
  "size_sub a b = (if b \<le> a then a - b else a + 2 ^ 64 - b)"

text \<open>\<open>None\<close> is the return value false; otherwise the type, the payload and the new offset.\<close>

definition parse_frame :: "string \<Rightarrow> nat \<Rightarrow> (message_type \<times> string \<times> nat) option result" where
  "parse_frame data offset =
     (if size_sub (length data) offset < 5 then Inr None
      else
        rbind (get_u8 data offset) (\<lambda>t.
        rbind (get_u32 data (offset + 1)) (\<lambda>len.
          let p = offset + 5
          in if size_sub (length data) p < unat len + 4 then Inr None
             else
               (let body = substr data p (unat len); p = p + unat len
                in rbind (get_u32 data p) (\<lambda>crc.
                     if crc32 body 0 \<noteq> crc then Inl (RuntimeError ''frame crc mismatch'')
                     else Inr (Some (message_of_code t, body, p + 4)))))))"

fun encode_command :: "command \<Rightarrow> string result" where
  "encode_command (CAdd c) = rbind (pack_add_order c) (\<lambda>p. Inr (frame_message MsgAdd p))"
| "encode_command (CCancel c) = rbind (pack_cancel_order c) (\<lambda>p. Inr (frame_message MsgCancel p))"
| "encode_command (CReplace c) = rbind (pack_replace_order c) (\<lambda>p. Inr (frame_message MsgReplace p))"

fun decode_command :: "message_type \<Rightarrow> string \<Rightarrow> command result" where
  "decode_command MsgAdd payload = rbind (unpack_add_order payload) (\<lambda>c. Inr (CAdd c))"
| "decode_command MsgCancel payload = rbind (unpack_cancel_order payload) (\<lambda>c. Inr (CCancel c))"
| "decode_command MsgReplace payload = rbind (unpack_replace_order payload) (\<lambda>c. Inr (CReplace c))"
| "decode_command ty payload = Inl (RuntimeError ''unsupported command message type'')"

end
