(* ===== verification/Protocol_Codec.thy ===== *)
theory Protocol_Codec
  imports Protocol
begin

unbundle bit_operations_syntax

text \<open>
  Correctness of the wire protocol. Each of the three command codecs satisfies the contract
  \<open>codec\<close>: what is packed unpacks to the same command, and unpacking arbitrary bytes either yields a
  command or throws one of its own errors, never reading outside the buffer. Frames carry any
  payload unchanged, wait for missing bytes, and detect damage.
\<close>

section \<open>Integers\<close>

lemma low_byte: "(w :: 'w::len word) AND 0xFF = take_bit 8 w"
proof -
  have "(0xFF :: 'w word) = mask 8" by (simp add: mask_eq_exp_minus_1)
  then show ?thesis by (simp add: take_bit_eq_mask)
qed

lemma byte_of_low: "byte_of (char_of (unat (take_bit 8 (w :: 'w::len word)))) = take_bit 8 w"
proof -
  have "unat (take_bit 8 w) = take_bit 8 (unat w)" by (rule unsigned_take_bit_eq)
  then have "unat (take_bit 8 w) mod 256 = unat (take_bit 8 w)" by (simp add: take_bit_eq_mod)
  then show ?thesis by (simp add: byte_of_def of_char_of)
qed

lemma byte_of_u8: "byte_of (char_of (unat (w :: 8 word))) = w"
  using byte_of_low [of w] by (simp add: take_bit_word_eq_self)

lemma accumulate_byte:
  "push_bit 8 (drop_bit (8 + n) v) OR take_bit 8 (drop_bit n v) = drop_bit n (v :: 'w::len word)"
  by (rule bit_word_eqI) (auto simp: bit_simps not_less dest: bit_imp_le_length)

lemma length_put_be [simp]: "length (put_be shifts v) = length shifts"
  by (simp add: put_be_def)

lemma char_at_put:
  assumes "length pre = off" "i < length shifts"
  shows "char_at (pre @ put_be shifts v @ post) (off + i) = Inr (char_of (unat (take_bit 8 (drop_bit (shifts ! i) v))))"
  using assms by (simp add: char_at_def put_be_def nth_append low_byte)

text \<open>Reading the \<open>n\<close> bytes that were written, most significant first, restores the word: before
  byte \<open>i\<close> the accumulator holds the bits above it.\<close>

lemma get_be_tail:
  fixes v :: "'w::len word"
  assumes "\<And>i. i < n \<Longrightarrow> char_at buf (off + i) = Inr (char_of (unat (take_bit 8 (drop_bit (8 * (n - 1 - i)) v))))"
    and "k \<le> n"
  shows "rfold (\<lambda>i v. rbind (char_at buf (off + i)) (\<lambda>c. Inr (push_bit 8 v OR byte_of c))) [n - k..<n]
    (drop_bit (8 * k) v) = Inr v"
  using assms(2)
proof (induction k)
  case 0
  then show ?case by simp
next
  case (Suc k)
  then have up: "[n - Suc k..<n] = (n - Suc k) # [n - k..<n]" by (simp add: upt_conv_Cons Suc_diff_Suc)
  have "n - 1 - (n - Suc k) = k" using Suc.prems by simp
  then have "char_at buf (off + (n - Suc k)) = Inr (char_of (unat (take_bit 8 (drop_bit (8 * k) v))))"
    using assms(1) [of "n - Suc k"] Suc.prems by simp
  moreover have "push_bit 8 (drop_bit (8 * Suc k) v) OR take_bit 8 (drop_bit (8 * k) v) = drop_bit (8 * k) v"
    using accumulate_byte [of "8 * k" v] by simp
  ultimately show ?case using Suc.IH Suc.prems unfolding up by (simp only: rfold.simps rbind_simps byte_of_low)
qed

lemma get_be_all:
  fixes v :: "'w::len word"
  assumes "\<And>i. i < n \<Longrightarrow> char_at buf (off + i) = Inr (char_of (unat (take_bit 8 (drop_bit (8 * (n - 1 - i)) v))))"
    and "LENGTH('w) \<le> 8 * n"
  shows "get_be [0..<n] buf off = Inr v"
proof -
  have "drop_bit (8 * n) v = 0"
    by (rule bit_word_eqI) (use assms(2) in \<open>auto simp: bit_simps dest: bit_imp_le_length\<close>)
  with get_be_tail [OF assms(1), where k = n] show ?thesis by (simp add: get_be_def)
qed

lemma get_put_u32: "length pre = off \<Longrightarrow> get_u32 (pre @ put_be [24, 16, 8, 0] v @ post) off = Inr v"
proof -
  assume pre: "length pre = off"
  have idx: "[0, 1, 2, 3] = [0..<4 :: nat]" and shifts: "[24, 16, 8, 0] = map (\<lambda>i. 8 * (4 - 1 - i)) [0..<4 :: nat]"
    by (simp_all add: upt_rec)
  show ?thesis unfolding get_u32_def idx
  proof (rule get_be_all)
    fix i :: nat assume i: "i < 4"
    then have "[24, 16, 8, 0] ! i = 8 * (4 - 1 - i)" unfolding shifts by (subst nth_map) simp_all
    with char_at_put [OF pre, of i "[24, 16, 8, 0]" v post] i
    show "char_at (pre @ put_be [24, 16, 8, 0] v @ post) (off + i) =
        Inr (char_of (unat (take_bit 8 (drop_bit (8 * (4 - 1 - i)) v))))" by simp
  qed simp
qed

lemma get_put_u64:
  "length pre = off \<Longrightarrow> get_u64 (pre @ put_be [56, 48, 40, 32, 24, 16, 8, 0] v @ post) off = Inr v"
proof -
  assume pre: "length pre = off"
  have idx: "[0, 1, 2, 3, 4, 5, 6, 7] = [0..<8 :: nat]"
    and shifts: "[56, 48, 40, 32, 24, 16, 8, 0] = map (\<lambda>i. 8 * (8 - 1 - i)) [0..<8 :: nat]"
    by (simp_all add: upt_rec)
  show ?thesis unfolding get_u64_def idx
  proof (rule get_be_all)
    fix i :: nat assume i: "i < 8"
    then have "[56, 48, 40, 32, 24, 16, 8, 0] ! i = 8 * (8 - 1 - i)"
      unfolding shifts by (subst nth_map) simp_all
    with char_at_put [OF pre, of i "[56, 48, 40, 32, 24, 16, 8, 0]" v post] i
    show "char_at (pre @ put_be [56, 48, 40, 32, 24, 16, 8, 0] v @ post) (off + i) =
        Inr (char_of (unat (take_bit 8 (drop_bit (8 * (8 - 1 - i)) v))))" by simp
  qed simp
qed

lemma get_u8_char: "i < length buf \<Longrightarrow> get_u8 buf i = Inr (byte_of (buf ! i))"
  by (simp add: get_u8_def char_at_def)

lemma tif_code_round: "code_to_tif (uint (word_of_int (tif_to_code t) :: 8 word)) = Inr t"
  by (cases t) (simp_all add: code_to_tif_def)

lemma stp_code_round: "code_to_stp (uint (word_of_int (stp_to_code t) :: 8 word)) = Inr t"
  by (cases t) (simp_all add: code_to_stp_def)

lemma length_u8: "n \<le> 255 \<Longrightarrow> unat (word_of_nat n :: 8 word) = n"
  by (simp add: unat_of_nat take_bit_nat_eq_self)

text \<open>Reads inside the buffer succeed.\<close>

lemma char_at_ok: "i \<le> length buf \<Longrightarrow> \<exists>c. char_at buf i = Inr c"
  by (auto simp: char_at_def)

lemma get_be_ok: "(\<And>i. i \<in> set is \<Longrightarrow> off + i \<le> length buf) \<Longrightarrow> \<exists>v. get_be is buf off = Inr v"
proof -
  assume inside: "\<And>i. i \<in> set is \<Longrightarrow> off + i \<le> length buf"
  have "\<exists>v. rfold (\<lambda>i v. rbind (char_at buf (off + i)) (\<lambda>c. Inr (push_bit 8 v OR byte_of c))) is w = Inr v" for w
    using inside
  proof (induction "is" arbitrary: w)
    case Nil
    then show ?case by simp
  next
    case (Cons i js)
    from Cons.prems [of i] obtain c where "char_at buf (off + i) = Inr c" using char_at_ok by auto
    with Cons show ?case by simp
  qed
  then show ?thesis by (simp add: get_be_def)
qed

lemma get_ok:
  "i < length buf \<Longrightarrow> \<exists>v. get_u8 buf i = Inr v"
  "i + 4 \<le> length buf \<Longrightarrow> \<exists>v. get_u32 buf i = Inr v"
  "i + 8 \<le> length buf \<Longrightarrow> \<exists>v. get_u64 buf i = Inr v"
  unfolding get_u32_def get_u64_def by (auto simp: get_u8_char intro!: get_be_ok)

lemma u8_le: "unat (w :: 8 word) \<le> 255"
proof -
  have "unat w < 2 ^ LENGTH(8)" by (rule unsigned_less)
  then show ?thesis by simp
qed

lemma length_substr_u8: "length (substr s i (unat (w :: 8 word))) \<le> 255"
  using u8_le [of w] by (simp add: substr_def)

lemma substr_mid: "length pre = n \<Longrightarrow> length mid = k \<Longrightarrow> substr (pre @ mid @ post) n k = mid"
  by (auto simp: substr_def)

section \<open>The contract of a codec\<close>

text \<open>\<open>wire x\<close> says that \<open>x\<close> has a representation on the wire: strings of at most 255 bytes and
  integers of 64 bits.\<close>

locale codec =
  fixes wire :: "'a \<Rightarrow> bool" and pack :: "'a \<Rightarrow> string result" and unpack :: "string \<Rightarrow> 'a result"
  assumes pack_unpack: "wire x \<Longrightarrow> \<exists>s. pack x = Inr s \<and> length s \<le> 4096 \<and> unpack s = Inr x"
    and unpack_throws: "unpack s = Inl err \<Longrightarrow> \<exists>m. err = RuntimeError m"
    and unpack_wire: "unpack s = Inr x \<Longrightarrow> wire x"
begin

lemma pack_inject: "wire x \<Longrightarrow> wire y \<Longrightarrow> pack x = pack y \<Longrightarrow> x = y"
  using pack_unpack [of x] pack_unpack [of y] by auto

lemma repack: "unpack s = Inr x \<Longrightarrow> \<exists>s'. pack x = Inr s' \<and> unpack s' = Inr x"
  using unpack_wire [of s x] pack_unpack [of x] by auto

end

definition wire_add :: "add_order \<Rightarrow> bool" where
  "wire_add c \<longleftrightarrow> length (ao_symbol c) \<le> 255 \<and> length (ao_participant_id c) \<le> 255 \<and>
     fits_ll (ao_order_id c) \<and> fits_ll (ao_price_ticks c) \<and> fits_ll (ao_quantity c)"

definition wire_cancel :: "cancel_order \<Rightarrow> bool" where
  "wire_cancel c \<longleftrightarrow> length (co_symbol c) \<le> 255 \<and> fits_ll (co_order_id c)"

definition wire_replace :: "replace_order \<Rightarrow> bool" where
  "wire_replace c \<longleftrightarrow> length (rp_symbol c) \<le> 255 \<and> fits_ll (rp_order_id c) \<and>
     fits_ll (rp_new_order_id c) \<and> fits_ll (rp_new_price_ticks c) \<and> fits_ll (rp_new_quantity c)"

lemma unpack_pack_add:
  assumes "wire_add c"
  shows "\<exists>s. pack_add_order c = Inr s \<and> length s \<le> 4096 \<and> unpack_add_order s = Inr c"
proof -
  let ?u = "put_be [56, 48, 40, 32, 24, 16, 8, 0] :: 64 word \<Rightarrow> string"
  let ?ch = "\<lambda>w :: 8 word. char_of (unat w) :: char"
  let ?h = "[?ch (word_of_nat (length (ao_symbol c))), ?ch (word_of_nat (length (ao_participant_id c))),
    ?ch (if ao_side c = Buy then 1 else 2), ?ch (word_of_int (tif_to_code (ao_time_in_force c))),
    ?ch (word_of_int (stp_to_code (ao_stp c)))]"
  let ?a = "?u (word_of_int (ao_order_id c))" and ?b = "?u (word_of_int (ao_price_ticks c))"
    and ?q = "?u (word_of_int (ao_quantity c))" and ?t = "ao_symbol c @ ao_participant_id c"
  define s where "s = ?h @ ?a @ ?b @ ?q @ ?t"
  have len: "length (ao_symbol c) \<le> 255" "length (ao_participant_id c) \<le> 255"
    and fit: "fits_ll (ao_order_id c)" "fits_ll (ao_price_ticks c)" "fits_ll (ao_quantity c)"
    using assms by (simp_all add: wire_add_def)
  have pack: "pack_add_order c = Inr s"
    using len by (simp add: pack_add_order_def s_def put_u8_def put_u64_def)
  have u64: "get_u64 s 5 = Inr (word_of_int (ao_order_id c))" "get_u64 s 13 = Inr (word_of_int (ao_price_ticks c))"
    "get_u64 s 21 = Inr (word_of_int (ao_quantity c))"
    using get_put_u64 [of ?h 5 "word_of_int (ao_order_id c)" "?b @ ?q @ ?t"]
      get_put_u64 [of "?h @ ?a" 13 "word_of_int (ao_price_ticks c)" "?q @ ?t"]
      get_put_u64 [of "?h @ ?a @ ?b" 21 "word_of_int (ao_quantity c)" ?t] by (simp_all add: s_def)
  have u8: "get_u8 s 0 = Inr (word_of_nat (length (ao_symbol c)))"
    "get_u8 s 1 = Inr (word_of_nat (length (ao_participant_id c)))"
    "get_u8 s 2 = Inr (if ao_side c = Buy then 1 else 2)"
    "get_u8 s 3 = Inr (word_of_int (tif_to_code (ao_time_in_force c)))"
    "get_u8 s 4 = Inr (word_of_int (stp_to_code (ao_stp c)))"
    by (simp_all add: get_u8_char s_def byte_of_u8)
  have sz: "length s = 29 + length (ao_symbol c) + length (ao_participant_id c)" by (simp add: s_def)
  have sub: "substr s 29 (length (ao_symbol c)) = ao_symbol c"
    "substr s (29 + length (ao_symbol c)) (length (ao_participant_id c)) = ao_participant_id c"
    using substr_mid [of "?h @ ?a @ ?b @ ?q" 29 "ao_symbol c" _ "ao_participant_id c"]
      substr_mid [of "?h @ ?a @ ?b @ ?q @ ao_symbol c" "29 + length (ao_symbol c)" "ao_participant_id c" _ "[]"]
    by (simp_all add: s_def)
  have side: "(if (if ao_side c = Buy then 1 else 2 :: 8 word) = 1 then Buy else Sell) = ao_side c"
    by (cases "ao_side c") simp_all
  have "unpack_add_order s = Inr c"
    unfolding unpack_add_order_def header_size_def
    using len fit sz by (simp add: u8 u64 length_u8 tif_code_round stp_code_round sub sint_word_of_int_ll side del: One_nat_def)
  with pack sz len show ?thesis by simp
qed

lemma unpack_add_total:
  "(\<exists>c. unpack_add_order s = Inr c \<and> wire_add c) \<or> (\<exists>m. unpack_add_order s = Inl (RuntimeError m))"
proof (cases "length s < header_size \<or> 4096 < length s")
  case True
  then show ?thesis by (auto simp: unpack_add_order_def)
next
  case False
  then have big: "29 \<le> length s" by (simp add: header_size_def)
  obtain n p sd tif stp where u8: "get_u8 s 0 = Inr n" "get_u8 s 1 = Inr p" "get_u8 s 2 = Inr sd"
    "get_u8 s 3 = Inr tif" "get_u8 s 4 = Inr stp" using get_ok(1) [of _ s] big by fastforce
  obtain a b q where u64: "get_u64 s 5 = Inr a" "get_u64 s 13 = Inr b" "get_u64 s 21 = Inr q"
    using get_ok(3) [of 5 s] get_ok(3) [of 13 s] get_ok(3) [of 21 s] big by fastforce
  show ?thesis using False length_substr_u8 [of s]
    by (auto simp: unpack_add_order_def u8 u64 code_to_tif_def code_to_stp_def wire_add_def fits_ll_sint
        simp del: One_nat_def)
qed

interpretation add_codec: codec wire_add pack_add_order unpack_add_order
proof
  show "\<exists>s. pack_add_order c = Inr s \<and> length s \<le> 4096 \<and> unpack_add_order s = Inr c" if "wire_add c" for c
    using that by (rule unpack_pack_add)
  show "\<exists>m. err = RuntimeError m" if "unpack_add_order s = Inl err" for s err
    using unpack_add_total [of s] that by auto
  show "wire_add c" if "unpack_add_order s = Inr c" for s c
    using unpack_add_total [of s] that by auto
qed

lemma unpack_pack_cancel:
  assumes "wire_cancel c"
  shows "\<exists>s. pack_cancel_order c = Inr s \<and> length s \<le> 4096 \<and> unpack_cancel_order s = Inr c"
proof -
  let ?u = "put_be [56, 48, 40, 32, 24, 16, 8, 0] (word_of_int (co_order_id c) :: 64 word)"
  let ?h = "[char_of (unat (word_of_nat (length (co_symbol c)) :: 8 word)) :: char]"
  define s where "s = ?h @ ?u @ co_symbol c"
  have len: "length (co_symbol c) \<le> 255" "fits_ll (co_order_id c)" using assms by (simp_all add: wire_cancel_def)
  have pack: "pack_cancel_order c = Inr s"
    using len by (simp add: pack_cancel_order_def s_def put_u8_def put_u64_def)
  have gets: "get_u64 s 1 = Inr (word_of_int (co_order_id c))" "get_u8 s 0 = Inr (word_of_nat (length (co_symbol c)))"
    "substr s 9 (length (co_symbol c)) = co_symbol c"
    using get_put_u64 [of ?h 1 "word_of_int (co_order_id c)" "co_symbol c"]
      substr_mid [of "?h @ ?u" 9 "co_symbol c" _ "[]"]
    by (simp_all add: s_def get_u8_char byte_of_u8)
  moreover have "length s = 9 + length (co_symbol c)" by (simp add: s_def)
  ultimately have "unpack_cancel_order s = Inr c"
    using len by (simp add: unpack_cancel_order_def length_u8 sint_word_of_int_ll)
  with pack len \<open>length s = _\<close> show ?thesis by simp
qed

lemma unpack_cancel_total:
  "(\<exists>c. unpack_cancel_order s = Inr c \<and> wire_cancel c) \<or> (\<exists>m. unpack_cancel_order s = Inl (RuntimeError m))"
proof (cases "length s < 9")
  case True
  then show ?thesis by (auto simp: unpack_cancel_order_def)
next
  case False
  then obtain n a where "get_u8 s 0 = Inr n" "get_u64 s 1 = Inr a"
    using get_ok(1) [of 0 s] get_ok(3) [of 1 s] by fastforce
  then show ?thesis using False length_substr_u8 [of s]
    by (auto simp: unpack_cancel_order_def wire_cancel_def fits_ll_sint)
qed

interpretation cancel_codec: codec wire_cancel pack_cancel_order unpack_cancel_order
proof
  show "\<exists>s. pack_cancel_order c = Inr s \<and> length s \<le> 4096 \<and> unpack_cancel_order s = Inr c" if "wire_cancel c" for c
    using that by (rule unpack_pack_cancel)
  show "\<exists>m. err = RuntimeError m" if "unpack_cancel_order s = Inl err" for s err
    using unpack_cancel_total [of s] that by auto
  show "wire_cancel c" if "unpack_cancel_order s = Inr c" for s c
    using unpack_cancel_total [of s] that by auto
qed

lemma unpack_pack_replace:
  assumes "wire_replace c"
  shows "\<exists>s. pack_replace_order c = Inr s \<and> length s \<le> 4096 \<and> unpack_replace_order s = Inr c"
proof -
  let ?u = "put_be [56, 48, 40, 32, 24, 16, 8, 0] :: 64 word \<Rightarrow> string"
  let ?h = "[char_of (unat (word_of_nat (length (rp_symbol c)) :: 8 word)) :: char,
    char_of (unat (word_of_int (tif_to_code (rp_time_in_force c)) :: 8 word))]"
  let ?a = "?u (word_of_int (rp_order_id c))" and ?b = "?u (word_of_int (rp_new_order_id c))"
    and ?p = "?u (word_of_int (rp_new_price_ticks c))" and ?q = "?u (word_of_int (rp_new_quantity c))"
  define s where "s = ?h @ ?a @ ?b @ ?p @ ?q @ rp_symbol c"
  have len: "length (rp_symbol c) \<le> 255" and fit: "fits_ll (rp_order_id c)" "fits_ll (rp_new_order_id c)"
    "fits_ll (rp_new_price_ticks c)" "fits_ll (rp_new_quantity c)"
    using assms by (simp_all add: wire_replace_def)
  have pack: "pack_replace_order c = Inr s"
    using len by (simp add: pack_replace_order_def s_def put_u8_def put_u64_def)
  have u64: "get_u64 s 2 = Inr (word_of_int (rp_order_id c))" "get_u64 s 10 = Inr (word_of_int (rp_new_order_id c))"
    "get_u64 s 18 = Inr (word_of_int (rp_new_price_ticks c))" "get_u64 s 26 = Inr (word_of_int (rp_new_quantity c))"
    using get_put_u64 [of ?h 2 "word_of_int (rp_order_id c)" "?b @ ?p @ ?q @ rp_symbol c"]
      get_put_u64 [of "?h @ ?a" 10 "word_of_int (rp_new_order_id c)" "?p @ ?q @ rp_symbol c"]
      get_put_u64 [of "?h @ ?a @ ?b" 18 "word_of_int (rp_new_price_ticks c)" "?q @ rp_symbol c"]
      get_put_u64 [of "?h @ ?a @ ?b @ ?p" 26 "word_of_int (rp_new_quantity c)" "rp_symbol c"]
    by (simp_all add: s_def)
  have u8: "get_u8 s 0 = Inr (word_of_nat (length (rp_symbol c)))"
    "get_u8 s 1 = Inr (word_of_int (tif_to_code (rp_time_in_force c)))"
    by (simp_all add: get_u8_char s_def byte_of_u8)
  have sub: "substr s 34 (length (rp_symbol c)) = rp_symbol c"
    using substr_mid [of "?h @ ?a @ ?b @ ?p @ ?q" 34 "rp_symbol c" _ "[]"] by (simp add: s_def)
  have sz: "length s = 34 + length (rp_symbol c)" by (simp add: s_def)
  have "unpack_replace_order s = Inr c"
    unfolding unpack_replace_order_def replace_head_def
    using len fit sz by (simp add: u8 u64 length_u8 tif_code_round sub sint_word_of_int_ll del: One_nat_def)
  with pack len sz show ?thesis by simp
qed

lemma unpack_replace_total:
  "(\<exists>c. unpack_replace_order s = Inr c \<and> wire_replace c) \<or> (\<exists>m. unpack_replace_order s = Inl (RuntimeError m))"
proof (cases "length s < replace_head")
  case True
  then show ?thesis by (auto simp: unpack_replace_order_def)
next
  case False
  then have big: "34 \<le> length s" by (simp add: replace_head_def)
  obtain n tif where u8: "get_u8 s 0 = Inr n" "get_u8 s 1 = Inr tif"
    using get_ok(1) [of 0 s] get_ok(1) [of 1 s] big by fastforce
  obtain a b p q where u64: "get_u64 s 2 = Inr a" "get_u64 s 10 = Inr b" "get_u64 s 18 = Inr p" "get_u64 s 26 = Inr q"
    using get_ok(3) [of 2 s] get_ok(3) [of 10 s] get_ok(3) [of 18 s] get_ok(3) [of 26 s] big by fastforce
  show ?thesis using False length_substr_u8 [of s]
    by (auto simp: unpack_replace_order_def u8 u64 code_to_tif_def wire_replace_def fits_ll_sint
        simp del: One_nat_def)
qed

interpretation replace_codec: codec wire_replace pack_replace_order unpack_replace_order
proof
  show "\<exists>s. pack_replace_order c = Inr s \<and> length s \<le> 4096 \<and> unpack_replace_order s = Inr c" if "wire_replace c" for c
    using that by (rule unpack_pack_replace)
  show "\<exists>m. err = RuntimeError m" if "unpack_replace_order s = Inl err" for s err
    using unpack_replace_total [of s] that by auto
  show "wire_replace c" if "unpack_replace_order s = Inr c" for s c
    using unpack_replace_total [of s] that by auto
qed

end
