(* ===== verification/Protocol_Frames.thy ===== *)
theory Protocol_Frames
  imports Protocol_Codec
begin

text \<open>
  Frames and whole commands on the wire: what \<open>parse_frame\<close> makes of a complete, an incomplete and a
  damaged frame, that it never reads outside the buffer and always advances, and the round trip of
  \<open>encode_command\<close> and \<open>decode_command\<close>.
\<close>

section \<open>Parsing\<close>

definition raw_frame :: "message_type \<Rightarrow> string \<Rightarrow> 32 word \<Rightarrow> string" where
  "raw_frame ty payload crc =
     [char_of (unat (message_code ty))] @ put_be [24, 16, 8, 0] (word_of_nat (length payload) :: 32 word) @
     payload @ put_be [24, 16, 8, 0] crc"

lemma frame_message_raw: "frame_message ty p = raw_frame ty p (crc32 p 0)"
  by (simp add: frame_message_def raw_frame_def put_u8_def put_u32_def)

lemma length_raw_frame [simp]: "length (raw_frame ty p crc) = 9 + length p"
  by (simp add: raw_frame_def)

lemma length_frame [simp]: "length (frame_message ty p) = 9 + length p"
  by (simp add: frame_message_raw)

lemma length_u32: "n < 2 ^ 32 \<Longrightarrow> unat (word_of_nat n :: 32 word) = n"
  by (simp add: unat_of_nat take_bit_nat_eq_self)

lemma parse_raw_frame:
  assumes "length p < 2 ^ 32" "length pre = off"
  shows "parse_frame (pre @ raw_frame ty p crc @ rest) off =
    (if crc32 p 0 = crc then Inr (Some (message_of_code (message_code ty), p, off + 9 + length p))
     else Inl (RuntimeError ''frame crc mismatch''))"
proof -
  let ?b = "put_be [24, 16, 8, 0] :: 32 word \<Rightarrow> string"
  let ?h = "[char_of (unat (message_code ty)) :: char]" and ?l = "word_of_nat (length p) :: 32 word"
  let ?d = "pre @ ?h @ ?b ?l @ p @ ?b crc @ rest"
  have d: "pre @ raw_frame ty p crc @ rest = ?d" by (simp add: raw_frame_def)
  have t: "get_u8 ?d off = Inr (message_code ty)"
    using assms(2) by (simp add: get_u8_char nth_append byte_of_u8)
  have l: "get_u32 ?d (off + 1) = Inr ?l"
    using get_put_u32 [of "pre @ ?h" "off + 1" ?l "p @ ?b crc @ rest"] assms(2) by simp
  have c: "get_u32 ?d (off + 5 + length p) = Inr crc"
    using get_put_u32 [of "pre @ ?h @ ?b ?l @ p" "off + 5 + length p" crc rest] assms(2) by simp
  have s: "substr ?d (off + 5) (length p) = p"
    using substr_mid [of "pre @ ?h @ ?b ?l" "off + 5" p "length p" "?b crc @ rest"] assms(2) by simp
  have "size_sub (length ?d) off = 9 + length p + length rest"
    "size_sub (length ?d) (off + 5) = 4 + length p + length rest"
    using assms(2) by (simp_all add: size_sub_def)
  then show ?thesis unfolding d parse_frame_def
    using assms(1) t l c s by (simp add: length_u32 Let_def del: One_nat_def append.simps append_assoc)
qed

lemma parse_short_frame:
  assumes "length p < 2 ^ 32" "n < length (raw_frame ty p crc)" "length pre = off"
  shows "parse_frame (pre @ take n (raw_frame ty p crc)) off = Inr None"
proof (cases "n < 5")
  case True
  then show ?thesis using assms by (simp add: parse_frame_def size_sub_def)
next
  case False
  let ?b = "put_be [24, 16, 8, 0] :: 32 word \<Rightarrow> string"
  let ?h = "[char_of (unat (message_code ty)) :: char]" and ?l = "word_of_nat (length p) :: 32 word"
  let ?t = "take (n - 5) (p @ ?b crc)" and ?d = "pre @ ?h @ ?b ?l @ take (n - 5) (p @ ?b crc)"
  have len: "length (?h @ ?b ?l) = 5" by simp
  have "take n (raw_frame ty p crc) = take n ((?h @ ?b ?l) @ (p @ ?b crc))" by (simp add: raw_frame_def)
  also have "\<dots> = take n (?h @ ?b ?l) @ take (n - length (?h @ ?b ?l)) (p @ ?b crc)" by (rule take_append)
  also have "take n (?h @ ?b ?l) = ?h @ ?b ?l" using False len by (intro take_all) simp
  finally have "take n (raw_frame ty p crc) = (?h @ ?b ?l) @ ?t" by (simp only: len)
  then have d: "pre @ take n (raw_frame ty p crc) = ?d" by simp
  have "get_u8 ?d off = Inr (message_code ty)"
    using assms(3) by (simp add: get_u8_char nth_append byte_of_u8)
  moreover have "get_u32 ?d (off + 1) = Inr ?l"
    using get_put_u32 [of "pre @ ?h" "off + 1" ?l ?t] assms(3) by simp
  moreover have "size_sub (length ?d) off = n" "size_sub (length ?d) (off + 5) = n - 5"
    using assms(2,3) False by (auto simp: size_sub_def)
  moreover have "n - 5 < length p + 4" using assms(2) False by simp
  ultimately show ?thesis unfolding d parse_frame_def
    using assms(1) False
    by (simp add: length_u32 Let_def del: One_nat_def append.simps append_assoc)
qed

text \<open>Every outcome on arbitrary bytes.\<close>

lemma parse_frame_total:
  assumes "off \<le> length data"
  shows "parse_frame data off = Inr None \<or> parse_frame data off = Inl (RuntimeError ''frame crc mismatch'') \<or>
    (\<exists>ty p. parse_frame data off = Inr (Some (ty, p, off + 9 + length p)) \<and> off + 9 + length p \<le> length data)"
proof (cases "length data - off < 5")
  case True
  with assms show ?thesis by (simp add: parse_frame_def size_sub_def)
next
  case False
  then obtain t l where t: "get_u8 data off = Inr t" "get_u32 data (off + 1) = Inr l"
    using get_ok(1) [of off data] get_ok(2) [of "off + 1" data] by fastforce
  show ?thesis
  proof (cases "length data - (off + 5) < unat l + 4")
    case True
    with False assms t show ?thesis by (simp add: parse_frame_def size_sub_def Let_def del: One_nat_def)
  next
    case enough: False
    then obtain c where c: "get_u32 data (off + 5 + unat l) = Inr c"
      using get_ok(2) [of "off + 5 + unat l" data] False by fastforce
    have "length (substr data (off + 5) (unat l)) = unat l" using enough by (simp add: substr_def)
    with False enough assms t c show ?thesis
      by (auto simp: parse_frame_def size_sub_def Let_def simp del: One_nat_def)
  qed
qed

lemma parse_frame_beyond: "length data < off \<Longrightarrow> parse_frame data off \<noteq> Inr (Some r)"
  by (auto simp: parse_frame_def get_u8_def char_at_def)

lemma parse_frame_advances:
  assumes "parse_frame data off = Inr (Some (ty, p, off'))"
  shows "off' = off + 9 + length p \<and> off' \<le> length data"
proof -
  have "off \<le> length data" using parse_frame_beyond [of data off] assms by (cases "off \<le> length data") auto
  from parse_frame_total [OF this] assms show ?thesis by auto
qed

section \<open>Properties\<close>

fun wire_command :: "command \<Rightarrow> bool" where
  "wire_command (CAdd c) = wire_add c"
| "wire_command (CCancel c) = wire_cancel c"
| "wire_command (CReplace c) = wire_replace c"

fun command_type :: "command \<Rightarrow> message_type" where
  "command_type (CAdd c) = MsgAdd"
| "command_type (CCancel c) = MsgCancel"
| "command_type (CReplace c) = MsgReplace"

lemma encode_decode:
  assumes "wire_command c"
  shows "\<exists>p. encode_command c = Inr (frame_message (command_type c) p) \<and> length p \<le> 4096 \<and>
    decode_command (command_type c) p = Inr c"
  using assms add_codec.pack_unpack cancel_codec.pack_unpack replace_codec.pack_unpack
  by (cases c) fastforce+

lemma message_code_command [simp]: "message_of_code (message_code (command_type c)) = command_type c"
  by (cases c) (simp_all add: message_of_code_def)

text \<open>C14: The wire round trip. Every command whose strings have at most 255 bytes and whose integers are
  64-bit encodes to a frame that, at any place in a stream of bytes, parses to exactly its own type
  and payload, with the offset just behind the frame, and decodes to the same command.\<close>

theorem command_wire_round_trip:
  assumes "wire_command c"
  shows "\<exists>frame. encode_command c = Inr frame \<and>
    (\<exists>ty payload. parse_frame (pre @ frame @ rest) (length pre) =
       Inr (Some (ty, payload, length pre + length frame)) \<and> decode_command ty payload = Inr c)"
proof -
  from encode_decode [OF assms] obtain p where p: "encode_command c = Inr (frame_message (command_type c) p)"
    "length p \<le> 4096" "decode_command (command_type c) p = Inr c" by blast
  with parse_raw_frame [of p pre "length pre" "command_type c" "crc32 p 0" rest] show ?thesis
    by (simp add: frame_message_raw)
qed

theorem command_wire_round_trip_witness:
  "\<exists>frame. encode_command (CCancel \<lparr>co_symbol = ''AAPL'', co_order_id = -7\<rparr>) = Inr frame \<and>
     (\<exists>ty payload. parse_frame (''xy'' @ frame @ ''z'') 2 = Inr (Some (ty, payload, 2 + length frame)) \<and>
        decode_command ty payload = Inr (CCancel \<lparr>co_symbol = ''AAPL'', co_order_id = -7\<rparr>))"
  using command_wire_round_trip [of "CCancel \<lparr>co_symbol = ''AAPL'', co_order_id = -7\<rparr>" "''xy''" "''z''"]
  by (simp add: wire_cancel_def fits_ll_iff numeral_2_eq_2)

text \<open>C28: The decoder is total: on arbitrary bytes and any type byte it returns a command with a wire
  representation or throws a \<open>runtime_error\<close>; it never reads outside the payload, and what it returns
  can be encoded again to bytes that mean the same.\<close>

theorem decode_total:
  "(\<exists>c. decode_command ty payload = Inr c \<and> wire_command c \<and>
      (\<exists>p. decode_command (command_type c) p = Inr c \<and> encode_command c = Inr (frame_message (command_type c) p))) \<or>
   (\<exists>m. decode_command ty payload = Inl (RuntimeError m))"
proof (cases "\<exists>m. decode_command ty payload = Inl (RuntimeError m)")
  case False
  then have "\<exists>c. decode_command ty payload = Inr c \<and> wire_command c"
    using unpack_add_total [of payload] unpack_cancel_total [of payload] unpack_replace_total [of payload]
    by (cases ty) auto
  then show ?thesis using encode_decode by blast
qed simp

text \<open>Incomplete frames: from a proper prefix of a frame \<open>parse_frame\<close> extracts nothing and reports
  that bytes are missing, so a stream cut at any byte is never misread.\<close>

theorem frame_prefix_waits:
  assumes "length payload < 2 ^ 32" "n < length (frame_message ty payload)"
  shows "parse_frame (pre @ take n (frame_message ty payload)) (length pre) = Inr None"
  using parse_short_frame [of payload n ty "crc32 payload 0" pre "length pre"] assms
  by (simp add: frame_message_raw)

theorem frame_prefix_waits_witness:
  "parse_frame (''ab'' @ take 8 (frame_message MsgAdd ''hello'')) (length ''ab'') = Inr None"
  using frame_prefix_waits [of "''hello''" 8 MsgAdd "''ab''"] by simp

text \<open>C29: Damaged frames: if up to four consecutive bytes of the payload are altered on the way, the frame
  is refused with \<open>frame crc mismatch\<close> and never delivered.\<close>

theorem frame_damage_detected:
  assumes "length (a @ u @ b) < 2 ^ 32" "length v = length u" "length u \<le> 4" "v \<noteq> u"
  shows "parse_frame (pre @ raw_frame ty (a @ v @ b) (crc32 (a @ u @ b) 0) @ rest) (length pre) =
    Inl (RuntimeError ''frame crc mismatch'')"
proof -
  have "foldl crc_bits c (a @ v @ b) \<noteq> foldl crc_bits c (a @ u @ b)" for c
    using assms(2-4) by (intro crc_fold_burst) auto
  then have "crc32 (a @ v @ b) 0 \<noteq> crc32 (a @ u @ b) 0"
    by (simp add: crc32_def crc_fold_bitwise del: foldl_append)
  with parse_raw_frame [of "a @ v @ b" pre "length pre" ty "crc32 (a @ u @ b) 0" rest] assms(1,2)
  show ?thesis by simp
qed

theorem frame_damage_detected_witness:
  "parse_frame ([] @ raw_frame MsgAdd (''he'' @ ''LL'' @ ''o'') (crc32 (''he'' @ ''ll'' @ ''o'') 0) @ []) 0 =
     Inl (RuntimeError ''frame crc mismatch'')"
  using frame_damage_detected [of "''he''" "''ll''" "''o''" "''LL''" "[]" MsgAdd "[]"] by simp

end
