(* ===== verification/Order_Entry.thy ===== *)
theory Order_Entry
  imports Protocol_Frames
begin

text \<open>
  The order-entry side of \<open>src/net.cpp\<close>: \<open>drain_connection\<close>, which reads what a socket has, cuts it
  into frames and hands the decoded commands to the handler.

  The socket is a parameter: the results its \<open>recv\<close> calls give, in order. \<open>Received bytes\<close> is a
  positive result, \<open>EndOfStream\<close> the result 0, \<open>WouldBlock\<close> a negative one; a list that ends means
  \<open>WouldBlock\<close>. The handler is a parameter too, a function on a state of its own; its boolean result
  says whether it returned (\<open>False\<close>: it threw). Setting up sockets, \<open>poll\<close> and the threads are not
  modelled.
\<close>

section \<open>The program\<close>

datatype recv_result = Received string | EndOfStream | WouldBlock

record conn =
  fd_open :: bool
  conn_buffer :: string

definition new_conn :: conn where
  "new_conn = \<lparr>fd_open = True, conn_buffer = []\<rparr>"

text \<open>The reading loop: the buffer afterwards and whether the peer closed the stream.\<close>

fun recv_loop :: "recv_result list \<Rightarrow> string \<Rightarrow> string \<times> bool" where
  "recv_loop (Received bytes # rs) buf = recv_loop rs (buf @ bytes)"
| "recv_loop (EndOfStream # rs) buf = (buf, True)"
| "recv_loop (WouldBlock # rs) buf = (buf, False)"
| "recv_loop [] buf = (buf, False)"

text \<open>The parsing loop: the handler's state, the offset reached, and whether no exception was thrown.\<close>

function frame_loop ::
    "(command \<Rightarrow> 's \<Rightarrow> 's \<times> bool) \<Rightarrow> string \<Rightarrow> nat \<Rightarrow> 's \<Rightarrow> 's \<times> nat \<times> bool" where
  "frame_loop handler data offset s =
     (case parse_frame data offset of
        Inl err \<Rightarrow> (s, offset, False)
      | Inr None \<Rightarrow> (s, offset, True)
      | Inr (Some (ty, payload, offset')) \<Rightarrow>
          (if ty = MsgEvent then frame_loop handler data offset' s
           else
             (case decode_command ty payload of
                Inl err \<Rightarrow> (s, offset', False)
              | Inr c \<Rightarrow>
                  (case handler c s of
                     (s', returned) \<Rightarrow>
                       (if returned then frame_loop handler data offset' s' else (s', offset', False))))))"
  by pat_completeness auto

termination frame_loop
  by (relation "measure (\<lambda>(handler, data, offset, s). length data - offset)")
    (auto dest!: parse_frame_advances)

declare frame_loop.simps [simp del]

definition drain_connection ::
    "(command \<Rightarrow> 's \<Rightarrow> 's \<times> bool) \<Rightarrow> recv_result list \<Rightarrow> conn \<Rightarrow> 's \<Rightarrow> conn \<times> 's" where
  "drain_connection handler rs c s =
     (case recv_loop rs (conn_buffer c) of
        (buf, True) \<Rightarrow> (c\<lparr>fd_open := False, conn_buffer := buf\<rparr>, s)
      | (buf, False) \<Rightarrow>
          (case frame_loop handler buf 0 s of
             (s', offset, ok) \<Rightarrow>
               (if ok then (c\<lparr>conn_buffer := drop offset buf\<rparr>, s')
                else (c\<lparr>fd_open := False, conn_buffer := buf\<rparr>, s'))))"

text \<open>One connection served over several polls, each with the results of its \<open>recv\<close> calls.\<close>

fun serve :: "(command \<Rightarrow> 's \<Rightarrow> 's \<times> bool) \<Rightarrow> recv_result list list \<Rightarrow> conn \<Rightarrow> 's \<Rightarrow> conn \<times> 's" where
  "serve handler [] c s = (c, s)"
| "serve handler (rs # rss) c s =
     (if fd_open c then (case drain_connection handler rs c s of (c', s') \<Rightarrow> serve handler rss c' s')
      else (c, s))"

section \<open>Reassembly\<close>

definition frame_of :: "command \<Rightarrow> string" where
  "frame_of c = (case encode_command c of Inl err \<Rightarrow> [] | Inr s \<Rightarrow> s)"

definition stream_of :: "command list \<Rightarrow> string" where
  "stream_of cs = concat (map frame_of cs)"

text \<open>A handler that never throws, given by its effect.\<close>

definition total_handler :: "(command \<Rightarrow> 's \<Rightarrow> 's) \<Rightarrow> command \<Rightarrow> 's \<Rightarrow> 's \<times> bool" where
  "total_handler f c s = (f c s, True)"

lemma frame_of_raw:
  assumes "wire_command c"
  shows "\<exists>p. frame_of c = raw_frame (command_type c) p (crc32 p 0) \<and> length p \<le> 4096 \<and>
    decode_command (command_type c) p = Inr c"
  using encode_decode [OF assms] by (auto simp: frame_of_def frame_message_raw)

lemma frame_of_pos: "wire_command c \<Longrightarrow> 0 < length (frame_of c)"
  using frame_of_raw [of c] by (metis length_raw_frame add_gr_0 zero_less_numeral)

text \<open>From any place in the buffer the loop delivers the whole frames that follow and stops at the
  beginning of a cut one.\<close>

definition cut_frame :: "string \<Rightarrow> command list \<Rightarrow> bool" where
  "cut_frame part cs \<longleftrightarrow>
     part = [] \<or> (\<exists>c cs' n. cs = c # cs' \<and> n < length (frame_of c) \<and> part = take n (frame_of c))"

lemma parse_cut:
  assumes "cut_frame part cs" "\<forall>c \<in> set cs. wire_command c"
  shows "parse_frame (pre @ part) (length pre) = Inr None"
proof (cases "part = []")
  case True
  then show ?thesis by (simp add: parse_frame_def size_sub_def)
next
  case False
  with assms(1) obtain c cs' n where c: "cs = c # cs'" "n < length (frame_of c)" "part = take n (frame_of c)"
    by (auto simp: cut_frame_def)
  with assms(2) frame_of_raw [of c] obtain p where
    "frame_of c = raw_frame (command_type c) p (crc32 p 0)" "length p \<le> 4096" by auto
  with c parse_short_frame [of p n "command_type c" "crc32 p 0" pre "length pre"] show ?thesis by simp
qed

lemma frame_loop_step:
  assumes "wire_command c"
  shows "frame_loop (total_handler f) (pre @ frame_of c @ rest) (length pre) s =
    frame_loop (total_handler f) ((pre @ frame_of c) @ rest) (length (pre @ frame_of c)) (f c s)"
proof -
  from frame_of_raw [OF assms] obtain p where
    p: "frame_of c = raw_frame (command_type c) p (crc32 p 0)" "length p \<le> 4096"
      "decode_command (command_type c) p = Inr c" by auto
  have "parse_frame (pre @ frame_of c @ rest) (length pre) =
      Inr (Some (command_type c, p, length pre + 9 + length p))"
    using parse_raw_frame [of p pre "length pre" "command_type c" "crc32 p 0" rest] p by simp
  moreover have "command_type c \<noteq> MsgEvent" by (cases c) simp_all
  ultimately show ?thesis
    using p(1,3) by (subst frame_loop.simps) (simp add: total_handler_def add.assoc)
qed

lemma frame_loop_stream:
  assumes "\<forall>c \<in> set (cs @ later). wire_command c" "cut_frame part later"
  shows "frame_loop (total_handler f) (pre @ stream_of cs @ part) (length pre) s =
    (fold f cs s, length pre + length (stream_of cs), True)"
  using assms(1)
proof (induction cs arbitrary: pre s)
  case Nil
  with parse_cut [OF assms(2), of pre] show ?case
    by (subst frame_loop.simps) (simp add: stream_of_def)
next
  case (Cons c cs)
  from Cons.prems frame_loop_step [of c f pre "stream_of cs @ part" s]
  have "frame_loop (total_handler f) (pre @ stream_of (c # cs) @ part) (length pre) s =
      frame_loop (total_handler f) ((pre @ frame_of c) @ stream_of cs @ part) (length (pre @ frame_of c)) (f c s)"
    by (simp add: stream_of_def)
  also have "\<dots> = (fold f cs (f c s), length (pre @ frame_of c) + length (stream_of cs), True)"
    by (rule Cons.IH) (use Cons.prems in simp)
  finally show ?case by (simp add: stream_of_def add.assoc)
qed

text \<open>A prefix of a stream is a number of whole frames and a cut one.\<close>

lemma stream_prefix:
  assumes "\<forall>c \<in> set cs. wire_command c" "data @ rest = stream_of cs"
  shows "\<exists>ds later part. cs = ds @ later \<and> data = stream_of ds @ part \<and> cut_frame part later"
  using assms
proof (induction cs arbitrary: data)
  case Nil
  then show ?case by (auto simp: stream_of_def cut_frame_def)
next
  case (Cons c cs)
  show ?case
  proof (cases "length data < length (frame_of c)")
    case True
    with Cons.prems(2) have "data = take (length data) (frame_of c)"
      by (metis append_eq_conv_conj stream_of_def concat.simps(2) list.simps(9) take_append
          diff_is_0_eq' less_imp_le_nat take_0 append_Nil2)
    with True show ?thesis
      by (intro exI [of _ "[]"] exI [of _ "c # cs"] exI [of _ data]) (auto simp: stream_of_def cut_frame_def)
  next
    case False
    have "take (length (frame_of c)) (data @ rest) = frame_of c"
      using Cons.prems(2) by (simp add: stream_of_def)
    with False have "data = frame_of c @ drop (length (frame_of c)) data"
      by (metis append_take_drop_id not_less take_append diff_is_0_eq take_0 append_Nil2)
    then obtain data' where d: "data = frame_of c @ data'" by blast
    with Cons.IH [of data'] Cons.prems obtain ds later part where
      "cs = ds @ later" "data' = stream_of ds @ part" "cut_frame part later"
      by (auto simp: stream_of_def)
    with d show ?thesis
      by (intro exI [of _ "c # ds"] exI [of _ later] exI [of _ part]) (simp add: stream_of_def)
  qed
qed

lemma recv_loop_data: "recv_loop (map Received chunks) buf = (buf @ concat chunks, False)"
  by (induction chunks arbitrary: buf) simp_all

lemma drain_stream:
  assumes "\<forall>c \<in> set (cs @ later). wire_command c" "cut_frame part later"
    and "conn_buffer c @ concat chunks = stream_of cs @ part"
  shows "drain_connection (total_handler f) (map Received chunks) c s = (c\<lparr>conn_buffer := part\<rparr>, fold f cs s)"
  using frame_loop_stream [OF assms(1,2), of f "[]" s] assms(3)
  by (simp add: drain_connection_def recv_loop_data)

lemma stream_append: "stream_of (cs @ ds) = stream_of cs @ stream_of ds"
  by (simp add: stream_of_def)

lemma serve_stream:
  assumes "\<forall>c \<in> set cs. wire_command c" "fd_open c"
    and "conn_buffer c @ concat (map concat batches) @ rest = stream_of cs" "cut_frame (conn_buffer c) cs"
  shows "\<exists>ds later part. cs = ds @ later \<and> conn_buffer c @ concat (map concat batches) = stream_of ds @ part \<and>
    cut_frame part later \<and>
    serve (total_handler f) (map (map Received) batches) c s = (c\<lparr>conn_buffer := part\<rparr>, fold f ds s)"
  using assms
proof (induction batches arbitrary: c cs s)
  case Nil
  then show ?case
    by (intro exI [of _ "[]"] exI [of _ cs] exI [of _ "conn_buffer c"]) (simp add: stream_of_def)
next
  case (Cons b bs)
  let ?data = "conn_buffer c @ concat b"
  from stream_prefix [of cs ?data "concat (map concat bs) @ rest"] Cons.prems(1,3) obtain ds later part where
    d: "cs = ds @ later" "?data = stream_of ds @ part" "cut_frame part later" by auto
  let ?c = "c\<lparr>conn_buffer := part\<rparr>"
  have drain: "drain_connection (total_handler f) (map Received b) c s = (?c, fold f ds s)"
    using drain_stream [of ds later part c b f s] d Cons.prems(1) by simp
  have "part @ concat (map concat bs) @ rest = stream_of later"
  proof -
    have "(stream_of ds @ part) @ concat (map concat bs) @ rest = stream_of ds @ stream_of later"
      using Cons.prems(3) d(1) unfolding d(2) [symmetric] by (simp add: stream_append)
    then show ?thesis by simp
  qed
  with Cons.IH [of later ?c "fold f ds s"] Cons.prems(1,2) d obtain ds' later' part' where
    e: "later = ds' @ later'" "part @ concat (map concat bs) = stream_of ds' @ part'" "cut_frame part' later'"
      "serve (total_handler f) (map (map Received) bs) ?c (fold f ds s) =
        (?c\<lparr>conn_buffer := part'\<rparr>, fold f ds' (fold f ds s))" by auto
  have "conn_buffer c @ concat (map concat (b # bs)) = stream_of (ds @ ds') @ part'"
    using d(2) e(2) by (simp add: stream_append) (metis append_assoc)
  with d(1) e drain Cons.prems(2) show ?case
    by (intro exI [of _ "ds @ ds'"] exI [of _ later'] exI [of _ part']) simp
qed

section \<open>Properties\<close>

text \<open>Stream reassembly. However the bytes of a sequence of encoded commands are cut into \<open>recv\<close>
  results and polls, once all of them have arrived the handler has been called with exactly those
  commands, once each and in order, the connection is still open and its buffer is empty.\<close>

theorem commands_delivered_in_order:
  assumes "\<forall>c \<in> set cs. wire_command c" "concat (map concat batches) = stream_of cs"
  shows "serve (total_handler f) (map (map Received) batches) new_conn s = (new_conn, fold f cs s)"
proof -
  have "cut_frame (conn_buffer new_conn) cs" by (simp add: cut_frame_def new_conn_def)
  from serve_stream [OF assms(1) _ _ this, of batches "[]" f s] assms(2) obtain ds later part where
    d: "cs = ds @ later" "stream_of cs = stream_of ds @ part" "cut_frame part later"
      "serve (total_handler f) (map (map Received) batches) new_conn s = (new_conn\<lparr>conn_buffer := part\<rparr>, fold f ds s)"
    by (auto simp: new_conn_def)
  have part: "part = stream_of later" using d(1,2) by (simp add: stream_append)
  have "later = []"
  proof (rule ccontr)
    assume "later \<noteq> []"
    then obtain c cs' where l: "later = c # cs'" by (cases later) auto
    then have "0 < length (frame_of c)" using assms(1) d(1) by (intro frame_of_pos) simp
    moreover have "length part < length (frame_of c)" using d(3) calculation l by (auto simp: cut_frame_def)
    ultimately show False using part l by (simp add: stream_of_def)
  qed
  with d part show ?thesis by (simp add: new_conn_def stream_of_def)
qed

theorem commands_delivered_in_order_witness:
  "serve (total_handler (\<lambda>c log. log @ [c]))
     [[Received (take 3 (frame_of (CCancel \<lparr>co_symbol = ''X'', co_order_id = 1\<rparr>)))],
      [Received (drop 3 (frame_of (CCancel \<lparr>co_symbol = ''X'', co_order_id = 1\<rparr>)))]] new_conn [] =
     (new_conn, [CCancel \<lparr>co_symbol = ''X'', co_order_id = 1\<rparr>])"
  using commands_delivered_in_order [of "[CCancel \<lparr>co_symbol = ''X'', co_order_id = 1\<rparr>]"
    "[[take 3 (frame_of (CCancel \<lparr>co_symbol = ''X'', co_order_id = 1\<rparr>))],
      [drop 3 (frame_of (CCancel \<lparr>co_symbol = ''X'', co_order_id = 1\<rparr>))]]" "\<lambda>c log. log @ [c]" "[]"]
  by (simp add: stream_of_def wire_cancel_def fits_ll_iff)

text \<open>At the end of a stream bytes are lost: when the peer sends complete frames and closes, and both
  are seen in the same poll, the connection is closed without parsing, and none of the commands that
  had arrived in full reaches the handler.\<close>

theorem commands_lost_at_close:
  "drain_connection handler (map Received chunks @ EndOfStream # rs) new_conn s =
     (\<lparr>fd_open = False, conn_buffer = concat chunks\<rparr>, s)"
proof -
  have "recv_loop (map Received chunks @ EndOfStream # rs) buf = (buf @ concat chunks, True)" for buf
    by (induction chunks arbitrary: buf) simp_all
  then show ?thesis by (simp add: drain_connection_def new_conn_def)
qed



end
