(* ===== verification/Order_Server.thy ===== *)
theory Order_Server
  imports Order_Entry
begin

text \<open>
  The rest of \<open>src/net.cpp\<close>: the constructor of the order-entry server, its poll loop over all connections,
  \<open>stop\<close>, and the multicast publisher. System calls are parameters: what \<open>socket\<close>, \<open>bind\<close>, \<open>listen\<close>, \<open>poll\<close>,
  \<open>accept\<close> and \<open>recv\<close> return is given, what the program does with it is modelled.

  A connection is kept with its descriptor; \<open>fd_open\<close> is \<open>False\<close> where the program has set the descriptor to
  -1. The handler gets the descriptor as an additional argument, so that theorems can tell the connections
  apart; the program passes a handler that does not see it.
\<close>

section \<open>Setting up\<close>

record listen_io =
  io_socket :: int
  io_bind :: bool
  io_listen :: bool
  io_name :: "16 word option"

text \<open>The constructor: an exception, or the port and the listening descriptor; and the descriptors it leaves
  open.\<close>

definition new_server :: "listen_io \<Rightarrow> 16 word \<Rightarrow> (16 word \<times> int) result \<times> int list" where
  "new_server io port =
     (if io_socket io < 0 then (Inl (RuntimeError ''socket() failed''), [])
      else if \<not> io_bind io then (Inl (RuntimeError ''bind() failed''), [])
      else if \<not> io_listen io then (Inl (RuntimeError ''listen() failed''), [])
      else (Inr (case io_name io of Some p \<Rightarrow> p | None \<Rightarrow> port, io_socket io), [io_socket io]))"

section \<open>The poll loop\<close>

type_synonym conns = "(int \<times> conn) list"

type_synonym 's fd_handler = "int \<Rightarrow> command \<Rightarrow> 's \<Rightarrow> 's \<times> bool"

record poll_event =
  poll_ready :: bool
  listen_ready :: bool
  accepted :: "int list"
  has_events :: "int \<Rightarrow> bool"
  reads :: "int \<Rightarrow> recv_result list"

text \<open>The descriptors handed to \<open>poll\<close> besides the listening one.\<close>

definition polled_fds :: "conns \<Rightarrow> int list" where
  "polled_fds conns = map fst (filter (\<lambda>(fd, c). fd_open c) conns)"

definition accept_all :: "int list \<Rightarrow> conns \<Rightarrow> conns" where
  "accept_all fds conns = conns @ map (\<lambda>fd. (fd, new_conn)) fds"

text \<open>The search for the connection of a descriptor, and its service.\<close>

fun serve_fd :: "'s fd_handler \<Rightarrow> (int \<Rightarrow> recv_result list) \<Rightarrow> int \<Rightarrow> conns \<times> 's \<Rightarrow> conns \<times> 's" where
  "serve_fd handler rd fd ([], s) = ([], s)"
| "serve_fd handler rd fd ((k, c) # cs, s) =
     (if fd_open c \<and> k = fd then (case drain_connection (handler fd) (rd fd) c s of (c', s') \<Rightarrow> ((k, c') # cs, s'))
      else (case serve_fd handler rd fd (cs, s) of (cs', s') \<Rightarrow> ((k, c) # cs', s')))"

definition server_poll :: "'s fd_handler \<Rightarrow> poll_event \<Rightarrow> conns \<times> 's \<Rightarrow> conns \<times> 's" where
  "server_poll handler ev st =
     (let (conns, s) = st; fds = polled_fds conns;
          conns1 = (if listen_ready ev then accept_all (accepted ev) conns else conns);
          (conns2, s2) = fold (serve_fd handler (reads ev)) (filter (has_events ev) fds) (conns1, s)
      in if poll_ready ev then (filter (\<lambda>(fd, c). fd_open c) conns2, s2) else st)"

definition server_run :: "'s fd_handler \<Rightarrow> poll_event list \<Rightarrow> conns \<times> 's \<Rightarrow> conns \<times> 's" where
  "server_run handler evs st = fold (server_poll handler) evs st"

section \<open>Starting and stopping\<close>

text \<open>\<open>start\<close>: the flag afterwards, and whether a thread is started.\<close>

definition server_start :: "bool \<Rightarrow> bool \<times> bool" where
  "server_start running = (True, \<not> running)"

text \<open>\<open>stop\<close>, whose \<open>join\<close> waits for the thread: the flag, the descriptors it closes and the connections left.\<close>

definition server_stop :: "bool \<Rightarrow> conns \<Rightarrow> bool \<times> int list \<times> conns" where
  "server_stop running conns = (if \<not> running then (False, [], conns) else (False, polled_fds conns, []))"

definition server_destroy :: "bool \<Rightarrow> int \<Rightarrow> conns \<Rightarrow> int list" where
  "server_destroy running listen_fd conns =
     fst (snd (server_stop running conns)) @ (if listen_fd \<ge> 0 then [listen_fd] else [])"

section \<open>The multicast publisher\<close>

record publisher =
  pub_fd :: int
  pub_port :: "16 word"
  pub_group :: "32 word"

text \<open>\<open>addr\<close> is what \<open>inet_pton\<close> makes of the group. The second component is the descriptor left open.\<close>

definition new_publisher :: "int \<Rightarrow> 32 word option \<Rightarrow> string \<Rightarrow> 16 word \<Rightarrow> publisher result \<times> int list" where
  "new_publisher fd addr grp port =
     (if fd < 0 then (Inl (RuntimeError ''socket() failed''), [])
      else case addr of
        None \<Rightarrow> (Inl (RuntimeError (''invalid multicast group: '' @ grp)), [])
      | Some a \<Rightarrow> (Inr \<lparr>pub_fd = fd, pub_port = port, pub_group = a\<rparr>, [fd]))"

text \<open>The datagram \<open>publish\<close> asks the system to send; whether it is sent the program does not check.\<close>

definition publish :: "publisher \<Rightarrow> string \<Rightarrow> int \<times> 32 word \<times> 16 word \<times> string" where
  "publish p bytes = (pub_fd p, pub_group p, pub_port p, bytes)"

definition publisher_destroy :: "publisher \<Rightarrow> int list" where
  "publisher_destroy p = (if pub_fd p \<ge> 0 then [pub_fd p] else [])"

section \<open>Handlers and their effects\<close>

abbreviation effects :: "(int \<Rightarrow> command \<Rightarrow> 's \<Rightarrow> 's) \<Rightarrow> 's fd_handler" where
  "effects f \<equiv> \<lambda>fd. total_handler (f fd)"

text \<open>Handlers that agree through a map of their states do the same to the connections.\<close>

lemma frame_loop_hom:
  assumes "\<And>c s. h (f c s) = g c (h s)"
  shows "frame_loop (total_handler g) data offset (h s) = (case frame_loop (total_handler f) data offset s of (s', r) \<Rightarrow> (h s', r))"
proof (induction "length data - offset" arbitrary: offset s rule: less_induct)
  case less
  have ih: "frame_loop (total_handler g) data o' (h s') = (case frame_loop (total_handler f) data o' s' of (s'', r) \<Rightarrow> (h s'', r))"
    if "parse_frame data offset = Inr (Some (ty, payload, o'))" for ty payload o' s'
    using parse_frame_advances [OF that] by (intro less.hyps) linarith
  show ?case
  proof (cases "parse_frame data offset")
    case (Inr r)
    show ?thesis
    proof (cases r)
      case (Some x)
      obtain ty payload o' where x: "x = (ty, payload, o')" by (cases x)
      from Inr Some x have parse: "parse_frame data offset = Inr (Some (ty, payload, o'))" by simp
      show ?thesis
        by (cases "ty = MsgEvent"; cases "decode_command ty payload")
          (simp_all add: frame_loop.simps [of _ data offset] parse ih [OF parse] total_handler_def assms [symmetric]
            ih [OF parse, unfolded total_handler_def])
    qed (simp add: frame_loop.simps [of _ data offset] Inr)
  qed (simp add: frame_loop.simps [of _ data offset])
qed

lemma drain_hom:
  assumes "\<And>c s. h (f c s) = g c (h s)"
  shows "drain_connection (total_handler g) rs c (h s) = (case drain_connection (total_handler f) rs c s of (c', s') \<Rightarrow> (c', h s'))"
  using frame_loop_hom [of h f g, OF assms] by (simp add: drain_connection_def split: prod.splits bool.splits)

lemma serve_fd_hom:
  assumes "\<And>k c s. h (f k c s) = g k c (h s)"
  shows "serve_fd (effects g) rd fd (conns, h s) = (case serve_fd (effects f) rd fd (conns, s) of (conns', s') \<Rightarrow> (conns', h s'))"
proof (induction conns)
  case (Cons x conns)
  then show ?case
    using drain_hom [of h "f fd" "g fd" "rd fd" "snd x" s, OF assms]
    by (cases x) (simp split: prod.splits)
qed simp

lemma server_run_hom:
  assumes "\<And>k c s. h (f k c s) = g k c (h s)"
  shows "server_run (effects g) evs (conns, h s) = (case server_run (effects f) evs (conns, s) of (conns', s') \<Rightarrow> (conns', h s'))"
proof -
  let ?h = "\<lambda>(conns, s). (conns, h s)"
  have one: "serve_fd (effects g) rd fd (?h st) = ?h (serve_fd (effects f) rd fd st)" for rd fd st
    using serve_fd_hom [of h f g rd fd "fst st" "snd st", OF assms] by (simp add: split_beta)
  have many: "fold (serve_fd (effects g) rd) fds (?h st) = ?h (fold (serve_fd (effects f) rd) fds st)" for rd fds st
    by (induction fds arbitrary: st) (simp_all only: fold_simps one)
  have poll: "server_poll (effects g) ev (?h st) = ?h (server_poll (effects f) ev st)" for ev st
  proof (cases st)
    case (Pair cs s)
    show ?thesis
      using many [of "reads ev" "filter (has_events ev) (polled_fds cs)" "(if listen_ready ev then accept_all (accepted ev) cs else cs, s)"]
      by (cases "listen_ready ev") (simp_all add: Pair server_poll_def split_beta Let_def)
  qed
  have "server_run (effects g) evs (?h st) = ?h (server_run (effects f) evs st)" for st
    unfolding server_run_def by (induction evs arbitrary: st) (simp_all only: fold_simps poll)
  from this [of "(conns, s)"] show ?thesis by (simp add: split_beta)
qed

section \<open>One connection among many\<close>

text \<open>The log of a server: every command with the descriptor it came from.\<close>

definition tag :: "int \<Rightarrow> command \<Rightarrow> (int \<times> command) list \<Rightarrow> (int \<times> command) list" where
  "tag fd c log = log @ [(fd, c)]"

definition from_fd :: "int \<Rightarrow> (int \<times> command) list \<Rightarrow> command list" where
  "from_fd fd log = map snd (filter (\<lambda>(k, c). k = fd) log)"

abbreviation snoc :: "command \<Rightarrow> command list \<Rightarrow> command list" where
  "snoc \<equiv> \<lambda>c cs. cs @ [c]"

lemma drain_other:
  assumes "k \<noteq> fd"
  shows "from_fd fd (snd (drain_connection (total_handler (tag k)) rs c log)) = from_fd fd log"
  using drain_hom [of "from_fd fd" "tag k" "\<lambda>_ l. l" rs c log] drain_hom [of "\<lambda>_. from_fd fd log" "\<lambda>_ s. s" "\<lambda>_ l. l" rs c "()"] assms
  by (simp add: tag_def from_fd_def split: prod.splits)

lemma drain_own:
  "drain_connection (total_handler (tag fd)) rs c log = (c', log') \<Longrightarrow>
     drain_connection (total_handler snoc) rs c (from_fd fd log) = (c', from_fd fd log')"
  using drain_hom [of "from_fd fd" "tag fd" snoc rs c log] by (simp add: tag_def from_fd_def)

lemma serve_fd_keys: "map fst (fst (serve_fd handler rd fd (conns, s))) = map fst conns"
  by (induction conns) (auto split: prod.splits)

lemma serve_fd_other:
  assumes "k \<noteq> fd" "serve_fd (effects tag) rd k (conns, log) = (conns', log')"
  shows "map_of conns' fd = map_of conns fd" "from_fd fd log' = from_fd fd log"
  using assms(2)
proof (induction conns arbitrary: conns')
  case (Cons x conns)
  { case 1 then show ?case using Cons assms(1) by (cases x) (auto split: prod.splits if_splits) }
  { case 2 then show ?case using Cons assms(1) drain_other [OF assms(1), of "rd k" "snd x" log]
      by (cases x) (auto split: prod.splits if_splits) }
qed simp_all

lemma serve_fd_own:
  assumes "map_of conns fd = Some c" "fd_open c" "serve_fd (effects tag) rd fd (conns, log) = (conns', log')"
  shows "\<exists>c'. drain_connection (total_handler snoc) (rd fd) c (from_fd fd log) = (c', from_fd fd log') \<and> map_of conns' fd = Some c'"
  using assms(1,3)
proof (induction conns arbitrary: conns')
  case (Cons x conns)
  then show ?case using assms(2) drain_own [of fd "rd fd" c log]
    by (cases x) (auto split: prod.splits if_splits)
qed simp

lemma serve_fds_other:
  assumes "fd \<notin> set fds" "fold (serve_fd (effects tag) rd) fds (conns, log) = (conns', log')"
  shows "map_of conns' fd = map_of conns fd \<and> from_fd fd log' = from_fd fd log"
  using assms
proof (induction fds arbitrary: conns log)
  case (Cons k fds)
  obtain conns1 log1 where one: "serve_fd (effects tag) rd k (conns, log) = (conns1, log1)" by fastforce
  have "k \<noteq> fd" using Cons.prems(1) by auto
  from serve_fd_other [OF this one] Cons.IH [of conns1 log1] Cons.prems one show ?case by simp
qed simp

lemma serve_fds_own:
  assumes "fd \<in> set fds" "distinct fds" "map_of conns fd = Some c" "fd_open c"
    and "fold (serve_fd (effects tag) rd) fds (conns, log) = (conns', log')"
  shows "\<exists>c'. drain_connection (total_handler snoc) (rd fd) c (from_fd fd log) = (c', from_fd fd log') \<and> map_of conns' fd = Some c'"
  using assms(1,2,3,5)
proof (induction fds arbitrary: conns log)
  case (Cons k fds)
  obtain conns1 log1 where one: "serve_fd (effects tag) rd k (conns, log) = (conns1, log1)" by fastforce
  show ?case
  proof (cases "k = fd")
    case True
    then have rest: "fd \<notin> set fds" "fold (serve_fd (effects tag) rd) fds (conns1, log1) = (conns', log')"
      using Cons.prems one by auto
    from serve_fd_own [OF Cons.prems(3) assms(4), of rd log conns1 log1] one True serve_fds_other [OF rest] show ?thesis by auto
  next
    case False
    from serve_fd_other [OF False one] Cons.IH [of conns1 log1] Cons.prems False one show ?thesis by auto
  qed
qed simp

lemma serve_fds_keys: "map fst (fst (fold (serve_fd handler rd) fds (conns, s))) = map fst conns"
proof (induction fds arbitrary: conns s)
  case (Cons k fds)
  obtain conns1 s1 where "serve_fd handler rd k (conns, s) = (conns1, s1)" by fastforce
  with serve_fd_keys [of handler rd k conns s] Cons.IH [of conns1 s1] show ?case by simp
qed simp

text \<open>Between polls all connections are open and their descriptors differ, provided \<open>accept\<close> gives no
  descriptor that is in use.\<close>

definition conns_ok :: "conns \<Rightarrow> bool" where
  "conns_ok conns \<longleftrightarrow> distinct (map fst conns) \<and> (\<forall>(fd, c) \<in> set conns. fd_open c)"

definition fresh_accepts :: "poll_event \<Rightarrow> conns \<Rightarrow> bool" where
  "fresh_accepts ev conns \<longleftrightarrow> distinct (accepted ev) \<and> set (accepted ev) \<inter> fst ` set conns = {}"

fun fresh_run :: "'s fd_handler \<Rightarrow> poll_event list \<Rightarrow> conns \<times> 's \<Rightarrow> bool" where
  "fresh_run handler [] st = True"
| "fresh_run handler (ev # evs) st = (fresh_accepts ev (fst st) \<and> fresh_run handler evs (server_poll handler ev st))"

lemma polled_all: "conns_ok conns \<Longrightarrow> polled_fds conns = map fst conns"
  by (auto simp: conns_ok_def polled_fds_def intro!: filter_True)

lemma map_of_filter_open:
  "distinct (map fst conns) \<Longrightarrow> map_of (filter (\<lambda>(fd, c). fd_open c) conns) fd =
     (case map_of conns fd of Some c \<Rightarrow> if fd_open c then Some c else None | None \<Rightarrow> None)"
  by (induction conns) (auto simp: map_of_eq_None_iff split: option.splits if_splits)

lemma accepted_keys:
  assumes "conns_ok conns" "fresh_accepts ev conns"
  shows "distinct (map fst (if listen_ready ev then accept_all (accepted ev) conns else conns))"
  using assms by (auto simp: conns_ok_def fresh_accepts_def accept_all_def comp_def)

lemma server_poll_pair:
  "server_poll handler ev (conns, s) =
     (if poll_ready ev then map_prod (filter (\<lambda>(fd, c). fd_open c)) id (fold (serve_fd handler (reads ev))
        (filter (has_events ev) (polled_fds conns)) (if listen_ready ev then accept_all (accepted ev) conns else conns, s))
      else (conns, s))"
  by (cases "listen_ready ev") (simp_all add: server_poll_def split_beta Let_def map_prod_def)

lemma server_poll_ok:
  assumes "conns_ok conns" "fresh_accepts ev conns"
  shows "conns_ok (fst (server_poll handler ev (conns, s)))"
proof -
  let ?conns = "if listen_ready ev then accept_all (accepted ev) conns else conns"
  have "distinct (map fst (fst (fold (serve_fd handler (reads ev)) fds (?conns, s))))" for fds
    unfolding serve_fds_keys by (rule accepted_keys [OF assms])
  with assms(1) show ?thesis
    by (auto simp: server_poll_pair conns_ok_def distinct_map_filter)
qed

text \<open>One poll, seen from one connection: it is served when \<open>poll\<close> reports it, as if it were alone.\<close>

lemma server_poll_conn:
  assumes ok: "conns_ok conns" "fresh_accepts ev conns" and c: "map_of conns fd = Some c"
    and run: "server_poll (effects tag) ev (conns, log) = (conns', log')"
  shows "if poll_ready ev \<and> has_events ev fd
    then \<exists>c'. drain_connection (total_handler snoc) (reads ev fd) c (from_fd fd log) = (c', from_fd fd log') \<and>
      map_of conns' fd = (if fd_open c' then Some c' else None)
    else map_of conns' fd = Some c \<and> from_fd fd log' = from_fd fd log"
proof (cases "poll_ready ev")
  case False
  with run c show ?thesis by (simp add: server_poll_pair)
next
  case True
  let ?conns = "if listen_ready ev then accept_all (accepted ev) conns else conns"
  let ?fds = "filter (has_events ev) (map fst conns)"
  obtain conns2 log2 where fold: "fold (serve_fd (effects tag) (reads ev)) ?fds (?conns, log) = (conns2, log2)" by fastforce
  with run True have out: "conns' = filter (\<lambda>(fd, c). fd_open c) conns2" "log' = log2"
    by (simp_all add: server_poll_pair polled_all [OF ok(1)])
  have "map fst conns2 = map fst ?conns" using serve_fds_keys [of "effects tag" "reads ev" ?fds ?conns log] fold by simp
  then have keys: "distinct (map fst conns2)" using accepted_keys [OF ok] by simp
  have c': "map_of ?conns fd = Some c" "fd_open c" "fd \<in> set (map fst conns)"
    using c ok(1) map_of_SomeD [OF c] by (auto simp: accept_all_def conns_ok_def map_add_Some_iff intro: rev_image_eqI)
  show ?thesis
  proof (cases "has_events ev fd")
    case events: True
    have "distinct ?fds" using ok(1) by (simp add: conns_ok_def)
    with serve_fds_own [OF _ _ c'(1,2) fold] events c'(3) True show ?thesis
      by (auto simp: out map_of_filter_open [OF keys])
  next
    case False
    with serve_fds_other [OF _ fold, of fd] c' show ?thesis
      by (auto simp: out map_of_filter_open [OF keys])
  qed
qed

text \<open>The results of \<open>recv\<close> a connection gets over several polls.\<close>

definition served_reads :: "int \<Rightarrow> poll_event list \<Rightarrow> recv_result list list" where
  "served_reads fd evs = map (\<lambda>ev. reads ev fd) (filter (\<lambda>ev. poll_ready ev \<and> has_events ev fd) evs)"

lemma server_run_conn:
  assumes "conns_ok conns" "map_of conns fd = Some c" "fd_open c" "fresh_run (effects tag) evs (conns, log)"
    and "server_run (effects tag) evs (conns, log) = (conns', log')"
    and "serve (total_handler snoc) (served_reads fd evs) c (from_fd fd log) = (c', cmds)" "fd_open c'"
  shows "map_of conns' fd = Some c' \<and> from_fd fd log' = cmds"
  using assms
proof (induction evs arbitrary: conns log c)
  case Nil
  then show ?case by (simp add: server_run_def served_reads_def)
next
  case (Cons ev evs)
  obtain conns1 log1 where poll: "server_poll (effects tag) ev (conns, log) = (conns1, log1)" by fastforce
  have ok: "conns_ok conns1" "fresh_run (effects tag) evs (conns1, log1)" "server_run (effects tag) evs (conns1, log1) = (conns', log')"
    using server_poll_ok [of conns ev "effects tag" log] Cons.prems poll by (simp_all add: server_run_def)
  have fresh: "fresh_accepts ev conns" using Cons.prems(4) by simp
  note one = server_poll_conn [OF Cons.prems(1) fresh Cons.prems(2) poll]
  show ?case
  proof (cases "poll_ready ev \<and> has_events ev fd")
    case True
    with one obtain c1 where c1: "drain_connection (total_handler snoc) (reads ev fd) c (from_fd fd log) = (c1, from_fd fd log1)"
      "map_of conns1 fd = (if fd_open c1 then Some c1 else None)" by auto
    have rest: "serve (total_handler snoc) (served_reads fd evs) c1 (from_fd fd log1) = (c', cmds)"
      using Cons.prems(3,6) c1(1) True by (simp add: served_reads_def)
    have "fd_open c1"
    proof (rule ccontr)
      assume "\<not> fd_open c1"
      with rest have "c' = c1" by (cases "served_reads fd evs") auto
      with Cons.prems(7) \<open>\<not> fd_open c1\<close> show False by simp
    qed
    with Cons.IH [OF ok(1) _ _ ok(2,3) rest Cons.prems(7)] c1(2) show ?thesis by simp
  next
    case False
    with one Cons.prems(6) have "map_of conns1 fd = Some c" "from_fd fd log1 = from_fd fd log"
      "serve (total_handler snoc) (served_reads fd evs) c (from_fd fd log1) = (c', cmds)"
      by (auto simp: served_reads_def)
    with Cons.IH [OF ok(1) _ Cons.prems(3) ok(2,3) _ Cons.prems(7)] show ?thesis by simp
  qed
qed

section \<open>Properties\<close>


definition sample_cancel :: command where
  "sample_cancel = CCancel \<lparr>co_symbol = ''X'', co_order_id = 1\<rparr>"

definition sample_poll :: "string \<Rightarrow> poll_event" where
  "sample_poll part = \<lparr>poll_ready = True, listen_ready = False, accepted = [], has_events = (\<lambda>_. True),
     reads = (\<lambda>fd. if fd = 4 then [Received part] else [Received ''garbage''])\<rparr>"


end
