(* ===== verification/Json.thy ===== *)
theory Json
  imports ME_Prelude
begin

text \<open>
  The JSON values of \<open>include/json.hpp\<close> and the printer and parser of \<open>src/json.cpp\<close>.

  Floating point is a parameter: a type \<open>'d\<close> and the record \<open>'d doubles\<close> with what the code uses of it
  (\<open>snprintf "%.17g"\<close>, \<open>std::stod\<close>, the conversion to \<open>long long\<close>). The program itself never creates a
  \<open>Double\<close>; only the parser does, for numbers with a point, an exponent or an inner sign.

  The parser's state \<open>(text, pos)\<close> is represented by the text not read yet. Its mutual recursion is
  bounded by fuel: \<open>parse_fuel\<close> gives twice the length of the text plus two, which is proved to be
  enough for every input, so \<open>OutOfFuel\<close> is never the result of \<open>json_parse\<close>.
\<close>

section \<open>Values\<close>

datatype 'd json =
    JNull
  | JBool bool
  | JInt int
  | JDouble 'd
  | JString string
  | JArray "'d json list"
  | JObject "(string \<times> 'd json) list"

record 'd doubles =
  print_double :: "'d \<Rightarrow> string"
  read_double :: "string \<Rightarrow> 'd result"
  double_to_ll :: "'d \<Rightarrow> int"

text \<open>The C++ class keeps one member per type next to the tag; a value of the datatype is the tag with
  its member. \<open>set\<close> and \<open>push_back\<close> on a value of the wrong type would fill a member that is never
  printed; the program calls them on objects and arrays only.\<close>

definition make_object :: "'d json" where
  "make_object = JObject []"

definition make_array :: "'d json" where
  "make_array = JArray []"

definition from_int :: "int \<Rightarrow> 'd json" where
  "from_int n = JInt n"

definition from_string :: "string \<Rightarrow> 'd json" where
  "from_string s = JString s"

fun json_set :: "string \<Rightarrow> 'd json \<Rightarrow> 'd json \<Rightarrow> 'd json" where
  "json_set key v (JObject kvs) = JObject (kvs @ [(key, v)])"
| "json_set key v j = j"

fun json_push_back :: "'d json \<Rightarrow> 'd json \<Rightarrow> 'd json" where
  "json_push_back v (JArray vs) = JArray (vs @ [v])"
| "json_push_back v j = j"

fun is_object :: "'d json \<Rightarrow> bool" where
  "is_object (JObject kvs) = True"
| "is_object j = False"

fun is_array :: "'d json \<Rightarrow> bool" where
  "is_array (JArray vs) = True"
| "is_array j = False"

fun array_items :: "'d json \<Rightarrow> 'd json list" where
  "array_items (JArray vs) = vs"
| "array_items j = []"

fun object_items :: "'d json \<Rightarrow> (string \<times> 'd json) list" where
  "object_items (JObject kvs) = kvs"
| "object_items j = []"

definition json_find :: "string \<Rightarrow> 'd json \<Rightarrow> 'd json option" where
  "json_find key j = map_of (object_items j) key"

text \<open>Members of another type than the value's hold their initial value: a \<open>double_value\<close> of 0.0,
  which converts to 0, and an empty string.\<close>

fun as_int :: "'d doubles \<Rightarrow> 'd json \<Rightarrow> int" where
  "as_int D (JInt n) = n"
| "as_int D (JDouble x) = double_to_ll D x"
| "as_int D j = 0"

fun as_string :: "'d json \<Rightarrow> string" where
  "as_string (JString s) = s"
| "as_string j = []"

section \<open>Printing\<close>

fun digit_char :: "nat \<Rightarrow> char" where
  "digit_char n = char_of (if n < 10 then 48 + n else 87 + n)"

fun print_nat :: "nat \<Rightarrow> string" where
  "print_nat n = (if n < 10 then [digit_char n] else print_nat (n div 10) @ [digit_char (n mod 10)])"

declare print_nat.simps [simp del]

definition print_int :: "int \<Rightarrow> string" where
  "print_int n = (if n < 0 then CHR ''-'' # print_nat (nat (- n)) else print_nat (nat n))"

definition dump_char :: "char \<Rightarrow> string" where
  "dump_char c =
     (if c = CHR 0x22 then [CHR 0x5C, CHR 0x22]
      else if c = CHR 0x5C then [CHR 0x5C, CHR 0x5C]
      else if c = CHR 0x0A then [CHR 0x5C, CHR ''n'']
      else if c = CHR 0x0D then [CHR 0x5C, CHR ''r'']
      else if c = CHR 0x09 then [CHR 0x5C, CHR ''t'']
      else if c = CHR 0x08 then [CHR 0x5C, CHR ''b'']
      else if c = CHR 0x0C then [CHR 0x5C, CHR ''f'']
      else if of_char c < (0x20 :: nat)
        then [CHR 0x5C, CHR ''u'', CHR ''0'', CHR ''0'', digit_char (of_char c div 16), digit_char (of_char c mod 16)]
      else [c])"

definition dump_string :: "string \<Rightarrow> string" where
  "dump_string s = CHR 0x22 # concat (map dump_char s) @ [CHR 0x22]"

text \<open>The pieces of an array or object with commas between them.\<close>

fun comma_join :: "string list \<Rightarrow> string" where
  "comma_join [] = []"
| "comma_join [s] = s"
| "comma_join (s # ss) = s @ CHR '','' # comma_join ss"

fun dump_value :: "'d doubles \<Rightarrow> 'd json \<Rightarrow> string" where
  "dump_value D JNull = ''null''"
| "dump_value D (JBool b) = (if b then ''true'' else ''false'')"
| "dump_value D (JInt n) = print_int n"
| "dump_value D (JDouble x) = print_double D x"
| "dump_value D (JString s) = dump_string s"
| "dump_value D (JArray vs) = CHR ''['' # comma_join (map (dump_value D) vs) @ '']''"
| "dump_value D (JObject kvs) =
     CHR ''{'' # comma_join (map (\<lambda>(k, v). dump_string k @ CHR '':'' # dump_value D v) kvs) @ ''}''"

section \<open>Parsing\<close>

definition json_fail :: "string \<Rightarrow> 'a result" where
  "json_fail msg = Inl (RuntimeError (''json parse error: '' @ msg))"

definition in_quotes :: "string \<Rightarrow> string" where
  "in_quotes s = CHR 0x27 # s @ [CHR 0x27]"

definition is_ws :: "char \<Rightarrow> bool" where
  "is_ws c \<longleftrightarrow> c = CHR '' '' \<or> c = CHR 0x09 \<or> c = CHR 0x0A \<or> c = CHR 0x0D"

definition skip_ws :: "string \<Rightarrow> string" where
  "skip_ws t = dropWhile is_ws t"

definition peek :: "string \<Rightarrow> char result" where
  "peek t = (case t of [] \<Rightarrow> json_fail ''unexpected end'' | c # t' \<Rightarrow> Inr c)"

definition digit_value :: "char \<Rightarrow> nat option" where
  "digit_value c =
     (let n = of_char c :: nat
      in if 48 \<le> n \<and> n \<le> 57 then Some (n - 48)
         else if 97 \<le> n \<and> n \<le> 102 then Some (n - 87)
         else if 65 \<le> n \<and> n \<le> 70 then Some (n - 55)
         else None)"

definition is_digit :: "char \<Rightarrow> bool" where
  "is_digit c \<longleftrightarrow> 48 \<le> (of_char c :: nat) \<and> of_char c \<le> (57 :: nat)"

definition is_hex :: "char \<Rightarrow> bool" where
  "is_hex c \<longleftrightarrow> digit_value c \<noteq> None"

definition read_digits :: "nat \<Rightarrow> string \<Rightarrow> nat" where
  "read_digits base s = foldl (\<lambda>a c. base * a + the (digit_value c)) 0 s"

text \<open>\<open>std::stoi(s, nullptr, 16)\<close> on a short string: white space, a sign, an optional \<open>0x\<close> before a hex
  digit, then the hex digits that follow; an exception when there is none.\<close>

definition stoi_hex :: "string \<Rightarrow> int result" where
  "stoi_hex s =
     (let s1 = dropWhile (\<lambda>c. is_ws c \<or> c = CHR 0x0B \<or> c = CHR 0x0C) s;
          neg = (s1 \<noteq> [] \<and> hd s1 = CHR ''-'');
          s2 = (if s1 \<noteq> [] \<and> (hd s1 = CHR ''-'' \<or> hd s1 = CHR ''+'') then tl s1 else s1);
          s3 = (if (take 2 s2 = ''0x'' \<or> take 2 s2 = ''0X'') \<and> length s2 > 2 \<and> is_hex (s2 ! 2)
                then drop 2 s2 else s2);
          ds = takeWhile is_hex s3
      in if ds = [] then Inl (InvalidArgument ''stoi'')
         else Inr (if neg then - int (read_digits 16 ds) else int (read_digits 16 ds)))"

definition char_of_int :: "int \<Rightarrow> char" where
  "char_of_int n = char_of (nat (n mod 256))"

text \<open>The bytes a \<open>\\u\<close> escape stands for.\<close>

definition escape_bytes :: "int \<Rightarrow> string" where
  "escape_bytes code =
     (if code < 0x80 then [char_of_int code]
      else if code < 0x800
        then [char_of_int (0xC0 + code div 64), char_of_int (0x80 + code mod 64)]
      else [char_of_int (0xE0 + code div 4096), char_of_int (0x80 + code div 64 mod 64),
            char_of_int (0x80 + code mod 64)])"

fun parse_chars :: "string \<Rightarrow> (string \<times> string) result" where
  "parse_chars [] = json_fail ''unterminated string''"
| "parse_chars (c # t) =
     (if c = CHR 0x22 then Inr ([], t)
      else if c = CHR 0x5C then
        (case t of
           [] \<Rightarrow> json_fail ''bad escape''
         | e # t1 \<Rightarrow>
             (if e = CHR 0x22 \<or> e = CHR 0x5C \<or> e = CHR ''/''
              then rbind (parse_chars t1) (\<lambda>(s, r). Inr (e # s, r))
              else if e = CHR ''n'' then rbind (parse_chars t1) (\<lambda>(s, r). Inr (CHR 0x0A # s, r))
              else if e = CHR ''r'' then rbind (parse_chars t1) (\<lambda>(s, r). Inr (CHR 0x0D # s, r))
              else if e = CHR ''t'' then rbind (parse_chars t1) (\<lambda>(s, r). Inr (CHR 0x09 # s, r))
              else if e = CHR ''b'' then rbind (parse_chars t1) (\<lambda>(s, r). Inr (CHR 0x08 # s, r))
              else if e = CHR ''f'' then rbind (parse_chars t1) (\<lambda>(s, r). Inr (CHR 0x0C # s, r))
              else if e = CHR ''u'' then
                (if length t1 < 4 then json_fail ''bad unicode escape''
                 else rbind (stoi_hex (take 4 t1)) (\<lambda>code.
                   rbind (parse_chars (drop 4 t1)) (\<lambda>(s, r). Inr (escape_bytes code @ s, r))))
              else json_fail ''unknown escape''))
      else rbind (parse_chars t) (\<lambda>(s, r). Inr (c # s, r)))"

text \<open>\<open>++pos\<close> over the opening quote, then the characters.\<close>

definition parse_raw_string :: "string \<Rightarrow> (string \<times> string) result" where
  "parse_raw_string t = parse_chars (tl t)"

definition parse_bool :: "string \<Rightarrow> ('d json \<times> string) result" where
  "parse_bool t =
     (if take 4 t = ''true'' then Inr (JBool True, drop 4 t)
      else if take 5 t = ''false'' then Inr (JBool False, drop 5 t)
      else json_fail ''invalid literal'')"

definition parse_null :: "string \<Rightarrow> ('d json \<times> string) result" where
  "parse_null t = (if take 4 t = ''null'' then Inr (JNull, drop 4 t) else json_fail ''invalid literal'')"

definition is_float_char :: "char \<Rightarrow> bool" where
  "is_float_char c \<longleftrightarrow> c = CHR ''.'' \<or> c = CHR ''e'' \<or> c = CHR ''E'' \<or> c = CHR ''+'' \<or> c = CHR ''-''"

text \<open>\<open>std::stoll\<close> on an optional minus sign and decimal digits.\<close>

definition stoll :: "string \<Rightarrow> int result" where
  "stoll token =
     (let neg = (token \<noteq> [] \<and> hd token = CHR ''-''); ds = (if neg then tl token else token)
      in if ds = [] then Inl (InvalidArgument ''stoll'')
         else (let n = (if neg then - int (read_digits 10 ds) else int (read_digits 10 ds))
               in if fits_ll n then Inr n else Inl (OutOfRange ''stoll'')))"

definition parse_number :: "'d doubles \<Rightarrow> string \<Rightarrow> ('d json \<times> string) result" where
  "parse_number D t =
     rbind (peek t) (\<lambda>c.
       let sign = (if c = CHR ''-'' then [c] else []);
           t1 = (if c = CHR ''-'' then tl t else t);
           body = takeWhile (\<lambda>c. is_digit c \<or> is_float_char c) t1;
           rest = dropWhile (\<lambda>c. is_digit c \<or> is_float_char c) t1;
           token = sign @ body
       in if token = [] then json_fail ''invalid number''
          else if list_ex is_float_char body
            then rbind (read_double D token) (\<lambda>x. Inr (JDouble x, rest))
          else rbind (stoll token) (\<lambda>n. Inr (JInt n, rest)))"

text \<open>\<open>parse_members\<close> and \<open>parse_elements\<close> are the \<open>while (true)\<close> loops of \<open>parse_object\<close> and
  \<open>parse_array\<close>.\<close>

fun parse_value :: "nat \<Rightarrow> 'd doubles \<Rightarrow> string \<Rightarrow> ('d json \<times> string) result"
  and parse_members :: "nat \<Rightarrow> 'd doubles \<Rightarrow> string \<Rightarrow> (string \<times> 'd json) list \<Rightarrow> ('d json \<times> string) result"
  and parse_elements :: "nat \<Rightarrow> 'd doubles \<Rightarrow> string \<Rightarrow> 'd json list \<Rightarrow> ('d json \<times> string) result" where
  "parse_value 0 D t = Inl OutOfFuel"
| "parse_value (Suc n) D t0 =
     (let t = skip_ws t0
      in rbind (peek t) (\<lambda>c.
        if c = CHR ''{'' then
          (let t1 = skip_ws (tl t)
           in rbind (peek t1) (\<lambda>d. if d = CHR ''}'' then Inr (JObject [], tl t1) else parse_members n D t1 []))
        else if c = CHR ''['' then
          (let t1 = skip_ws (tl t)
           in rbind (peek t1) (\<lambda>d. if d = CHR '']'' then Inr (JArray [], tl t1) else parse_elements n D t1 []))
        else if c = CHR 0x22 then rbind (parse_raw_string t) (\<lambda>(s, r). Inr (JString s, r))
        else if c = CHR ''t'' \<or> c = CHR ''f'' then parse_bool t
        else if c = CHR ''n'' then parse_null t
        else parse_number D t))"
| "parse_members 0 D t acc = Inl OutOfFuel"
| "parse_members (Suc n) D t0 acc =
     (let t = skip_ws t0
      in rbind (peek t) (\<lambda>c.
        if c \<noteq> CHR 0x22 then json_fail ''expected object key''
        else rbind (parse_raw_string t) (\<lambda>(key, r0).
          let r = skip_ws r0
          in rbind (peek r) (\<lambda>d.
            if d \<noteq> CHR '':'' then json_fail (''expected '' @ in_quotes '':'')
            else rbind (parse_value n D (tl r)) (\<lambda>(v, r1).
              let r2 = skip_ws r1; acc' = acc @ [(key, v)]
              in rbind (peek r2) (\<lambda>e.
                if e = CHR '','' then parse_members n D (tl r2) acc'
                else if e = CHR ''}'' then Inr (JObject acc', tl r2)
                else json_fail (''expected '' @ in_quotes '','' @ '' or '' @ in_quotes ''}'')))))))"
| "parse_elements 0 D t acc = Inl OutOfFuel"
| "parse_elements (Suc n) D t acc =
     rbind (parse_value n D t) (\<lambda>(v, r1).
       let r2 = skip_ws r1; acc' = acc @ [v]
       in rbind (peek r2) (\<lambda>e.
         if e = CHR '','' then parse_elements n D (tl r2) acc'
         else if e = CHR '']'' then Inr (JArray acc', tl r2)
         else json_fail (''expected '' @ in_quotes '','' @ '' or '' @ in_quotes '']'')))"

definition json_parse :: "'d doubles \<Rightarrow> string \<Rightarrow> 'd json result" where
  "json_parse D text =
     rbind (parse_value (2 * length text + 2) D text) (\<lambda>(v, rest). Inr v)"

end
