(* ===== verification/Json_Properties.thy ===== *)
theory Json_Properties
  imports Json
begin

text \<open>
  The JSON printer and parser: the parser always has enough fuel and consumes input, and parsing what
  the printer wrote gives the value back, for every value without floating-point numbers and with
  64-bit integers. The printed text has no line break, so a log can keep one value per line.
\<close>

section \<open>Fuel and progress\<close>

lemma peek_Inr: "peek t = Inr c \<longleftrightarrow> (\<exists>t'. t = c # t')"
  by (cases t) (simp_all add: peek_def json_fail_def)

lemma json_fail_simps [simp]: "json_fail m \<noteq> Inr x" "json_fail m \<noteq> Inl OutOfFuel"
  by (simp_all add: json_fail_def)

lemma rbind_json_fail [simp]: "rbind (json_fail m) f = json_fail m"
  by (simp add: json_fail_def)

lemma rbind_pair_Inl [simp]: "rbind x (\<lambda>(s, r). Inr (f s r)) = Inl e \<longleftrightarrow> x = Inl e"
  by (cases x) auto

lemma peek_fuel [simp]: "peek t \<noteq> Inl OutOfFuel"
  by (cases t) (simp_all add: peek_def)

lemma skip_ws_length: "length (skip_ws t) \<le> length t"
  by (simp add: skip_ws_def length_dropWhile_le)

lemma parse_chars_shorter: "parse_chars t = Inr (s, r) \<Longrightarrow> length r < length t"
proof (induction t arbitrary: s r rule: parse_chars.induct)
  case 1
  then show ?case by simp
next
  case (2 c t)
  then show ?case
    by (auto simp: rbind_eq_Inr split: if_splits list.splits) fastforce+
qed

lemma literal_shorter:
  "parse_bool t = Inr (v, r) \<Longrightarrow> length r < length t"
  "parse_null t = Inr (v, r) \<Longrightarrow> length r < length t"
proof -
  have "length (drop (length p) t) < length t" if "take (length p) t = p" "p \<noteq> []" for p :: string
    using that by (cases t) auto
  from this [of "''true''"] this [of "''false''"] this [of "''null''"]
  show "parse_bool t = Inr (v, r) \<Longrightarrow> length r < length t" "parse_null t = Inr (v, r) \<Longrightarrow> length r < length t"
    by (auto simp: parse_bool_def parse_null_def eval_nat_numeral split: if_splits)
qed

lemma parse_number_shorter:
  assumes "parse_number D t = Inr (v, r)"
  shows "length r < length t"
proof -
  let ?P = "\<lambda>c. is_digit c \<or> is_float_char c"
  from assms obtain c t' where t: "t = c # t'"
    by (auto simp: parse_number_def rbind_eq_Inr peek_Inr)
  have "r = dropWhile ?P (if c = CHR ''-'' then t' else t) \<and> (c = CHR ''-'' \<or> ?P c)"
    using assms by (auto simp: t parse_number_def peek_def rbind_eq_Inr Let_def split: if_splits)
  then show ?thesis using length_dropWhile_le [of ?P t'] by (auto simp: t less_Suc_eq_le)
qed

text \<open>How a member or an element that was read, or ran out of fuel, came about.\<close>

lemma parse_members_InrD:
  assumes "parse_members (Suc n) D t acc = Inr (v, r)"
  shows "\<exists>t' key r0 r' w r1 e r2. skip_ws t = CHR 0x22 # t' \<and> parse_chars t' = Inr (key, r0) \<and>
    skip_ws r0 = CHR '':'' # r' \<and> parse_value n D r' = Inr (w, r1) \<and> skip_ws r1 = e # r2 \<and>
    (parse_members n D r2 (acc @ [(key, w)]) = Inr (v, r) \<or> r = r2)"
  using assms
  by (auto simp: rbind_eq_Inr peek_Inr parse_raw_string_def Let_def split: if_splits)

lemma parse_elements_InrD:
  assumes "parse_elements (Suc n) D t acc = Inr (v, r)"
  shows "\<exists>w r1 e r2. parse_value n D t = Inr (w, r1) \<and> skip_ws r1 = e # r2 \<and>
    (parse_elements n D r2 (acc @ [w]) = Inr (v, r) \<or> r = r2)"
  using assms by (auto simp: rbind_eq_Inr peek_Inr Let_def split: if_splits)

lemma parse_value_InrD:
  assumes "parse_value (Suc n) D t0 = Inr (v, r)"
  shows "\<exists>c t. skip_ws t0 = c # t \<and>
    (parse_members n D (skip_ws t) [] = Inr (v, r) \<or> parse_elements n D (skip_ws t) [] = Inr (v, r) \<or>
     (\<exists>d. skip_ws t = d # r) \<or> (\<exists>s. parse_chars t = Inr (s, r)) \<or> parse_bool (c # t) = Inr (v, r) \<or>
     parse_null (c # t) = Inr (v, r) \<or> parse_number D (c # t) = Inr (v, r))"
proof (cases "skip_ws t0")
  case Nil
  with assms show ?thesis by (simp add: peek_def)
next
  case (Cons c t)
  with assms show ?thesis
    by (cases "skip_ws t")
      (auto simp: peek_def parse_raw_string_def rbind_eq_Inr Let_def split: if_splits)
qed

lemma parse_shorter_all:
  "(\<forall>t v r. parse_value n D t = Inr (v, r) \<longrightarrow> length r < length t) \<and>
   (\<forall>t kvs v r. parse_members n D t kvs = Inr (v, r) \<longrightarrow> length r < length t) \<and>
   (\<forall>t vs v r. parse_elements n D t vs = Inr (v, r) \<longrightarrow> length r < length t)"
proof (induction n)
  case 0
  then show ?case by simp
next
  case (Suc n)
  have val: "length r < length t0" if "parse_value (Suc n) D t0 = Inr (v, r)" for t0 v r
  proof -
    from parse_value_InrD [OF that] obtain c t where t: "skip_ws t0 = c # t"
      and "parse_members n D (skip_ws t) [] = Inr (v, r) \<or> parse_elements n D (skip_ws t) [] = Inr (v, r) \<or>
        (\<exists>d. skip_ws t = d # r) \<or> (\<exists>s. parse_chars t = Inr (s, r)) \<or> parse_bool (c # t) = Inr (v, r) \<or>
        parse_null (c # t) = Inr (v, r) \<or> parse_number D (c # t) = Inr (v, r)" by blast
    then consider "length r < length (skip_ws t)" | d where "skip_ws t = d # r" | "length r < length t"
      | "length r < length (c # t)"
      using Suc.IH parse_chars_shorter literal_shorter [of "c # t" v r] parse_number_shorter [of D "c # t" v r]
      by blast
    then have "length r < length (c # t)"
      by cases (use skip_ws_length [of t] in auto)
    then show ?thesis using skip_ws_length [of t0] by (simp add: t)
  qed
  have members: "length r < length t" if run: "parse_members (Suc n) D t acc = Inr (v, r)" for t acc v r
  proof -
    from parse_members_InrD [OF run] obtain t' key r0 r' w r1 e r2 where
      "skip_ws t = CHR 0x22 # t'" "parse_chars t' = Inr (key, r0)" "skip_ws r0 = CHR '':'' # r'"
      "parse_value n D r' = Inr (w, r1)" "skip_ws r1 = e # r2"
      "parse_members n D r2 (acc @ [(key, w)]) = Inr (v, r) \<or> r = r2" by blast
    moreover from this have "length r1 < length r'" "length r \<le> length r2" using Suc.IH less_imp_le by blast+
    ultimately show ?thesis
      using parse_chars_shorter [of t' key r0] skip_ws_length [of t] skip_ws_length [of r0] skip_ws_length [of r1]
      by simp
  qed
  have elements: "length r < length t" if run: "parse_elements (Suc n) D t acc = Inr (v, r)" for t acc v r
  proof -
    from parse_elements_InrD [OF run] obtain w r1 e r2 where
      "parse_value n D t = Inr (w, r1)" "skip_ws r1 = e # r2"
      "parse_elements n D r2 (acc @ [w]) = Inr (v, r) \<or> r = r2" by blast
    moreover from this have "length r1 < length t" "length r \<le> length r2" using Suc.IH less_imp_le by blast+
    ultimately show ?thesis using skip_ws_length [of r1] by simp
  qed
  from val members elements show ?case by blast
qed

lemmas parse_value_shorter = parse_shorter_all [THEN conjunct1, rule_format]

lemma parse_chars_fuel: "parse_chars t \<noteq> Inl OutOfFuel"
proof (induction t rule: length_induct)
  case (1 t)
  have hex: "stoi_hex s \<noteq> Inl OutOfFuel" for s by (simp add: stoi_hex_def Let_def)
  show ?case
  proof (cases t)
    case Nil
    then show ?thesis by simp
  next
    case (Cons c t')
    show ?thesis
    proof (cases t')
      case Nil
      with Cons 1 show ?thesis by (simp add: rbind_eq_Inl)
    next
      case (Cons e t1)
      have "parse_chars t1 \<noteq> Inl OutOfFuel" "parse_chars (drop 4 t1) \<noteq> Inl OutOfFuel" "parse_chars (e # t1) \<noteq> Inl OutOfFuel"
        using 1 \<open>t = c # t'\<close> Cons by (simp_all del: parse_chars.simps)
      with hex show ?thesis unfolding \<open>t = c # t'\<close> Cons
        by (subst parse_chars.simps(2)) (simp del: parse_chars.simps add: rbind_eq_Inl)
    qed
  qed
qed

definition doubles_ok :: "'d doubles \<Rightarrow> bool" where
  "doubles_ok D \<longleftrightarrow> (\<forall>s. read_double D s \<noteq> Inl OutOfFuel)"

lemma parse_number_fuel: "doubles_ok D \<Longrightarrow> parse_number D t \<noteq> Inl OutOfFuel"
  by (auto simp: parse_number_def rbind_eq_Inl peek_Inr doubles_ok_def stoll_def Let_def split: if_splits)

lemma parse_members_fuelD:
  assumes "parse_members (Suc n) D t acc = Inl OutOfFuel"
  shows "\<exists>t' key r0 r'. skip_ws t = CHR 0x22 # t' \<and> parse_chars t' = Inr (key, r0) \<and>
    skip_ws r0 = CHR '':'' # r' \<and> (parse_value n D r' = Inl OutOfFuel \<or>
      (\<exists>w r1 e r2. parse_value n D r' = Inr (w, r1) \<and> skip_ws r1 = e # r2 \<and>
        parse_members n D r2 (acc @ [(key, w)]) = Inl OutOfFuel))"
  using assms parse_chars_fuel
  by (auto simp: rbind_eq_Inl rbind_eq_Inr peek_Inr parse_raw_string_def Let_def split: if_splits)

lemma parse_elements_fuelD:
  assumes "parse_elements (Suc n) D t acc = Inl OutOfFuel"
  shows "parse_value n D t = Inl OutOfFuel \<or>
    (\<exists>w r1 e r2. parse_value n D t = Inr (w, r1) \<and> skip_ws r1 = e # r2 \<and>
      parse_elements n D r2 (acc @ [w]) = Inl OutOfFuel)"
  using assms by (auto simp: rbind_eq_Inl peek_Inr Let_def split: if_splits)

lemma parse_value_fuelD:
  assumes "parse_value (Suc n) D t0 = Inl OutOfFuel" "doubles_ok D"
  shows "\<exists>c t. skip_ws t0 = c # t \<and>
    (parse_members n D (skip_ws t) [] = Inl OutOfFuel \<or> parse_elements n D (skip_ws t) [] = Inl OutOfFuel)"
proof (cases "skip_ws t0")
  case Nil
  with assms show ?thesis by (simp add: peek_def)
next
  case (Cons c t)
  with assms parse_chars_fuel [of t] parse_number_fuel [of D "c # t"] show ?thesis
    by (cases "skip_ws t")
      (auto simp: peek_def parse_raw_string_def parse_bool_def parse_null_def Let_def split: if_splits)
qed

lemma parse_fuel_all:
  assumes D: "doubles_ok D"
  shows "(\<forall>t. 2 * length t + 1 \<le> n \<longrightarrow> parse_value n D t \<noteq> Inl OutOfFuel) \<and>
   (\<forall>t kvs. 2 * length t + 2 \<le> n \<longrightarrow> parse_members n D t kvs \<noteq> Inl OutOfFuel) \<and>
   (\<forall>t vs. 2 * length t + 2 \<le> n \<longrightarrow> parse_elements n D t vs \<noteq> Inl OutOfFuel)"
proof (induction n)
  case 0
  then show ?case by simp
next
  case (Suc n)
  have val: "parse_value (Suc n) D t0 \<noteq> Inl OutOfFuel" if le: "2 * length t0 + 1 \<le> Suc n" for t0
  proof
    assume "parse_value (Suc n) D t0 = Inl OutOfFuel"
    from parse_value_fuelD [OF this D] obtain c t where "skip_ws t0 = c # t"
      "parse_members n D (skip_ws t) [] = Inl OutOfFuel \<or> parse_elements n D (skip_ws t) [] = Inl OutOfFuel" by blast
    moreover from this have "2 * length (skip_ws t) + 2 \<le> n"
      using le skip_ws_length [of t0] skip_ws_length [of t] by simp
    ultimately show False using Suc.IH by blast
  qed
  have members: "parse_members (Suc n) D t acc \<noteq> Inl OutOfFuel" if le: "2 * length t + 2 \<le> Suc n" for t acc
  proof
    assume "parse_members (Suc n) D t acc = Inl OutOfFuel"
    from parse_members_fuelD [OF this] obtain t' key r0 r' where
      m: "skip_ws t = CHR 0x22 # t'" "parse_chars t' = Inr (key, r0)" "skip_ws r0 = CHR '':'' # r'"
      and or: "parse_value n D r' = Inl OutOfFuel \<or>
        (\<exists>w r1 e r2. parse_value n D r' = Inr (w, r1) \<and> skip_ws r1 = e # r2 \<and>
          parse_members n D r2 (acc @ [(key, w)]) = Inl OutOfFuel)" by blast
    have short: "length r' + 2 \<le> length t"
      using m parse_chars_shorter [OF m(2)] skip_ws_length [of t] skip_ws_length [of r0] by simp
    from or consider "parse_value n D r' = Inl OutOfFuel"
      | w r1 e r2 where "parse_value n D r' = Inr (w, r1)" "skip_ws r1 = e # r2"
          "parse_members n D r2 (acc @ [(key, w)]) = Inl OutOfFuel" by blast
    then show False
    proof cases
      case 1
      have "2 * length r' + 1 \<le> n" using short le by simp
      with 1 Suc.IH show False by blast
    next
      case 2
      then have "2 * length r2 + 2 \<le> n"
        using parse_value_shorter [OF 2(1)] skip_ws_length [of r1] le short by simp
      with 2(3) Suc.IH show False by blast
    qed
  qed
  have elements: "parse_elements (Suc n) D t acc \<noteq> Inl OutOfFuel" if le: "2 * length t + 2 \<le> Suc n" for t acc
  proof
    assume "parse_elements (Suc n) D t acc = Inl OutOfFuel"
    from parse_elements_fuelD [OF this] consider "parse_value n D t = Inl OutOfFuel"
      | w r1 e r2 where "parse_value n D t = Inr (w, r1)" "skip_ws r1 = e # r2"
          "parse_elements n D r2 (acc @ [w]) = Inl OutOfFuel" by blast
    then show False
    proof cases
      case 1
      with Suc.IH le show False by simp
    next
      case 2
      then have "2 * length r2 + 2 \<le> n"
        using parse_value_shorter [OF 2(1)] skip_ws_length [of r1] le by simp
      with 2(3) Suc.IH show False by blast
    qed
  qed
  from val members elements show ?case by blast
qed

section \<open>Numbers\<close>

lemma digit_char_value: "n < 16 \<Longrightarrow> digit_value (digit_char n) = Some n"
proof -
  assume n: "n < 16"
  then have "of_char (digit_char n) = (if n < 10 then 48 + n else 87 + n)" by simp
  with n show ?thesis by (auto simp: digit_value_def Let_def)
qed

lemma digit_char_digit: "n < 10 \<Longrightarrow> is_digit (digit_char n)"
  by (simp add: is_digit_def)

lemma print_nat_digits: "c \<in> set (print_nat n) \<Longrightarrow> is_digit c"
proof (induction n rule: print_nat.induct)
  case (1 n)
  show ?case
  proof (cases "n < 10")
    case True
    with "1.prems" show ?thesis by (subst (asm) print_nat.simps) (simp add: digit_char_digit del: digit_char.simps)
  next
    case False
    with 1 show ?thesis by (subst (asm) (2) print_nat.simps) (auto simp: digit_char_digit simp del: digit_char.simps)
  qed
qed

lemma print_nat_ne: "print_nat n \<noteq> []"
  by (subst print_nat.simps) simp

lemma read_print_nat: "read_digits 10 (print_nat n) = n"
proof (induction n rule: print_nat.induct)
  case (1 n)
  show ?case
  proof (cases "n < 10")
    case True
    then show ?thesis by (subst print_nat.simps) (simp add: read_digits_def digit_char_value del: digit_char.simps)
  next
    case False
    with 1 show ?thesis
      by (subst print_nat.simps) (simp add: read_digits_def digit_char_value del: digit_char.simps)
  qed
qed

lemma digit_not_float: "is_digit c \<Longrightarrow> \<not> is_float_char c"
  by (auto simp: is_digit_def is_float_char_def)

text \<open>What may follow a value in printed text.\<close>

definition value_end :: "string \<Rightarrow> bool" where
  "value_end r \<longleftrightarrow> r = [] \<or> hd r = CHR '','' \<or> hd r = CHR '']'' \<or> hd r = CHR ''}''"

lemma value_end_number: "value_end r \<Longrightarrow> takeWhile (\<lambda>c. is_digit c \<or> is_float_char c) r = []"
  by (cases r) (auto simp: value_end_def is_digit_def is_float_char_def)

lemma print_int_hd:
  "hd (print_int n) = CHR ''-'' \<or> is_digit (hd (print_int n))" "print_int n \<noteq> []"
  using print_nat_ne [of "nat n"] print_nat_digits [of "hd (print_nat (nat n))" "nat n"]
  by (auto simp: print_int_def)

lemma parse_print_int:
  assumes "fits_ll n" "value_end r"
  shows "parse_number D (print_int n @ r) = Inr (JInt n, r)"
proof -
  let ?P = "\<lambda>c. is_digit c \<or> is_float_char c"
  let ?ds = "print_nat (nat \<bar>n\<bar>)"
  have tw: "takeWhile ?P (?ds @ r) = ?ds" "dropWhile ?P (?ds @ r) = r"
    using print_nat_digits [of _ "nat \<bar>n\<bar>"] value_end_number [OF assms(2)]
    by (auto simp: takeWhile_append2 dropWhile_append2 dropWhile_eq_self_iff takeWhile_eq_Nil_iff)
  have nofloat: "\<not> list_ex is_float_char ?ds"
    using print_nat_digits [of _ "nat \<bar>n\<bar>"] digit_not_float by (auto simp: list_ex_iff)
  have hd: "hd ?ds \<noteq> CHR ''-''" using print_nat_digits [of "hd ?ds" "nat \<bar>n\<bar>"] print_nat_ne [of "nat \<bar>n\<bar>"]
    by (auto simp: is_digit_def)
  show ?thesis
  proof (cases "n < 0")
    case True
    then have p: "print_int n = CHR ''-'' # ?ds" by (simp add: print_int_def)
    have "stoll (CHR ''-'' # ?ds) = Inr n"
      using True assms(1) print_nat_ne [of "nat \<bar>n\<bar>"] by (simp add: stoll_def read_print_nat)
    with p tw nofloat show ?thesis by (simp add: parse_number_def peek_def)
  next
    case False
    then have p: "print_int n = ?ds" by (simp add: print_int_def)
    obtain c ds where c: "?ds = c # ds" using print_nat_ne [of "nat \<bar>n\<bar>"] by (cases ?ds) auto
    have "stoll ?ds = Inr n"
      using False assms(1) hd print_nat_ne [of "nat \<bar>n\<bar>"] by (simp add: stoll_def read_print_nat)
    with p tw nofloat hd c show ?thesis by (simp add: parse_number_def peek_def)
  qed
qed

section \<open>Strings\<close>

lemma is_hex_digit_char: "n < 16 \<Longrightarrow> is_hex (digit_char n)"
  by (simp add: is_hex_def digit_char_value del: digit_char.simps)

lemma stoi_control:
  assumes "n < 32"
  shows "stoi_hex [CHR ''0'', CHR ''0'', digit_char (n div 16), digit_char (n mod 16)] = Inr (int n)"
proof -
  have lt: "n div 16 < 16" "n mod 16 < 16" using assms by simp_all
  have zero: "is_hex (CHR ''0'')" "digit_value (CHR ''0'') = Some 0" by (simp_all add: is_hex_def digit_value_def)
  have "stoi_hex [CHR ''0'', CHR ''0'', digit_char (n div 16), digit_char (n mod 16)] =
    Inr (int (16 * (n div 16) + n mod 16))"
    using is_hex_digit_char [OF lt(1)] is_hex_digit_char [OF lt(2)] digit_char_value [OF lt(1)]
      digit_char_value [OF lt(2)] zero
    by (simp add: stoi_hex_def is_ws_def read_digits_def del: digit_char.simps)
  then show ?thesis by simp
qed

lemma parse_dump_char:
  "parse_chars (dump_char c @ t) = rbind (parse_chars t) (\<lambda>(s, r). Inr (c # s, r))"
proof (cases "of_char c < (0x20 :: nat) \<and> c \<notin> {CHR 0x0A, CHR 0x0D, CHR 0x09, CHR 0x08, CHR 0x0C}")
  case False
  then show ?thesis by (auto simp: dump_char_def)
next
  case True
  let ?n = "of_char c :: nat"
  have esc: "escape_bytes (int ?n) = [c]"
    using True by (simp add: escape_bytes_def char_of_int_def nat_mod_distrib)
  have "c \<noteq> CHR 0x22" "c \<noteq> CHR 0x5C" using True by auto
  then have "dump_char c = [CHR 0x5C, CHR ''u'', CHR ''0'', CHR ''0'', digit_char (?n div 16), digit_char (?n mod 16)]"
    using True by (simp add: dump_char_def del: digit_char.simps)
  then show ?thesis
    using stoi_control [of ?n] True esc by (simp add: del: digit_char.simps)
qed

lemma parse_dump_chars: "parse_chars (concat (map dump_char s) @ CHR 0x22 # r) = Inr (s, r)"
  by (induction s) (simp_all add: parse_dump_char)

lemma parse_dump_string: "parse_raw_string (dump_string s @ r) = Inr (s, r)"
  using parse_dump_chars [of s r] by (simp add: parse_raw_string_def dump_string_def)

section \<open>Values\<close>

text \<open>Values that survive a round trip: no \<open>Double\<close> (\<open>%.17g\<close> prints 5.0 as \<open>5\<close>, which reads back as an
  \<open>Int\<close>), and integers in the range of \<open>long long\<close>, which every \<open>int_value\<close> is.\<close>

fun plain_json :: "'d json \<Rightarrow> bool" where
  "plain_json (JInt n) \<longleftrightarrow> fits_ll n"
| "plain_json (JDouble x) \<longleftrightarrow> False"
| "plain_json (JArray vs) \<longleftrightarrow> (\<forall>v \<in> set vs. plain_json v)"
| "plain_json (JObject kvs) \<longleftrightarrow> (\<forall>kv \<in> set kvs. plain_json (snd kv))"
| "plain_json j \<longleftrightarrow> True"

definition dump_member :: "'d doubles \<Rightarrow> string \<times> 'd json \<Rightarrow> string" where
  "dump_member D kv = dump_string (fst kv) @ CHR '':'' # dump_value D (snd kv)"

lemma dump_member_length:
  "length (dump_member D kv) = length (dump_string (fst kv)) + Suc (length (dump_value D (snd kv)))"
  by (simp add: dump_member_def)

lemma dump_object: "dump_value D (JObject kvs) = CHR ''{'' # comma_join (map (dump_member D) kvs) @ ''}''"
  by (simp add: dump_member_def [abs_def] case_prod_unfold)

text \<open>The first character of a printed value decides the parser's branch.\<close>

lemma dump_hd:
  assumes "plain_json v"
  shows "\<exists>c t. dump_value D v = c # t \<and> \<not> is_ws c \<and> c \<noteq> CHR '']''"
proof (cases v)
  case (JInt n)
  with print_int_hd [of n] show ?thesis
    by (cases "print_int n") (auto simp: is_ws_def is_digit_def)
qed (use assms in \<open>auto simp: is_ws_def dump_string_def\<close>)

lemma skip_ws_stop: "\<not> is_ws c \<Longrightarrow> skip_ws (c # t) = c # t"
  by (simp add: skip_ws_def)

lemma value_end_ws: "value_end r \<Longrightarrow> skip_ws r = r"
  by (cases r) (auto simp: value_end_def skip_ws_def is_ws_def)

lemma value_endI [simp]: "value_end (CHR '','' # r)" "value_end (CHR '']'' # r)" "value_end (CHR ''}'' # r)" "value_end []"
  by (simp_all add: value_end_def)

lemma skip_ws_sep [simp]:
  "skip_ws (CHR '','' # r) = CHR '','' # r" "skip_ws (CHR '']'' # r) = CHR '']'' # r"
  "skip_ws (CHR ''}'' # r) = CHR ''}'' # r" "skip_ws (CHR '':'' # r) = CHR '':'' # r"
  "skip_ws (CHR 0x22 # r) = CHR 0x22 # r"
  by (simp_all add: skip_ws_def is_ws_def)

lemma comma_join_Cons: "ss \<noteq> [] \<Longrightarrow> comma_join (s # ss) = s @ CHR '','' # comma_join ss"
  by (cases ss) auto

text \<open>\<open>reads_back n D v\<close>: with this much fuel or more, the parser reads the printed value.\<close>

definition reads_back :: "'d doubles \<Rightarrow> 'd json \<Rightarrow> bool" where
  "reads_back D v \<longleftrightarrow> (\<forall>n r. 2 * length (dump_value D v) + 1 \<le> n \<and> value_end r \<longrightarrow>
     parse_value n D (dump_value D v @ r) = Inr (v, r))"

lemma parse_dump_elements:
  assumes "vs \<noteq> []" "\<forall>v \<in> set vs. reads_back D v" "2 * length (comma_join (map (dump_value D) vs)) + 2 \<le> n"
  shows "parse_elements n D (comma_join (map (dump_value D) vs) @ CHR '']'' # r) acc = Inr (JArray (acc @ vs), r)"
  using assms
proof (induction vs arbitrary: n acc)
  case Nil
  then show ?case by simp
next
  case (Cons v vs)
  from Cons.prems(3) obtain m where n: "n = Suc m" by (cases n) auto
  show ?case
  proof (cases "vs = []")
    case True
    have "parse_value m D (dump_value D v @ CHR '']'' # r) = Inr (v, CHR '']'' # r)"
      using Cons.prems(2,3) True by (simp add: reads_back_def n)
    with True show ?thesis by (simp add: n peek_def)
  next
    case False
    let ?rest = "comma_join (map (dump_value D) vs) @ CHR '']'' # r"
    have len: "2 * length (comma_join (map (dump_value D) vs)) + 2 \<le> m" "2 * length (dump_value D v) + 1 \<le> m"
      using Cons.prems(3) False by (simp_all add: comma_join_Cons n)
    have "parse_value m D (dump_value D v @ CHR '','' # ?rest) = Inr (v, CHR '','' # ?rest)"
      using Cons.prems(2) len(2) by (simp add: reads_back_def)
    moreover have "parse_elements m D ?rest (acc @ [v]) = Inr (JArray ((acc @ [v]) @ vs), r)"
      using Cons.IH [OF False _ len(1)] Cons.prems(2) by simp
    ultimately show ?thesis using False by (simp add: comma_join_Cons n peek_def)
  qed
qed

lemma parse_member_start:
  "parse_members (Suc m) D (dump_member D (key, v) @ t) acc =
     rbind (parse_value m D (dump_value D v @ t)) (\<lambda>(v, r1).
       let r2 = skip_ws r1; acc' = acc @ [(key, v)]
       in rbind (peek r2) (\<lambda>e.
         if e = CHR '','' then parse_members m D (tl r2) acc'
         else if e = CHR ''}'' then Inr (JObject acc', tl r2)
         else json_fail (''expected '' @ in_quotes '','' @ '' or '' @ in_quotes ''}'')))"
proof -
  have "skip_ws (dump_member D (key, v) @ t) = dump_string key @ CHR '':'' # dump_value D v @ t"
    by (simp add: dump_member_def dump_string_def)
  moreover have "peek (dump_string key @ CHR '':'' # dump_value D v @ t) = Inr (CHR 0x22)"
    by (simp add: dump_string_def peek_def)
  ultimately show ?thesis
    using parse_dump_string [of key "CHR '':'' # dump_value D v @ t"] by (simp add: peek_def)
qed

lemma parse_dump_members:
  assumes "kvs \<noteq> []" "\<forall>kv \<in> set kvs. reads_back D (snd kv)"
    "2 * length (comma_join (map (dump_member D) kvs)) + 2 \<le> n"
  shows "parse_members n D (comma_join (map (dump_member D) kvs) @ CHR ''}'' # r) acc = Inr (JObject (acc @ kvs), r)"
  using assms
proof (induction kvs arbitrary: n acc)
  case Nil
  then show ?case by simp
next
  case (Cons kv kvs)
  obtain k v where kv: "kv = (k, v)" by (cases kv)
  from Cons.prems(3) obtain m where n: "n = Suc m" by (cases n) auto
  show ?case
  proof (cases "kvs = []")
    case True
    have "parse_value m D (dump_value D v @ CHR ''}'' # r) = Inr (v, CHR ''}'' # r)"
      using Cons.prems(2,3) True by (simp add: reads_back_def n kv dump_member_length)
    with True show ?thesis by (simp add: n kv parse_member_start peek_def del: parse_members.simps)
  next
    case False
    let ?rest = "comma_join (map (dump_member D) kvs) @ CHR ''}'' # r"
    have len: "2 * length (comma_join (map (dump_member D) kvs)) + 2 \<le> m" "2 * length (dump_value D v) + 1 \<le> m"
      using Cons.prems(3) False by (simp_all add: comma_join_Cons n kv dump_member_length)
    have "parse_value m D (dump_value D v @ CHR '','' # ?rest) = Inr (v, CHR '','' # ?rest)"
      using Cons.prems(2) len(2) by (simp add: reads_back_def kv)
    moreover have "parse_members m D ?rest (acc @ [(k, v)]) = Inr (JObject ((acc @ [(k, v)]) @ kvs), r)"
      using Cons.IH [OF False _ len(1)] Cons.prems(2) by simp
    ultimately show ?thesis
      using False by (simp add: comma_join_Cons n kv parse_member_start peek_def del: parse_members.simps)
  qed
qed

lemma reads_back_scalar:
  assumes "plain_json v" "array_items v = []" "object_items v = []"
  shows "reads_back D v"
proof -
  have "parse_value (Suc m) D (dump_value D v @ r) = Inr (v, r)" if r: "value_end r" for m r
  proof (cases v)
    case (JInt n)
    obtain c t where c: "print_int n = c # t" using print_int_hd(2) [of n] by (cases "print_int n") auto
    with print_int_hd(1) [of n] have "c = CHR ''-'' \<or> is_digit c" by simp
    then have "\<not> is_ws c" "c \<notin> {CHR ''{'', CHR ''['', CHR 0x22, CHR ''t'', CHR ''f'', CHR ''n''}"
      by (auto simp: is_ws_def is_digit_def)
    with JInt c parse_print_int [of n r D] assms(1) r show ?thesis
      by (simp add: skip_ws_stop peek_def)
  next
    case (JString s)
    have "dump_string s @ r = CHR 0x22 # (concat (map dump_char s) @ CHR 0x22 # r)" by (simp add: dump_string_def)
    with JString parse_dump_string [of s r] show ?thesis by (simp add: peek_def)
  next
    case (JArray vs)
    with assms(2) show ?thesis by (simp add: skip_ws_def is_ws_def peek_def)
  next
    case (JObject kvs)
    with assms(3) show ?thesis by (simp add: skip_ws_def is_ws_def peek_def)
  qed (use assms(1) in \<open>auto simp: skip_ws_def is_ws_def peek_def parse_bool_def parse_null_def\<close>)
  then show ?thesis unfolding reads_back_def by (metis Suc_le_D Suc_eq_plus1)
qed

lemma reads_back_array:
  assumes "vs \<noteq> []" "\<forall>v \<in> set vs. reads_back D v \<and> plain_json v"
  shows "reads_back D (JArray vs)"
  unfolding reads_back_def
proof (intro allI impI, elim conjE)
  fix n r
  let ?t = "comma_join (map (dump_value D) vs)"
  assume le: "2 * length (dump_value D (JArray vs)) + 1 \<le> n"
  then obtain m where m: "n = Suc m" "2 * length ?t + 2 \<le> m" by (cases n) auto
  obtain v vs' where vs: "vs = v # vs'" using assms(1) by (cases vs) auto
  obtain c t where v: "dump_value D v = c # t" "\<not> is_ws c" "c \<noteq> CHR '']''"
    using dump_hd [of v D] assms(2) vs by auto
  obtain t' where "?t = c # t'" using v(1) by (cases vs') (auto simp: vs)
  then have "skip_ws (?t @ CHR '']'' # r) = ?t @ CHR '']'' # r" "peek (?t @ CHR '']'' # r) = Inr c"
    using v(2) by (simp_all add: skip_ws_stop peek_def)
  with parse_dump_elements [OF assms(1) _ m(2), of r "[]"] assms(2) v(3)
  show "parse_value n D (dump_value D (JArray vs) @ r) = Inr (JArray vs, r)"
    by (simp add: m(1) skip_ws_stop is_ws_def peek_def del: parse_elements.simps)
qed

lemma reads_back_object:
  assumes "kvs \<noteq> []" "\<forall>kv \<in> set kvs. reads_back D (snd kv)"
  shows "reads_back D (JObject kvs)"
  unfolding reads_back_def
proof (intro allI impI, elim conjE)
  fix n r
  let ?t = "comma_join (map (dump_member D) kvs)"
  assume le: "2 * length (dump_value D (JObject kvs)) + 1 \<le> n"
  then obtain m where m: "n = Suc m" "2 * length ?t + 2 \<le> m"
    by (cases n) (auto simp: dump_object simp del: dump_value.simps)
  obtain t' where "?t = CHR 0x22 # t'"
    using assms(1) by (cases kvs; cases "tl kvs") (auto simp: dump_member_def dump_string_def)
  then have "skip_ws (?t @ CHR ''}'' # r) = ?t @ CHR ''}'' # r" "peek (?t @ CHR ''}'' # r) = Inr (CHR 0x22)"
    by (simp_all add: peek_def)
  with parse_dump_members [OF assms m(2), of r "[]"]
  show "parse_value n D (dump_value D (JObject kvs) @ r) = Inr (JObject kvs, r)"
    by (simp add: m(1) dump_object skip_ws_stop is_ws_def peek_def del: parse_members.simps dump_value.simps)
qed

lemma reads_back_plain: "plain_json v \<Longrightarrow> reads_back D v"
proof (induction v)
  case (JArray vs)
  then show ?case by (cases "vs = []") (auto intro: reads_back_array reads_back_scalar)
next
  case (JObject kvs)
  then have "\<forall>kv \<in> set kvs. reads_back D (snd kv)" by (auto simp: snds.simps prod_set_defs)
  with JObject.prems show ?case by (cases "kvs = []") (auto intro: reads_back_object reads_back_scalar)
qed (auto intro: reads_back_scalar)

lemma parse_dump_plain: "plain_json v \<Longrightarrow> json_parse D (dump_value D v) = Inr v"
  using reads_back_plain [of v D, unfolded reads_back_def, rule_format, of "2 * length (dump_value D v) + 2" "[]"]
  by (simp add: json_parse_def del: parse_value.simps)

section \<open>One value per line\<close>

text \<open>Printed values have no control characters, so no line break and no carriage return.\<close>

definition no_control :: "string \<Rightarrow> bool" where
  "no_control s \<longleftrightarrow> (\<forall>c \<in> set s. 32 \<le> (of_char c :: nat))"

lemma no_control_simps [simp]:
  "no_control []" "no_control (c # s) \<longleftrightarrow> 32 \<le> (of_char c :: nat) \<and> no_control s"
  "no_control (s @ t) \<longleftrightarrow> no_control s \<and> no_control t"
  by (auto simp: no_control_def)

lemma no_control_newline: "no_control s \<Longrightarrow> CHR 0x0A \<notin> set s" "no_control s \<Longrightarrow> CHR 0x0D \<notin> set s"
  by (auto simp: no_control_def dest: bspec)

lemma no_control_dump_string: "no_control (dump_string s)"
proof -
  have "no_control (dump_char c)" for c
  proof -
    have "(of_char c :: nat) div 16 < 16" by (simp add: div_less_iff_less_mult)
    then have "32 \<le> (of_char (digit_char (of_char c div 16)) :: nat)" by simp
    moreover have "32 \<le> (of_char (digit_char (of_char c mod 16)) :: nat)" by simp
    ultimately show ?thesis by (simp add: dump_char_def del: digit_char.simps)
  qed
  then have "no_control (concat (map dump_char s))" by (induction s) simp_all
  then show ?thesis by (simp add: dump_string_def)
qed

lemma no_control_comma_join: "\<forall>s \<in> set ss. no_control s \<Longrightarrow> no_control (comma_join ss)"
  by (induction ss rule: comma_join.induct) auto

lemma no_control_print_int: "no_control (print_int n)"
  using print_nat_digits by (fastforce simp: print_int_def is_digit_def no_control_def)

lemma no_control_dump: "plain_json v \<Longrightarrow> no_control (dump_value D v)"
proof (induction v)
  case (JInt n)
  then show ?case by (simp add: no_control_print_int)
next
  case (JString s)
  then show ?case by (simp add: no_control_dump_string)
next
  case (JArray vs)
  then show ?case using no_control_comma_join [of "map (dump_value D) vs"] by auto
next
  case (JObject kvs)
  then have "\<forall>kv \<in> set kvs. no_control (dump_member D kv)"
    by (auto simp: dump_member_def no_control_dump_string snds.simps prod_set_defs)
  then show ?case
    using no_control_comma_join [of "map (dump_member D) kvs"] by (simp add: dump_object del: dump_value.simps)
qed auto

text \<open>C34: the parser is total: on every text it returns a value or throws one of the exceptions of the
  source (a parse error, or what \<open>stoi\<close>, \<open>stoll\<close> or \<open>stod\<close> throw); the fuel of the model is never what
  stops it, whatever the nesting of the text.\<close>

theorem json_parse_terminates:
  assumes "doubles_ok D"
  shows "json_parse D text \<noteq> Inl OutOfFuel"
  using parse_fuel_all [OF assms, of "2 * length text + 2"]
  by (auto simp: json_parse_def rbind_eq_Inl simp del: parse_value.simps)

text \<open>C16: a JSON value without floating-point numbers and with 64-bit integers is printed on one line, and
  \<open>Json::parse\<close> reads the value back from that line: strings with quotes, backslashes and control
  characters, nested arrays and objects, and repeated keys all survive, in order.\<close>

theorem json_round_trip:
  assumes "plain_json v"
  shows "json_parse D (dump_value D v) = Inr v \<and> CHR 0x0A \<notin> set (dump_value D v)"
  using parse_dump_plain [OF assms] no_control_newline(1) [OF no_control_dump [OF assms]] by blast

text \<open>A sample of every plain constructor, with the escapes of \<open>dump_string\<close>.\<close>

definition sample_doubles :: "unit doubles" where
  "sample_doubles = \<lparr>print_double = \<lambda>x. ''0.0'', read_double = \<lambda>s. Inr (), double_to_ll = \<lambda>x. 0\<rparr>"

definition sample_json :: "unit json" where
  "sample_json = JObject
     [(''k'', JArray [JNull, JBool True, JInt (- 42)]), ([CHR 0x0A, CHR 0x01, CHR 0x22], JString ''x''), (''k'', JObject [])]"

lemma sample_plain: "plain_json sample_json"
  by (simp add: sample_json_def fits_ll_iff)

lemma sample_doubles_ok: "doubles_ok sample_doubles"
  by (simp add: doubles_ok_def sample_doubles_def)

theorem json_parse_terminates_witness:
  "json_parse sample_doubles ''[[1, {'' \<noteq> Inl OutOfFuel \<and>
   json_parse sample_doubles ''[[1, {'' = json_fail ''unexpected end''"
  using json_parse_terminates [OF sample_doubles_ok, of "''[[1, {''"]
  by (simp add: json_parse_def eval_nat_numeral skip_ws_def is_ws_def peek_def json_fail_def parse_number_def
      is_digit_def is_float_char_def stoll_def read_digits_def digit_value_def fits_ll_iff)

theorem json_round_trip_witness:
  "json_parse sample_doubles (dump_value sample_doubles sample_json) = Inr sample_json \<and>
   CHR 0x0A \<notin> set (dump_value sample_doubles sample_json)"
  using json_round_trip [OF sample_plain, of sample_doubles] by simp

end
