(* ===== verification/Wal.thy ===== *)
theory Wal
  imports Json_Properties Checksum
begin

text \<open>
  The write-ahead log and snapshot file of one shard: class \<open>WalStore\<close> of \<open>include/recovery.hpp\<close> and
  \<open>src/recovery.cpp\<close>.

  The store holds what the program knows (\<open>pending_\<close>, \<open>batch_count_\<close>, whether the log is open) and the
  files as the operating system has them: the text of the log, how much of it is known to be on disk,
  and the snapshot. A crash of the process keeps the files and nothing else; a crash of the machine may
  also cut the log anywhere behind \<open>wal_synced\<close>.

  Calls that can fail and whose failure the program reports (\<open>fopen\<close>, \<open>rename\<close>) take their outcome as an
  argument. Those whose result it ignores (\<open>fwrite\<close>, \<open>fflush\<close>, \<open>fsync\<close>, \<open>mkdir\<close>) are taken to succeed.
  An operation that throws after it changed the store returns both the error and the store.
\<close>

datatype ack_policy = Async | Fsync

record wal_store =
  wal_path :: string
  snapshot_path :: string
  wal_ack :: ack_policy
  wal_open :: bool
  pending :: string
  batch_count :: nat
  wal_file :: string
  wal_synced :: nat
  snapshot_file :: "string option"

definition commit_batch :: nat where
  "commit_batch = 64"

section \<open>Paths\<close>

text \<open>The directories \<open>ensure_directory\<close> makes, in order: \<open>made\<close> is \<open>accumulated\<close>.\<close>

fun directories :: "string \<Rightarrow> string \<Rightarrow> string list" where
  "directories made [] = (if made = [] then [] else [made])"
| "directories made (c # cs) =
     (if c = CHR ''/'' then (if made = [] then [] else [made]) @ directories (made @ [CHR ''/'']) cs
      else directories (made @ [c]) cs)"

definition ensure_directory :: "string \<Rightarrow> string list" where
  "ensure_directory root = directories [] root"

definition wal_name :: "string \<Rightarrow> int \<Rightarrow> string" where
  "wal_name root shard_id = root @ ''/shard_'' @ print_int shard_id @ ''.wal.jsonl''"

definition snapshot_name :: "string \<Rightarrow> int \<Rightarrow> string" where
  "snapshot_name root shard_id = root @ ''/shard_'' @ print_int shard_id @ ''.snapshot.json''"

section \<open>The log\<close>

text \<open>\<open>fopen (..., "ab")\<close> keeps what is in the log; \<open>file\<close> and \<open>snap\<close> are the files found.\<close>

definition open_wal :: "bool \<Rightarrow> string \<Rightarrow> int \<Rightarrow> ack_policy \<Rightarrow> string \<Rightarrow> string option \<Rightarrow> wal_store result" where
  "open_wal fopen_ok root shard_id ack file snap =
     (if fopen_ok
      then Inr \<lparr>wal_path = wal_name root shard_id, snapshot_path = snapshot_name root shard_id, wal_ack = ack,
                wal_open = True, pending = [], batch_count = 0, wal_file = file, wal_synced = length file,
                snapshot_file = snap\<rparr>
      else Inl (RuntimeError (''failed to open WAL: '' @ wal_name root shard_id)))"

definition wal_flush :: "wal_store \<Rightarrow> wal_store" where
  "wal_flush w =
     (if \<not> wal_open w then w
      else
        (let w1 = (if pending w \<noteq> [] then w\<lparr>wal_file := wal_file w @ pending w, pending := []\<rparr> else w);
             w2 = w1\<lparr>batch_count := 0\<rparr>
         in if wal_ack w2 = Fsync then w2\<lparr>wal_synced := length (wal_file w2)\<rparr> else w2))"

text \<open>\<open>snprintf "%08x"\<close>.\<close>

definition hex8 :: "32 word \<Rightarrow> string" where
  "hex8 n = map (\<lambda>i. digit_char (unat n div 16 ^ i mod 16)) (rev [0..<8])"

definition wal_record :: "'d doubles \<Rightarrow> 'd json \<Rightarrow> string" where
  "wal_record D command =
     (let json = dump_value D command in hex8 (crc32 json 0) @ CHR '' '' # json @ [CHR 0x0A])"

definition wal_append :: "'d doubles \<Rightarrow> 'd json \<Rightarrow> wal_store \<Rightarrow> wal_store" where
  "wal_append D command w =
     (let w1 = w\<lparr>pending := pending w @ wal_record D command, batch_count := batch_count w + 1\<rparr>
      in if batch_count w1 \<ge> commit_batch then wal_flush w1 else w1)"

text \<open>The lines \<open>std::getline\<close> reads: a last line without a line break counts, an empty rest does not.\<close>

function split_lines :: "string \<Rightarrow> string list" where
  "split_lines t =
     (if t = [] then []
      else takeWhile (\<lambda>c. c \<noteq> CHR 0x0A) t # split_lines (tl (dropWhile (\<lambda>c. c \<noteq> CHR 0x0A) t)))"
  by pat_completeness auto

termination
proof (relation "measure length")
  fix t :: string
  assume "t \<noteq> []"
  with length_dropWhile_le [of "\<lambda>c. c \<noteq> CHR 0x0A" t]
  show "(tl (dropWhile (\<lambda>c. c \<noteq> CHR 0x0A) t), t) \<in> measure length"
    by (cases t; cases "dropWhile (\<lambda>c. c \<noteq> CHR 0x0A) t") auto
qed simp

declare split_lines.simps [simp del]

text \<open>\<open>std::strtoul(s, nullptr, 16)\<close> cast to 32 bits; 0 when there is no number.\<close>

definition strtoul_hex :: "string \<Rightarrow> 32 word" where
  "strtoul_hex s = (case stoi_hex s of Inl _ \<Rightarrow> 0 | Inr n \<Rightarrow> word_of_int n)"

definition drop_cr :: "string \<Rightarrow> string" where
  "drop_cr line = (if line \<noteq> [] \<and> last line = CHR 0x0D then butlast line else line)"

fun replay_lines :: "'d doubles \<Rightarrow> string list \<Rightarrow> 'd json list result" where
  "replay_lines D [] = Inr []"
| "replay_lines D (l # ls) =
     (let line = drop_cr l
      in if length line < 9 \<or> line ! 8 \<noteq> CHR '' '' then replay_lines D ls
         else if crc32 (drop 9 line) 0 \<noteq> strtoul_hex (take 8 line) then Inr []
         else rbind (json_parse D (drop 9 line)) (\<lambda>j. rbind (replay_lines D ls) (\<lambda>js. Inr (j # js))))"

definition replay_commands :: "'d doubles \<Rightarrow> wal_store \<Rightarrow> ('d json list \<times> wal_store) result" where
  "replay_commands D w =
     (let w1 = wal_flush w
      in rbind (replay_lines D (split_lines (wal_file w1))) (\<lambda>commands. Inr (commands, w1)))"

section \<open>The snapshot\<close>

definition truncate_wal :: "bool \<Rightarrow> wal_store \<Rightarrow> unit result \<times> wal_store" where
  "truncate_wal fopen_ok w =
     (if fopen_ok
      then (Inr (), w\<lparr>wal_open := True, wal_file := [], wal_synced := 0, pending := [], batch_count := 0\<rparr>)
      else (Inl (RuntimeError (''failed to truncate WAL: '' @ wal_path w)), w\<lparr>wal_open := False\<rparr>))"

text \<open>The outcomes of the three calls of \<open>save_snapshot\<close> that are checked.\<close>

record snapshot_io =
  tmp_opened :: bool
  renamed :: bool
  wal_reopened :: bool

definition save_snapshot :: "'d doubles \<Rightarrow> snapshot_io \<Rightarrow> 'd json \<Rightarrow> wal_store \<Rightarrow> unit result \<times> wal_store" where
  "save_snapshot D io snap w =
     (let w1 = wal_flush w; payload = dump_value D snap; tmp = snapshot_path w @ ''.tmp''
      in if \<not> tmp_opened io then (Inl (RuntimeError (''failed to open snapshot temp: '' @ tmp)), w1)
         else if \<not> renamed io then (Inl (RuntimeError (''failed to commit snapshot: '' @ snapshot_path w)), w1)
         else truncate_wal (wal_reopened io) (w1\<lparr>snapshot_file := Some payload\<rparr>))"

definition read_snapshot :: "'d doubles \<Rightarrow> wal_store \<Rightarrow> 'd json option result" where
  "read_snapshot D w =
     (case snapshot_file w of
        None \<Rightarrow> Inr None
      | Some payload \<Rightarrow>
          (if payload = [] then Inr None else rbind (json_parse D payload) (\<lambda>j. Inr (Some j))))"

definition wal_close :: "wal_store \<Rightarrow> wal_store" where
  "wal_close w = (if wal_open w then (wal_flush w)\<lparr>wal_open := False\<rparr> else w)"

section \<open>Moves\<close>

text \<open>The move constructor: the new store and what is left of the old one. \<open>moved\<close> is the value the
  library leaves in a string that was moved from. Both stores name the same files.\<close>

definition wal_move :: "(string \<Rightarrow> string) \<Rightarrow> wal_store \<Rightarrow> wal_store \<times> wal_store" where
  "wal_move moved other =
     (other, other\<lparr>wal_path := moved (wal_path other), snapshot_path := moved (snapshot_path other),
        pending := moved (pending other), wal_open := False, batch_count := 0\<rparr>)"

text \<open>Move assignment between different stores closes the target first; the third component is the target
  as it was closed, whose files stay behind.\<close>

definition wal_move_assign :: "(string \<Rightarrow> string) \<Rightarrow> wal_store \<Rightarrow> wal_store \<Rightarrow> wal_store \<times> wal_store \<times> wal_store" where
  "wal_move_assign moved target other =
     (fst (wal_move moved other), snd (wal_move moved other), wal_close target)"

end
