(* ===== verification/Snapshot.thy ===== *)
theory Snapshot
  imports Json_Properties Engine_Ids
begin

text \<open>
  Snapshots of the matching engine: \<open>snapshot\<close>, \<open>load_snapshot\<close> and their helpers in
  \<open>src/matching_engine.cpp\<close>.

  \<open>books_\<close> is an unordered dictionary and \<open>snapshot\<close> writes the books in its iteration order, which C++
  leaves open; it is the argument \<open>syms\<close> of \<open>snapshot\<close>, and what the program relies on is \<open>enumerates\<close>:
  each key comes once.

  A snapshot keeps the orders of each level in time order, but neither their \<open>entered_sequence\<close> nor the
  identity of their list nodes. \<open>order_core\<close> is what it keeps.
\<close>

section \<open>Writing\<close>

definition order_json :: "resting_order \<Rightarrow> 'd json" where
  "order_json ord =
     json_set ''remaining'' (from_int (ro_remaining ord))
       (json_set ''participant_id'' (from_string (ro_participant_id ord))
         (json_set ''order_id'' (from_int (ro_order_id ord)) make_object))"

definition level_json :: "int \<times> level \<Rightarrow> 'd json" where
  "level_json kv =
     json_set ''orders'' (foldl (\<lambda>orders nd. json_push_back (order_json (snd nd)) orders) make_array (snd kv))
       (json_set ''price_ticks'' (from_int (fst kv)) make_object)"

definition serialize_side :: "book \<Rightarrow> side \<Rightarrow> 'd json" where
  "serialize_side b sd =
     foldl (\<lambda>levels kv. json_push_back (level_json kv) levels) make_array
       (if sd = Buy then rev (bids b) else asks b)"

definition book_json :: "book \<Rightarrow> 'd json" where
  "book_json b =
     json_set ''asks'' (serialize_side b Sell) (json_set ''bids'' (serialize_side b Buy) make_object)"

definition snapshot :: "string list \<Rightarrow> engine \<Rightarrow> 'd json" where
  "snapshot syms e =
     json_set ''books''
       (foldl (\<lambda>bks s. case books e s of None \<Rightarrow> bks | Some b \<Rightarrow> json_set s (book_json b) bks) make_object syms)
       (json_set ''sequence'' (from_int (engine_sequence e)) make_object)"

definition enumerates :: "string list \<Rightarrow> engine \<Rightarrow> bool" where
  "enumerates syms e \<longleftrightarrow> distinct syms \<and> set syms = dom (books e)"

section \<open>Reading\<close>

definition restored_command :: "string \<Rightarrow> side \<Rightarrow> int \<Rightarrow> int \<Rightarrow> string \<Rightarrow> int \<Rightarrow> add_order" where
  "restored_command symb sd order_id price participant remaining =
     \<lparr>ao_symbol = symb, ao_order_id = order_id, ao_participant_id = participant, ao_side = sd,
      ao_price_ticks = price, ao_quantity = remaining, ao_time_in_force = GTC, ao_stp = StpNone\<rparr>"

definition restore_order ::
    "'d doubles \<Rightarrow> string \<Rightarrow> side \<Rightarrow> 'd json \<Rightarrow> 'd json \<Rightarrow> book \<times> engine \<Rightarrow> book \<times> engine" where
  "restore_order D symb sd price ord be =
     (case (json_find ''order_id'' ord, json_find ''participant_id'' ord, json_find ''remaining'' ord) of
        (Some order_id, Some participant, Some remaining) \<Rightarrow>
          rest_order (fst be)
            (restored_command symb sd (as_int D order_id) (as_int D price) (as_string participant)
               (as_int D remaining))
            (as_int D remaining) (snd be)
      | _ \<Rightarrow> be)"

definition restore_level ::
    "'d doubles \<Rightarrow> string \<Rightarrow> side \<Rightarrow> 'd json \<Rightarrow> book \<times> engine \<Rightarrow> book \<times> engine" where
  "restore_level D symb sd lv be =
     (case (json_find ''price_ticks'' lv, json_find ''orders'' lv) of
        (Some price, Some orders) \<Rightarrow>
          (if is_array orders then fold (restore_order D symb sd price) (array_items orders) be else be)
      | _ \<Rightarrow> be)"

definition restore_side :: "'d doubles \<Rightarrow> string \<Rightarrow> 'd json \<Rightarrow> side \<Rightarrow> engine \<Rightarrow> engine" where
  "restore_side D symb levels sd e =
     (if is_array levels
      then (let (b, e1) = fold (restore_level D symb sd) (array_items levels) (book_for symb e)
            in store_book symb b e1)
      else e)"

definition restore_book :: "'d doubles \<Rightarrow> string \<times> 'd json \<Rightarrow> engine \<Rightarrow> engine result" where
  "restore_book D kv e =
     (if \<not> is_object (snd kv)
      then Inl (MatchingEngineError ''invalid snapshot: book data must be an object'')
      else
        (let e1 = (case json_find ''bids'' (snd kv) of None \<Rightarrow> e | Some l \<Rightarrow> restore_side D (fst kv) l Buy e)
         in Inr (case json_find ''asks'' (snd kv) of None \<Rightarrow> e1 | Some l \<Rightarrow> restore_side D (fst kv) l Sell e1)))"

definition load_snapshot :: "'d doubles \<Rightarrow> 'd json \<Rightarrow> engine \<Rightarrow> engine result" where
  "load_snapshot D snap e =
     (let e0 = e\<lparr>books := (\<lambda>_. None), index := (\<lambda>_. None),
                 engine_sequence := (case json_find ''sequence'' snap of None \<Rightarrow> 0 | Some n \<Rightarrow> as_int D n)\<rparr>
      in case json_find ''books'' snap of
           None \<Rightarrow> Inl (MatchingEngineError (''invalid snapshot: '' @ in_quotes ''books'' @ '' must be an object''))
         | Some bks \<Rightarrow>
             (if is_object bks then rfold (restore_book D) (object_items bks) e0
              else Inl (MatchingEngineError
                (''invalid snapshot: '' @ in_quotes ''books'' @ '' must be an object''))))"

section \<open>The text of a snapshot\<close>

lemmas json_builders = make_object_def make_array_def from_int_def from_string_def

lemma foldl_push_back:
  "foldl (\<lambda>acc x. json_push_back (f x) acc) (JArray vs) xs = JArray (vs @ map f xs)"
  by (induction xs arbitrary: vs) simp_all

lemma order_json_eq:
  "order_json ord = JObject [(''order_id'', JInt (ro_order_id ord)),
     (''participant_id'', JString (ro_participant_id ord)), (''remaining'', JInt (ro_remaining ord))]"
  by (simp add: order_json_def json_builders)

lemma level_json_eq:
  "level_json (p, lv) = JObject [(''price_ticks'', JInt p), (''orders'', JArray (map (\<lambda>nd. order_json (snd nd)) lv))]"
  by (simp add: level_json_def json_builders foldl_push_back)

lemma serialize_side_eq:
  "serialize_side b sd = JArray (map level_json (if sd = Buy then rev (book_side sd b) else book_side sd b))"
  by (cases sd) (simp_all add: serialize_side_def json_builders foldl_push_back)

lemma snapshot_eq:
  assumes "set syms \<subseteq> dom (books e)"
  shows "snapshot syms e = JObject [(''sequence'', JInt (engine_sequence e)),
    (''books'', JObject (map (\<lambda>s. (s, book_json (the (books e s)))) syms))]"
proof -
  have "foldl (\<lambda>bks s. case books e s of None \<Rightarrow> bks | Some b \<Rightarrow> json_set s (book_json b) bks) (JObject kvs) syms =
      JObject (kvs @ map (\<lambda>s. (s, book_json (the (books e s)))) syms)" for kvs :: "(string \<times> 'a json) list"
    using assms by (induction syms arbitrary: kvs) auto
  then show ?thesis by (simp add: snapshot_def json_builders)
qed

end
