(* ===== verification/Sharded.thy ===== *)
theory Sharded
  imports Wal Snapshot Pre_Trade_Risk
begin

unbundle bit_operations_syntax

text \<open>
  The sharded engine of \<open>include/sharded.hpp\<close> and \<open>src/sharded.cpp\<close>: one matching engine and one log per
  shard, commands routed by a hash of the symbol, checked for ingress order and risk, logged, then
  executed; snapshots of all shards and recovery of one.

  \<open>engines_[s]\<close> and the like are within the vectors because \<open>shard\<close> is (\<open>shard_in_range\<close>). When an
  operation throws, the model returns the error alone, except for \<open>snapshot_all\<close>, which keeps the shards
  it has already saved.
\<close>

record sharded =
  shard_count :: int
  engines :: "engine list"
  wals :: "wal_store list"
  risk :: risk_limits
  last_ingress_sequence :: "int list"

text \<open>What the constructor finds on disk for each shard: whether \<open>fopen\<close> succeeds, the log and the
  snapshot.\<close>

type_synonym disk = "nat \<Rightarrow> bool \<times> string \<times> string option"

fun open_wals :: "string \<Rightarrow> ack_policy \<Rightarrow> disk \<Rightarrow> nat list \<Rightarrow> wal_store list result" where
  "open_wals root ack disk [] = Inr []"
| "open_wals root ack disk (i # is) =
     (let (ok, log, snap) = disk i
      in rbind (open_wal ok root (int i) ack log snap) (\<lambda>w.
         rbind (open_wals root ack disk is) (\<lambda>ws. Inr (w # ws))))"

definition new_sharded :: "int \<Rightarrow> string \<Rightarrow> ack_policy \<Rightarrow> risk_limits \<Rightarrow> disk \<Rightarrow> sharded result" where
  "new_sharded n root ack limits disk =
     (if n \<le> 0 then Inl (InvalidArgument ''shard_count must be positive'')
      else rbind (open_wals root ack disk [0..<nat n]) (\<lambda>ws.
        Inr \<lparr>shard_count = n, engines = replicate (nat n) empty_engine, wals = ws, risk = limits,
             last_ingress_sequence = replicate (nat n) 0\<rparr>))"

section \<open>Routing\<close>

definition fnv_step :: "64 word \<Rightarrow> char \<Rightarrow> 64 word" where
  "fnv_step hash c = (hash XOR word_of_nat (of_char c)) * 1099511628211"

definition shard :: "sharded \<Rightarrow> string \<Rightarrow> nat" where
  "shard sh symb = unat (foldl fnv_step 1469598103934665603 symb mod word_of_int (shard_count sh))"

definition shard_for_symbol :: "sharded \<Rightarrow> string \<Rightarrow> int" where
  "shard_for_symbol sh symb = int (shard sh symb)"

section \<open>Log records\<close>

definition serialize_add :: "add_order \<Rightarrow> 'd json" where
  "serialize_add cmd =
     json_set ''stp'' (from_string (stp_to_string (ao_stp cmd)))
    (json_set ''time_in_force'' (from_string (tif_to_string (ao_time_in_force cmd)))
    (json_set ''quantity'' (from_int (ao_quantity cmd))
    (json_set ''price_ticks'' (from_int (ao_price_ticks cmd))
    (json_set ''side'' (from_string (side_to_string (ao_side cmd)))
    (json_set ''participant_id'' (from_string (ao_participant_id cmd))
    (json_set ''order_id'' (from_int (ao_order_id cmd))
    (json_set ''symbol'' (from_string (ao_symbol cmd)) make_object)))))))"

definition serialize_replace :: "replace_order \<Rightarrow> 'd json" where
  "serialize_replace cmd =
     json_set ''time_in_force'' (from_string (tif_to_string (rp_time_in_force cmd)))
    (json_set ''new_quantity'' (from_int (rp_new_quantity cmd))
    (json_set ''new_price_ticks'' (from_int (rp_new_price_ticks cmd))
    (json_set ''new_order_id'' (from_int (rp_new_order_id cmd))
    (json_set ''order_id'' (from_int (rp_order_id cmd))
    (json_set ''symbol'' (from_string (rp_symbol cmd)) make_object)))))"

definition serialize_cancel :: "cancel_order \<Rightarrow> 'd json" where
  "serialize_cancel cmd =
     json_set ''order_id'' (from_int (co_order_id cmd))
    (json_set ''symbol'' (from_string (co_symbol cmd)) make_object)"

definition log_record :: "string \<Rightarrow> 'd json \<Rightarrow> 'd json" where
  "log_record type command = json_set ''command'' command (json_set ''type'' (from_string type) make_object)"

definition reject_record :: "add_order \<Rightarrow> string \<Rightarrow> 'd json" where
  "reject_record cmd reason = json_set ''reason'' (from_string reason) (log_record ''risk_reject'' (serialize_add cmd))"

section \<open>Commands\<close>

definition put_engine :: "nat \<Rightarrow> engine \<Rightarrow> sharded \<Rightarrow> sharded" where
  "put_engine s e sh = sh\<lparr>engines := (engines sh)[s := e]\<rparr>"

definition log_append :: "'d doubles \<Rightarrow> nat \<Rightarrow> 'd json \<Rightarrow> sharded \<Rightarrow> sharded" where
  "log_append D s rec sh = sh\<lparr>wals := (wals sh)[s := wal_append D rec (wals sh ! s)]\<rparr>"

definition validate_ingress :: "nat \<Rightarrow> int option \<Rightarrow> string \<Rightarrow> int \<Rightarrow> sharded \<Rightarrow> exec_event option \<times> sharded" where
  "validate_ingress s ingress symb order_id sh =
     (case ingress of
        None \<Rightarrow> (None, sh)
      | Some n \<Rightarrow>
          (if n \<le> last_ingress_sequence sh ! s
           then (let (ev, e) = engine_reject symb order_id ''OUT_OF_ORDER_INGRESS'' (engines sh ! s)
                 in (Some ev, put_engine s e sh))
           else (None, sh\<lparr>last_ingress_sequence := (last_ingress_sequence sh)[s := n]\<rparr>)))"

definition sharded_add ::
    "'d doubles \<Rightarrow> add_order \<Rightarrow> int option \<Rightarrow> sharded \<Rightarrow> ((exec_event list \<times> trade list) \<times> sharded) result" where
  "sharded_add D cmd ingress sh =
     (let s = shard sh (ao_symbol cmd)
      in case validate_ingress s ingress (ao_symbol cmd) (ao_order_id cmd) sh of
           (Some rejected, sh1) \<Rightarrow> Inr (([rejected], []), sh1)
         | (None, sh1) \<Rightarrow>
             rbind (check_add (risk sh1) cmd) (\<lambda>reason.
               case reason of
                 Some r \<Rightarrow>
                   (let (ev, e) = engine_reject (ao_symbol cmd) (ao_order_id cmd) r (engines sh1 ! s)
                    in Inr (([ev], []), log_append D s (reject_record cmd r) (put_engine s e sh1)))
               | None \<Rightarrow>
                   (let sh2 = log_append D s (log_record ''add'' (serialize_add cmd)) sh1
                    in rbind (engine_add cmd (engines sh2 ! s)) (\<lambda>(out, e). Inr (out, put_engine s e sh2)))))"

definition sharded_cancel ::
    "'d doubles \<Rightarrow> cancel_order \<Rightarrow> int option \<Rightarrow> sharded \<Rightarrow> (exec_event list \<times> sharded) result" where
  "sharded_cancel D cmd ingress sh =
     (let s = shard sh (co_symbol cmd)
      in case validate_ingress s ingress (co_symbol cmd) (co_order_id cmd) sh of
           (Some rejected, sh1) \<Rightarrow> Inr ([rejected], sh1)
         | (None, sh1) \<Rightarrow>
             (let sh2 = log_append D s (log_record ''cancel'' (serialize_cancel cmd)) sh1
              in rbind (engine_cancel cmd (engines sh2 ! s)) (\<lambda>(evs, e). Inr (evs, put_engine s e sh2))))"

definition sharded_replace ::
    "'d doubles \<Rightarrow> replace_order \<Rightarrow> int option \<Rightarrow> sharded \<Rightarrow> ((exec_event list \<times> trade list) \<times> sharded) result" where
  "sharded_replace D cmd ingress sh =
     (let s = shard sh (rp_symbol cmd)
      in case validate_ingress s ingress (rp_symbol cmd) (rp_order_id cmd) sh of
           (Some rejected, sh1) \<Rightarrow> Inr (([rejected], []), sh1)
         | (None, sh1) \<Rightarrow>
             (let sh2 = log_append D s (log_record ''replace'' (serialize_replace cmd)) sh1
              in rbind (engine_replace cmd (engines sh2 ! s)) (\<lambda>(out, e). Inr (out, put_engine s e sh2))))"

section \<open>Snapshots\<close>

text \<open>\<open>syms i\<close> is the iteration order of the books of shard \<open>i\<close>, \<open>io i\<close> the outcome of its file operations.\<close>

fun snapshot_shards ::
    "'d doubles \<Rightarrow> (nat \<Rightarrow> snapshot_io) \<Rightarrow> (nat \<Rightarrow> string list) \<Rightarrow> nat list \<Rightarrow> sharded \<Rightarrow> unit result \<times> sharded" where
  "snapshot_shards D io syms [] sh = (Inr (), sh)"
| "snapshot_shards D io syms (i # is) sh =
     (let (r, w) = save_snapshot D (io i) (snapshot (syms i) (engines sh ! i)) (wals sh ! i);
          sh1 = sh\<lparr>wals := (wals sh)[i := w]\<rparr>
      in case r of Inl err \<Rightarrow> (Inl err, sh1) | Inr _ \<Rightarrow> snapshot_shards D io syms is sh1)"

definition snapshot_all ::
    "'d doubles \<Rightarrow> (nat \<Rightarrow> snapshot_io) \<Rightarrow> (nat \<Rightarrow> string list) \<Rightarrow> sharded \<Rightarrow> unit result \<times> sharded" where
  "snapshot_all D io syms sh = snapshot_shards D io syms [0..<length (engines sh)] sh"

definition restore_shard :: "'d doubles \<Rightarrow> nat \<Rightarrow> sharded \<Rightarrow> sharded result" where
  "restore_shard D i sh =
     rbind (read_snapshot D (wals sh ! i)) (\<lambda>snap.
       case snap of
         None \<Rightarrow> Inr sh
       | Some j \<Rightarrow> rbind (load_snapshot D j (engines sh ! i)) (\<lambda>e. Inr (put_engine i e sh)))"

definition restore_from_snapshots :: "'d doubles \<Rightarrow> sharded \<Rightarrow> sharded result" where
  "restore_from_snapshots D sh = rfold (restore_shard D) [0..<length (engines sh)] sh"

section \<open>Replay\<close>

definition get_str :: "'d json \<Rightarrow> string \<Rightarrow> string" where
  "get_str command key = (case json_find key command of None \<Rightarrow> [] | Some v \<Rightarrow> as_string v)"

definition get_int :: "'d doubles \<Rightarrow> 'd json \<Rightarrow> string \<Rightarrow> int" where
  "get_int D command key = (case json_find key command of None \<Rightarrow> 0 | Some v \<Rightarrow> as_int D v)"

definition read_add :: "'d doubles \<Rightarrow> 'd json \<Rightarrow> add_order" where
  "read_add D command =
     \<lparr>ao_symbol = get_str command ''symbol'', ao_order_id = get_int D command ''order_id'',
      ao_participant_id = get_str command ''participant_id'',
      ao_side = side_from_string (get_str command ''side''),
      ao_price_ticks = get_int D command ''price_ticks'', ao_quantity = get_int D command ''quantity'',
      ao_time_in_force = tif_from_string (get_str command ''time_in_force''),
      ao_stp = (case json_find ''stp'' command of None \<Rightarrow> StpNone | Some v \<Rightarrow> stp_from_string (as_string v))\<rparr>"

definition read_cancel :: "'d doubles \<Rightarrow> 'd json \<Rightarrow> cancel_order" where
  "read_cancel D command =
     \<lparr>co_symbol = get_str command ''symbol'', co_order_id = get_int D command ''order_id''\<rparr>"

definition read_replace :: "'d doubles \<Rightarrow> 'd json \<Rightarrow> replace_order" where
  "read_replace D command =
     \<lparr>rp_symbol = get_str command ''symbol'', rp_order_id = get_int D command ''order_id'',
      rp_new_order_id = get_int D command ''new_order_id'',
      rp_new_price_ticks = get_int D command ''new_price_ticks'',
      rp_new_quantity = get_int D command ''new_quantity'',
      rp_time_in_force = tif_from_string (get_str command ''time_in_force'')\<rparr>"

definition apply_record :: "'d doubles \<Rightarrow> 'd json \<Rightarrow> engine \<Rightarrow> engine result" where
  "apply_record D rec e =
     (case (json_find ''type'' rec, json_find ''command'' rec) of
        (Some ty, Some command) \<Rightarrow>
          (if \<not> is_object command then Inl (MatchingEngineError ''invalid wal record'')
           else if as_string ty = ''add'' then rbind (engine_add (read_add D command) e) (\<lambda>r. Inr (snd r))
           else if as_string ty = ''cancel'' then rbind (engine_cancel (read_cancel D command) e) (\<lambda>r. Inr (snd r))
           else if as_string ty = ''replace'' then rbind (engine_replace (read_replace D command) e) (\<lambda>r. Inr (snd r))
           else Inr e)
      | _ \<Rightarrow> Inl (MatchingEngineError ''invalid wal record''))"

text \<open>The engine rebuilt from a log, and the log, which \<open>replay_commands\<close> has flushed.\<close>

definition rebuild :: "'d doubles \<Rightarrow> wal_store \<Rightarrow> (engine \<times> wal_store) result" where
  "rebuild D w =
     rbind (read_snapshot D w) (\<lambda>snap.
     rbind (case snap of None \<Rightarrow> Inr empty_engine | Some j \<Rightarrow> load_snapshot D j empty_engine) (\<lambda>e.
     rbind (replay_commands D w) (\<lambda>(commands, w1).
     rbind (rfold (apply_record D) commands e) (\<lambda>rebuilt. Inr (rebuilt, w1)))))"

definition replay_shard :: "'d doubles \<Rightarrow> int \<Rightarrow> sharded \<Rightarrow> (engine \<times> sharded) result" where
  "replay_shard D shard_id sh =
     (if shard_id < 0 \<or> shard_id \<ge> shard_count sh then Inl (OutOfRange ''invalid shard id'')
      else rbind (rebuild D (wals sh ! nat shard_id)) (\<lambda>(e, w).
        Inr (e, sh\<lparr>wals := (wals sh)[nat shard_id := w]\<rparr>)))"

end
