(* ===== verification/Sharded_Slices.thy ===== *)
theory Sharded_Slices
  imports Sharded Gateway
begin

text \<open>
  Shards do not share state. A \<open>slice\<close> is what belongs to one shard: its engine, its log and its last
  ingress number. Every command reads and writes the slice of its own shard and nothing else
  (\<open>execute_local\<close>), so commands to different shards commute (\<open>execute_commutes\<close>) and one worker
  thread per shard needs no lock.
\<close>

section \<open>Commands of any kind\<close>

text \<open>The three calls of \<open>ThreadedShardedEngine::run_worker\<close>; \<open>cancel\<close> has no trades.\<close>

definition execute ::
    "'d doubles \<Rightarrow> command \<Rightarrow> int option \<Rightarrow> sharded \<Rightarrow> ((exec_event list \<times> trade list) \<times> sharded) result" where
  "execute D c ingress sh =
     (case c of
        CAdd cmd \<Rightarrow> sharded_add D cmd ingress sh
      | CCancel cmd \<Rightarrow> rbind (sharded_cancel D cmd ingress sh) (\<lambda>(evs, sh1). Inr ((evs, []), sh1))
      | CReplace cmd \<Rightarrow> sharded_replace D cmd ingress sh)"

fun command_order_id :: "command \<Rightarrow> int" where
  "command_order_id (CAdd c) = ao_order_id c"
| "command_order_id (CCancel c) = co_order_id c"
| "command_order_id (CReplace c) = rp_order_id c"

section \<open>Well-formed vectors\<close>

definition wf_sharded :: "sharded \<Rightarrow> bool" where
  "wf_sharded sh \<longleftrightarrow> 0 < shard_count sh \<and> shard_count sh < 2 ^ 31 \<and>
     length (engines sh) = nat (shard_count sh) \<and> length (wals sh) = nat (shard_count sh) \<and>
     length (last_ingress_sequence sh) = nat (shard_count sh)"

lemma shard_in_range:
  assumes "wf_sharded sh"
  shows "shard sh symb < nat (shard_count sh)"
proof -
  let ?n = "word_of_int (shard_count sh) :: 64 word"
  have n: "unat ?n = nat (shard_count sh)"
    using assms by (simp add: wf_sharded_def unsigned_of_int take_bit_int_eq_self)
  then have "unat ?n \<noteq> 0" using assms by (simp add: wf_sharded_def)
  then have "unat (h mod ?n) < unat ?n" for h by (simp add: unat_mod)
  then show ?thesis by (simp add: shard_def n)
qed

lemma length_open_wals: "open_wals root ack disk is = Inr ws \<Longrightarrow> length ws = length is"
  by (induction "is" arbitrary: ws) (auto simp: rbind_eq_Inr split: prod.splits)

lemma new_sharded_wf: "new_sharded n root ack limits disk = Inr sh \<Longrightarrow> n < 2 ^ 31 \<Longrightarrow> wf_sharded sh"
  by (auto simp: new_sharded_def wf_sharded_def rbind_eq_Inr length_open_wals split: if_splits)

section \<open>Slices\<close>

record slice =
  sl_engine :: engine
  sl_wal :: wal_store
  sl_last :: int

definition slice_of :: "sharded \<Rightarrow> nat \<Rightarrow> slice" where
  "slice_of sh s = \<lparr>sl_engine = engines sh ! s, sl_wal = wals sh ! s, sl_last = last_ingress_sequence sh ! s\<rparr>"

definition put_slice :: "nat \<Rightarrow> slice \<Rightarrow> sharded \<Rightarrow> sharded" where
  "put_slice s sl sh = sh\<lparr>engines := (engines sh)[s := sl_engine sl], wals := (wals sh)[s := sl_wal sl],
     last_ingress_sequence := (last_ingress_sequence sh)[s := sl_last sl]\<rparr>"

definition slice_reject :: "command \<Rightarrow> string \<Rightarrow> slice \<Rightarrow> exec_event \<times> slice" where
  "slice_reject c reason sl =
     (let (ev, e) = engine_reject (command_symbol c) (command_order_id c) reason (sl_engine sl)
      in (ev, sl\<lparr>sl_engine := e\<rparr>))"

definition slice_log :: "'d doubles \<Rightarrow> 'd json \<Rightarrow> slice \<Rightarrow> slice" where
  "slice_log D rec sl = sl\<lparr>sl_wal := wal_append D rec (sl_wal sl)\<rparr>"

fun command_record :: "command \<Rightarrow> 'd json" where
  "command_record (CAdd c) = log_record ''add'' (serialize_add c)"
| "command_record (CCancel c) = log_record ''cancel'' (serialize_cancel c)"
| "command_record (CReplace c) = log_record ''replace'' (serialize_replace c)"

definition engine_execute :: "command \<Rightarrow> engine \<Rightarrow> ((exec_event list \<times> trade list) \<times> engine) result" where
  "engine_execute c e =
     (case c of
        CAdd cmd \<Rightarrow> engine_add cmd e
      | CCancel cmd \<Rightarrow> rbind (engine_cancel cmd e) (\<lambda>(evs, e1). Inr ((evs, []), e1))
      | CReplace cmd \<Rightarrow> engine_replace cmd e)"

definition slice_run :: "'d doubles \<Rightarrow> command \<Rightarrow> slice \<Rightarrow> ((exec_event list \<times> trade list) \<times> slice) result" where
  "slice_run D c sl =
     rbind (engine_execute c (sl_engine sl)) (\<lambda>(out, e). Inr (out, (slice_log D (command_record c) sl)\<lparr>sl_engine := e\<rparr>))"

definition slice_checked ::
    "'d doubles \<Rightarrow> risk_limits \<Rightarrow> command \<Rightarrow> slice \<Rightarrow> ((exec_event list \<times> trade list) \<times> slice) result" where
  "slice_checked D limits c sl =
     (case c of
        CAdd cmd \<Rightarrow>
          rbind (check_add limits cmd) (\<lambda>reason.
            case reason of
              None \<Rightarrow> slice_run D c sl
            | Some r \<Rightarrow> (let (ev, sl1) = slice_reject c r sl in Inr (([ev], []), slice_log D (reject_record cmd r) sl1)))
      | _ \<Rightarrow> slice_run D c sl)"

definition slice_execute ::
    "'d doubles \<Rightarrow> risk_limits \<Rightarrow> command \<Rightarrow> int option \<Rightarrow> slice \<Rightarrow> ((exec_event list \<times> trade list) \<times> slice) result" where
  "slice_execute D limits c ingress sl =
     (case ingress of
        None \<Rightarrow> slice_checked D limits c sl
      | Some n \<Rightarrow>
          (if n \<le> sl_last sl
           then (let (ev, sl1) = slice_reject c ''OUT_OF_ORDER_INGRESS'' sl in Inr (([ev], []), sl1))
           else slice_checked D limits c (sl\<lparr>sl_last := n\<rparr>)))"

lemma put_slice_fields [simp]:
  "shard_count (put_slice s sl sh) = shard_count sh" "risk (put_slice s sl sh) = risk sh"
  "engines (put_slice s sl sh) = (engines sh)[s := sl_engine sl]" "wals (put_slice s sl sh) = (wals sh)[s := sl_wal sl]"
  "last_ingress_sequence (put_slice s sl sh) = (last_ingress_sequence sh)[s := sl_last sl]"
  by (simp_all add: put_slice_def)

lemma shard_put_slice [simp]: "shard (put_slice s sl sh) = shard sh"
  by (simp add: shard_def fun_eq_iff)

lemma put_slice_wf [simp]: "wf_sharded (put_slice s sl sh) = wf_sharded sh"
  by (simp add: wf_sharded_def)

lemma slice_of_put:
  "wf_sharded sh \<Longrightarrow> i < nat (shard_count sh) \<Longrightarrow>
     slice_of (put_slice s sl sh) i = (if i = s then sl else slice_of sh i)"
  by (simp add: slice_of_def wf_sharded_def)

lemma put_slice_self: "put_slice s (slice_of sh s) sh = sh"
  by (simp add: put_slice_def slice_of_def)

lemma put_slice_commute:
  "s \<noteq> t \<Longrightarrow> put_slice s a (put_slice t b sh) = put_slice t b (put_slice s a sh)"
  by (simp add: put_slice_def list_update_swap)

text \<open>The pieces of a command act on the slice.\<close>

lemma put_engine_slice: "put_engine s e sh = put_slice s ((slice_of sh s)\<lparr>sl_engine := e\<rparr>) sh"
  by (simp add: put_engine_def put_slice_def slice_of_def)

lemma log_append_slice: "log_append D s rec sh = put_slice s (slice_log D rec (slice_of sh s)) sh"
  by (simp add: log_append_def put_slice_def slice_of_def slice_log_def)

lemma put_slice_twice: "put_slice s a (put_slice s b sh) = put_slice s a sh"
  by (simp add: put_slice_def)

text \<open>What follows the ingress check, as the operations of the sharded engine do it.\<close>

definition shard_run :: "'d doubles \<Rightarrow> nat \<Rightarrow> command \<Rightarrow> sharded \<Rightarrow> ((exec_event list \<times> trade list) \<times> sharded) result" where
  "shard_run D s c sh =
     (let sh2 = log_append D s (command_record c) sh
      in rbind (engine_execute c (engines sh2 ! s)) (\<lambda>(out, e). Inr (out, put_engine s e sh2)))"

definition shard_checked :: "'d doubles \<Rightarrow> nat \<Rightarrow> command \<Rightarrow> sharded \<Rightarrow> ((exec_event list \<times> trade list) \<times> sharded) result" where
  "shard_checked D s c sh =
     (case c of
        CAdd cmd \<Rightarrow>
          rbind (check_add (risk sh) cmd) (\<lambda>reason.
            case reason of
              Some r \<Rightarrow>
                (let (ev, e) = engine_reject (ao_symbol cmd) (ao_order_id cmd) r (engines sh ! s)
                 in Inr (([ev], []), log_append D s (reject_record cmd r) (put_engine s e sh)))
            | None \<Rightarrow> shard_run D s c sh)
      | _ \<Rightarrow> shard_run D s c sh)"

lemma execute_parts:
  "execute D c ingress sh =
     (let s = shard sh (command_symbol c)
      in case validate_ingress s ingress (command_symbol c) (command_order_id c) sh of
           (Some ev, sh1) \<Rightarrow> Inr (([ev], []), sh1)
         | (None, sh1) \<Rightarrow> shard_checked D s c sh1)"
proof (cases c)
  case (CCancel cmd)
  have "rbind (rbind r (\<lambda>(evs, e). Inr (evs, f e))) (\<lambda>(evs, sh). Inr ((evs, []), sh)) =
      rbind (rbind r (\<lambda>(evs, e). Inr ((evs, []), e))) (\<lambda>(out, e). Inr (out, f e))"
    for r :: "(exec_event list \<times> engine) result" and f :: "engine \<Rightarrow> sharded"
    by (cases r) auto
  then show ?thesis
    by (auto simp: CCancel execute_def sharded_cancel_def shard_checked_def shard_run_def engine_execute_def Let_def
        split: prod.splits option.splits)
qed (auto simp: execute_def sharded_add_def sharded_replace_def shard_checked_def shard_run_def engine_execute_def Let_def
    split: prod.splits option.splits intro!: arg_cong [where f = "rbind _"])

abbreviation on_slice ::
    "nat \<Rightarrow> sharded \<Rightarrow> ('a \<times> slice) result \<Rightarrow> ('a \<times> sharded) result" where
  "on_slice s sh r \<equiv> rbind r (\<lambda>(out, sl). Inr (out, put_slice s sl sh))"

lemma shard_run_local:
  assumes "s < length (engines sh)" "s < length (wals sh)"
  shows "shard_run D s c sh = on_slice s sh (slice_run D c (slice_of sh s))"
  using assms
  by (cases "engine_execute c (engines sh ! s)")
    (auto simp: shard_run_def log_append_def put_engine_def slice_run_def slice_log_def slice_of_def put_slice_def)

lemma shard_checked_local:
  assumes "s < length (engines sh)" "s < length (wals sh)"
  shows "shard_checked D s c sh = on_slice s sh (slice_checked D (risk sh) c (slice_of sh s))"
proof (cases c)
  case (CAdd cmd)
  show ?thesis
  proof (cases "check_add (risk sh) cmd")
    case (Inr reason)
    with CAdd assms show ?thesis
      by (cases reason)
        (auto simp: shard_checked_def slice_checked_def shard_run_local slice_reject_def slice_log_def
          log_append_def put_engine_def slice_of_def put_slice_def split_beta)
  qed (simp add: CAdd shard_checked_def slice_checked_def)
qed (simp_all add: shard_checked_def slice_checked_def shard_run_local [OF assms])

lemma execute_local:
  assumes "wf_sharded sh" "s = shard sh (command_symbol c)"
  shows "execute D c ingress sh = on_slice s sh (slice_execute D (risk sh) c ingress (slice_of sh s))"
proof -
  have s: "s < length (engines sh)" "s < length (wals sh)" "s < length (last_ingress_sequence sh)"
    using shard_in_range [OF assms(1), of "command_symbol c"] assms by (simp_all add: wf_sharded_def)
  show ?thesis
  proof (cases ingress)
    case None
    with s show ?thesis
      by (simp add: execute_parts assms(2) [symmetric] validate_ingress_def slice_execute_def shard_checked_local)
  next
    case (Some n)
    let ?sh = "sh\<lparr>last_ingress_sequence := (last_ingress_sequence sh)[s := n]\<rparr>"
    have sl: "slice_of ?sh s = (slice_of sh s)\<lparr>sl_last := n\<rparr>" using s by (simp add: slice_of_def)
    have put: "put_slice s sl ?sh = put_slice s sl sh" for sl by (simp add: put_slice_def)
    have "shard_checked D s c ?sh =
        on_slice s sh (slice_checked D (risk sh) c ((slice_of sh s)\<lparr>sl_last := n\<rparr>))"
      using s by (simp add: shard_checked_local sl put)
    moreover have "put_engine s e sh = put_slice s ((slice_of sh s)\<lparr>sl_engine := e\<rparr>) sh" for e
      by (rule put_engine_slice)
    ultimately show ?thesis
      by (simp add: Some execute_parts assms(2) [symmetric] validate_ingress_def slice_execute_def slice_reject_def
          split_beta) (simp add: slice_of_def)
  qed
qed

section \<open>Commands to different shards commute\<close>

lemma execute_wf: "wf_sharded sh \<Longrightarrow> execute D c ingress sh = Inr (out, sh') \<Longrightarrow> wf_sharded sh'"
  by (auto simp: execute_local rbind_eq_Inr)

lemma execute_pair:
  assumes wf: "wf_sharded sh" and ne: "shard sh (command_symbol c) \<noteq> shard sh (command_symbol d)"
    and one: "execute D c i sh = Inr (out, sh1)" and two: "execute D d j sh1 = Inr (out', sh2)"
  shows "\<exists>sh1'. execute D d j sh = Inr (out', sh1') \<and> execute D c i sh1' = Inr (out, sh2)"
proof -
  let ?s = "shard sh (command_symbol c)" and ?t = "shard sh (command_symbol d)"
  have lt: "?s < nat (shard_count sh)" "?t < nat (shard_count sh)" using shard_in_range [OF wf] by blast+
  from one obtain a where a: "slice_execute D (risk sh) c i (slice_of sh ?s) = Inr (out, a)" "sh1 = put_slice ?s a sh"
    by (auto simp: execute_local [OF wf refl] rbind_eq_Inr)
  have wf1: "wf_sharded sh1" using wf a(2) by simp
  have "execute D d j sh1 = on_slice ?t sh1 (slice_execute D (risk sh) d j (slice_of sh ?t))"
    using execute_local [OF wf1 refl, of D d j] ne lt wf by (simp add: a(2) slice_of_put)
  with two obtain b where b: "slice_execute D (risk sh) d j (slice_of sh ?t) = Inr (out', b)" "sh2 = put_slice ?t b sh1"
    by (auto simp: rbind_eq_Inr)
  have "execute D d j sh = Inr (out', put_slice ?t b sh)" using b(1) by (simp add: execute_local [OF wf refl])
  moreover have "execute D c i (put_slice ?t b sh) = Inr (out, put_slice ?s a (put_slice ?t b sh))"
  proof -
    have "wf_sharded (put_slice ?t b sh)" using wf by simp
    from execute_local [OF this refl, of D c i] show ?thesis using a(1) ne lt wf by (simp add: slice_of_put)
  qed
  moreover have "put_slice ?s a (put_slice ?t b sh) = sh2" using a(2) b(2) put_slice_commute [OF ne] by simp
  ultimately show ?thesis by auto
qed

end
