(* ===== verification/Engine_Similar.thy ===== *)
theory Engine_Similar
  imports Engine_Ids
begin

text \<open>
  When two engines are the same to their users. \<open>order_core\<close> forgets the sequence number at which an
  order entered, which nothing reads; event numbers are forgotten by \<open>event_core\<close>. Two engines are
  \<open>similar\<close> when their queues hold the same orders in the same order and every id finds its order.
  Similar engines answer every command alike and stay similar (\<open>similar_add\<close>, \<open>similar_cancel\<close>,
  \<open>similar_replace\<close>): similarity is a bisimulation. It is what recovery restores.
\<close>

definition order_core :: "resting_order \<Rightarrow> resting_order" where
  "order_core ord = ord\<lparr>ro_entered_sequence := 0\<rparr>"

definition queue_core :: "node list \<Rightarrow> resting_order list" where
  "queue_core q = map (\<lambda>nd. order_core (snd nd)) q"

definition cores :: "queues \<Rightarrow> string \<Rightarrow> side \<Rightarrow> resting_order list" where
  "cores Q s sd = queue_core (Q s sd)"

definition event_core :: "exec_event \<Rightarrow> exec_event" where
  "event_core ev = ev\<lparr>ev_sequence := 0\<rparr>"

definition similar :: "engine \<Rightarrow> engine \<Rightarrow> bool" where
  "similar e e' \<longleftrightarrow> ids_inv e \<and> ids_inv e' \<and> cores (engine_queue e) = cores (engine_queue e')"

definition same_run :: "match_run \<Rightarrow> match_run \<Rightarrow> bool" where
  "same_run r r' \<longleftrightarrow> run_remaining r = run_remaining r' \<and> run_trades r = run_trades r' \<and>
     map event_core (run_events r) = map event_core (run_events r')"

section \<open>Orders up to their sequence number\<close>

lemma order_core_fields [simp]:
  "ro_symbol (order_core x) = ro_symbol x" "ro_order_id (order_core x) = ro_order_id x"
  "ro_participant_id (order_core x) = ro_participant_id x" "ro_side (order_core x) = ro_side x"
  "ro_price_ticks (order_core x) = ro_price_ticks x" "ro_remaining (order_core x) = ro_remaining x"
  by (simp_all add: order_core_def)

lemma order_core_eq_iff:
  "order_core x = order_core y \<longleftrightarrow>
     ro_symbol x = ro_symbol y \<and> ro_order_id x = ro_order_id y \<and> ro_participant_id x = ro_participant_id y \<and>
     ro_side x = ro_side y \<and> ro_price_ticks x = ro_price_ticks y \<and> ro_remaining x = ro_remaining y"
  by (cases x; cases y) (simp add: order_core_def)

lemma queue_core_simps [simp]:
  "queue_core [] = []" "queue_core (nd # q) = order_core (snd nd) # queue_core q"
  "queue_core (q @ q') = queue_core q @ queue_core q'"
  by (simp_all add: queue_core_def)

lemma queue_core_Cons:
  "order_core ord # os = queue_core q' \<longleftrightarrow>
     (\<exists>n' ord' q''. q' = (n', ord') # q'' \<and> order_core ord = order_core ord' \<and> os = queue_core q'')"
  by (cases q') auto

lemma queue_core_mem:
  "queue_core q = queue_core q' \<Longrightarrow> nd \<in> set q \<Longrightarrow> \<exists>nd' \<in> set q'. order_core (snd nd) = order_core (snd nd')"
  by (metis (no_types, lifting) imageE imageI image_set queue_core_def)

lemma queue_core_prefix:
  assumes "queue_core q = queue_core q'"
    and "\<And>x y. order_core (snd x) = order_core (snd y) \<Longrightarrow> P x = P' y"
  shows "queue_core (takeWhile P q) = queue_core (takeWhile P' q') \<and>
    queue_core (dropWhile P q) = queue_core (dropWhile P' q')"
  using assms(1)
proof (induction q arbitrary: q')
  case Nil
  then show ?case by (simp add: queue_core_def)
next
  case (Cons x q)
  then obtain n ord q'' where q': "q' = (n, ord) # q''" "order_core (snd x) = order_core ord" "queue_core q = queue_core q''"
    by (auto simp: queue_core_Cons)
  with Cons.IH [OF q'(3)] assms(2) [of x "(n, ord)"] show ?case by simp
qed

lemma queue_core_volume: "queue_core q = queue_core q' \<Longrightarrow> queue_volume q = queue_volume q'"
proof (induction q arbitrary: q')
  case Nil
  then show ?case by (simp add: queue_core_def)
next
  case (Cons x q)
  then obtain n ord q'' where "q' = (n, ord) # q''" "order_core (snd x) = order_core ord" "queue_core q = queue_core q''"
    by (auto simp: queue_core_Cons)
  with Cons.IH show ?case by (auto simp: queue_volume_def order_core_eq_iff)
qed

lemma cores_set_queue:
  "cores Q = cores Q' \<Longrightarrow> queue_core q = queue_core q' \<Longrightarrow> cores (set_queue s sd q Q) = cores (set_queue s sd q' Q')"
  by (auto simp: cores_def fun_eq_iff set_queue_apply)

lemma coresD: "cores Q = cores Q' \<Longrightarrow> queue_core (Q s sd) = queue_core (Q' s sd)"
  by (simp add: cores_def fun_eq_iff)

section \<open>Matching\<close>

lemma same_run_emit: "same_run r r' \<Longrightarrow> same_run (emit ty s p r) (emit ty s p r')"
  by (simp add: same_run_def event_core_def)

lemma same_run_unindex: "same_run r r' \<Longrightarrow> same_run (unindex k r) (unindex k' r')"
  by (simp add: same_run_def)

lemma same_run_remaining: "same_run r r' \<Longrightarrow> same_run (r\<lparr>run_remaining := k\<rparr>) (r'\<lparr>run_remaining := k\<rparr>)"
  by (simp add: same_run_def)

lemma same_run_steps:
  assumes "same_run r r'" "order_core ord = order_core ord'"
  shows "same_run (stp_skip cmd ord r) (stp_skip cmd ord' r')"
    and "same_run (stp_stop cmd ord r) (stp_stop cmd ord' r')"
    and "same_run (fill_run cmd ord k r) (fill_run cmd ord' k r')"
proof -
  from assms(2) have f: "ro_order_id ord' = ro_order_id ord" "ro_remaining ord' = ro_remaining ord"
    "ro_price_ticks ord' = ro_price_ticks ord" "ro_participant_id ord' = ro_participant_id ord"
    by (simp_all add: order_core_eq_iff)
  show skip: "same_run (stp_skip cmd ord r) (stp_skip cmd ord' r')"
    using assms(1) by (simp add: stp_skip_def cancel_passive_event_def f same_run_unindex same_run_emit)
  show "same_run (stp_stop cmd ord r) (stp_stop cmd ord' r')"
    using assms(1) skip
    by (auto simp: stp_stop_def cancel_aggressor_event_def same_run_emit same_run_remaining same_run_def event_core_def)
  have "trade_of cmd ord' k = trade_of cmd ord k" by (simp add: trade_of_def f)
  with assms(1) show "same_run (fill_run cmd ord k r) (fill_run cmd ord' k r')"
    by (simp add: fill_run_def executed_event_def f same_run_def event_core_def)
qed

lemma match_queue_core:
  assumes "queue_core q = queue_core q'" "same_run r r'"
  shows "queue_core (fst (match_queue cmd q r)) = queue_core (fst (match_queue cmd q' r')) \<and>
    same_run (snd (match_queue cmd q r)) (snd (match_queue cmd q' r'))"
  using assms
proof (induction cmd q r arbitrary: q' r' rule: match_queue.induct)
  case (1 cmd r)
  then show ?case by (simp add: queue_core_def)
next
  case (2 cmd n ord q r)
  from "2.prems"(1) obtain n' ord' q'' where q': "q' = (n', ord') # q''" "order_core ord = order_core ord'"
    "queue_core q = queue_core q''" by (auto simp: queue_core_Cons)
  have fields: "ro_price_ticks ord' = ro_price_ticks ord" "ro_remaining ord' = ro_remaining ord"
    "ro_participant_id ord' = ro_participant_id ord" "ro_order_id ord' = ro_order_id ord"
    using q'(2) by (simp_all add: order_core_eq_iff)
  have rem: "run_remaining r' = run_remaining r" using "2.prems"(2) by (simp add: same_run_def)
  have upd: "order_core (ord\<lparr>ro_remaining := k\<rparr>) = order_core (ord'\<lparr>ro_remaining := k\<rparr>)" for k
    using q'(2) by (simp add: order_core_eq_iff)
  note IH = "2.IH" [OF _ _ _ q'(3)] and steps = same_run_steps [OF "2.prems"(2) q'(2)]
    same_run_steps(3) [OF "2.prems"(2) upd]
  show ?case
    using IH q'(2,3) "2.prems"(2) upd [of "ro_remaining ord - run_remaining r"]
    by (auto simp: q'(1) self_trade_def fields rem Let_def same_run_unindex steps)
qed

section \<open>Commands\<close>

lemma same_accept_run: "same_run (accept_run cmd e) (accept_run cmd e')"
  by (simp add: same_run_def accept_run_def event_core_def)

lemma unfillable_core: "queue_core q = queue_core q' \<Longrightarrow> unfillable cmd q = unfillable cmd q'"
  using queue_core_prefix [of q q' "within_limit cmd" "within_limit cmd"]
  by (auto simp: unfillable_def within_limit_test order_core_eq_iff dest!: queue_core_volume)

lemma enqueue_core:
  assumes "queue_core q = queue_core q'" "order_core (snd nd) = order_core (snd nd')"
  shows "queue_core (enqueue sd p nd q) = queue_core (enqueue sd p nd' q')"
  using queue_core_prefix [OF assms(1), of "\<lambda>x. \<not> worse sd p (ro_price_ticks (snd x))"
      "\<lambda>x. \<not> worse sd p (ro_price_ticks (snd x))"] assms(2)
  by (simp add: enqueue_def order_core_eq_iff)

lemma spec_rest_core:
  assumes "cores Q = cores Q'"
  shows "cores (fst (spec_rest cmd k (Q, e))) = cores (fst (spec_rest cmd k (Q', e')))"
proof -
  have "order_core (snd (n, resting_of cmd k a)) = order_core (snd (n', resting_of cmd k b))" for a b and n n' :: nat
    by (simp add: order_core_eq_iff resting_of_def)
  from cores_set_queue [OF assms enqueue_core [OF coresD [OF assms] this]] show ?thesis
    by (simp add: spec_rest_def Let_def)
qed

text \<open>Answers that differ in event numbers only.\<close>

definition same_answer :: "exec_event list \<times> trade list \<Rightarrow> exec_event list \<times> trade list \<Rightarrow> bool" where
  "same_answer out out' \<longleftrightarrow> map event_core (fst out) = map event_core (fst out') \<and> snd out = snd out'"

lemma spec_add_core:
  assumes "cores Q = cores Q'"
  shows "same_answer (fst (spec_add cmd (Q, e))) (fst (spec_add cmd (Q', e'))) \<and>
    cores (fst (snd (spec_add cmd (Q, e)))) = cores (fst (snd (spec_add cmd (Q', e'))))"
proof -
  let ?s = "ao_symbol cmd" and ?osd = "opposite (ao_side cmd)"
  let ?m = "match_queue cmd (Q ?s ?osd) (accept_run cmd e)" and ?m' = "match_queue cmd (Q' ?s ?osd) (accept_run cmd e')"
  obtain q r q' r' where mq: "?m = (q, r)" "?m' = (q', r')" by fastforce
  with match_queue_core [OF coresD [OF assms] same_accept_run, of cmd ?s ?osd cmd e e']
  have m: "queue_core q = queue_core q'" "same_run r r'" by simp_all
  from m(2) have rem: "run_remaining r' = run_remaining r" by (simp add: same_run_def)
  have un: "unfillable cmd (Q' ?s ?osd) = unfillable cmd (Q ?s ?osd)"
    using unfillable_core [OF coresD [OF assms]] by simp
  have sets: "cores (set_queue ?s ?osd q Q) = cores (set_queue ?s ?osd q' Q')"
    by (rule cores_set_queue [OF assms m(1)])
  have rests: "cores (fst (spec_rest cmd k (set_queue ?s ?osd q Q, f))) = cores (fst (spec_rest cmd k (set_queue ?s ?osd q' Q', f')))"
    for k f f' by (rule spec_rest_core [OF sets])
  have ans: "same_answer (run_events s, run_trades s) (run_events t, run_trades t)" if "same_run s t" for s t
    using that by (simp add: same_answer_def same_run_def)
  have emits: "same_run (rested_run cmd k (r\<lparr>run_engine := f\<rparr>)) (rested_run cmd k (r'\<lparr>run_engine := f'\<rparr>))"
    "same_run (dropped_run cmd k r) (dropped_run cmd k r')" for k f f'
    unfolding rested_run_def dropped_run_def using m(2) by (intro same_run_emit; simp add: same_run_def)+
  consider "unfillable cmd (Q ?s ?osd)" | "\<not> unfillable cmd (Q ?s ?osd)" "0 < run_remaining r" "ao_time_in_force cmd = GTC"
    | "\<not> unfillable cmd (Q ?s ?osd)" "\<not> (0 < run_remaining r \<and> ao_time_in_force cmd = GTC)" by blast
  then show ?thesis
  proof cases
    case 1
    with assms show ?thesis by (simp add: spec_add_def un event_def Let_def same_answer_def event_core_def)
  next
    case 2
    with rests ans [OF emits(1)] show ?thesis by (simp add: spec_add_def un mq rem split_beta Let_def)
  next
    case 3
    with sets ans [OF m(2)] ans [OF emits(2)] show ?thesis by (auto simp: spec_add_def un mq rem Let_def)
  qed
qed

text \<open>In similar engines an id finds the same order.\<close>

lemma similar_index:
  assumes inv: "spec_inv (Q, e)" "spec_inv (Q', e')" "index_complete (Q', e')"
    and c: "cores Q = cores Q'" and ix: "index e k = Some loc"
  shows "\<exists>loc' ord ord'. index e' k = Some loc' \<and> loc_symbol loc' = loc_symbol loc \<and> loc_side loc' = loc_side loc \<and>
    spec_order loc (Q, e) = Some ord \<and> spec_order loc' (Q', e') = Some ord' \<and> order_core ord = order_core ord'"
proof -
  from spec_order_found [OF inv(1) ix] obtain ord where
    ord: "spec_order loc (Q, e) = Some ord" "ro_order_id ord = k"
      "(loc_iter loc, ord) \<in> set (Q (loc_symbol loc) (loc_side loc))" by blast
  from queue_core_mem [OF coresD [OF c] ord(3)] obtain n' ord1 where
    ord1: "(n', ord1) \<in> set (Q' (loc_symbol loc) (loc_side loc))" "order_core ord = order_core ord1" by auto
  from index_completeD [OF inv(3) ord1(1)] ord(2) ord1(2) obtain loc' where
    loc': "index e' k = Some loc'" "loc_symbol loc' = loc_symbol loc" "loc_side loc' = loc_side loc" "loc_iter loc' = n'"
    by (auto simp: order_core_eq_iff)
  from spec_order_found [OF inv(2) loc'(1)] obtain ord' where
    ord': "spec_order loc' (Q', e') = Some ord'" "(n', ord') \<in> set (Q' (loc_symbol loc) (loc_side loc))"
    using loc' by auto
  have "distinct (map fst (Q' (loc_symbol loc) (loc_side loc)))"
    using inv(2) nodes_okD(1) by (auto simp: spec_inv_def)
  with ord'(2) ord1(1) have "ord' = ord1" by (meson eq_key_imp_eq_value)
  with loc' ord(1) ord' ord1 show ?thesis by blast
qed

lemma remove_core:
  assumes inv: "spec_inv (Q, e)" "index_complete (Q, e)" and ix: "index e k = Some loc"
  shows "queue_core (filter (\<lambda>nd. fst nd \<noteq> loc_iter loc) (Q (loc_symbol loc) (loc_side loc))) =
    filter (\<lambda>ord. ro_order_id ord \<noteq> k) (queue_core (Q (loc_symbol loc) (loc_side loc)))"
proof -
  let ?q = "Q (loc_symbol loc) (loc_side loc)"
  from spec_order_found [OF inv(1) ix] obtain ord where
    ord: "ro_order_id ord = k" "(loc_iter loc, ord) \<in> set ?q" by blast
  have dist: "distinct (map fst ?q)" using inv(1) nodes_okD(1) by (auto simp: spec_inv_def)
  have "fst nd \<noteq> loc_iter loc \<longleftrightarrow> ro_order_id (snd nd) \<noteq> k" if nd: "nd \<in> set ?q" for nd
  proof -
    have "fst nd = loc_iter loc" if "ro_order_id (snd nd) = k"
      using index_complete_unique [OF inv(2) nd ord(2)] that ord(1) by simp
    moreover have "ro_order_id (snd nd) = k" if "fst nd = loc_iter loc"
      using eq_key_imp_eq_value [OF dist, of "fst nd" "snd nd" ord] nd ord that by (metis prod.collapse)
    ultimately show ?thesis by blast
  qed
  then have "filter (\<lambda>nd. fst nd \<noteq> loc_iter loc) ?q = filter (\<lambda>nd. ro_order_id (snd nd) \<noteq> k) ?q"
    by (intro filter_cong) auto
  then show ?thesis by (simp add: queue_core_def filter_map comp_def)
qed

lemma spec_cancel_core:
  assumes inv: "spec_inv (Q, e)" "index_complete (Q, e)" "spec_inv (Q', e')" "index_complete (Q', e')"
    and c: "cores Q = cores Q'"
  shows "map event_core (fst (spec_cancel cmd (Q, e))) = map event_core (fst (spec_cancel cmd (Q', e'))) \<and>
    cores (fst (snd (spec_cancel cmd (Q, e)))) = cores (fst (snd (spec_cancel cmd (Q', e'))))"
proof (cases "index e (co_order_id cmd)")
  case None
  have "index e' (co_order_id cmd) = None"
  proof (cases "index e' (co_order_id cmd)")
    case (Some loc')
    from similar_index [OF inv(3,1,2) c [symmetric] Some] None show ?thesis by auto
  qed simp
  with None c show ?thesis
    by (simp add: spec_cancel_def spec_unknown_def event_def event_core_def Let_def)
next
  case (Some loc)
  from similar_index [OF inv(1,3,4) c Some] obtain loc' ord ord' where
    loc': "index e' (co_order_id cmd) = Some loc'" "loc_symbol loc' = loc_symbol loc" "loc_side loc' = loc_side loc"
    and ord: "spec_order loc (Q, e) = Some ord" "spec_order loc' (Q', e') = Some ord'" "order_core ord = order_core ord'"
    by blast
  have "queue_core (filter (\<lambda>nd. fst nd \<noteq> loc_iter loc) (Q (loc_symbol loc) (loc_side loc))) =
    queue_core (filter (\<lambda>nd. fst nd \<noteq> loc_iter loc') (Q' (loc_symbol loc) (loc_side loc)))"
    using remove_core [OF inv(1,2) Some] remove_core [OF inv(3,4) loc'(1)] coresD [OF c] by (simp add: loc')
  from cores_set_queue [OF c this] show ?thesis
    using ord by (simp add: spec_cancel_def spec_remove_def Some loc' event_def event_core_def order_core_eq_iff Let_def)
qed

lemma spec_replace_core:
  assumes inv: "spec_inv (Q, e)" "index_complete (Q, e)" "spec_inv (Q', e')" "index_complete (Q', e')"
    and c: "cores Q = cores Q'"
  shows "same_answer (fst (spec_replace cmd (Q, e))) (fst (spec_replace cmd (Q', e'))) \<and>
    cores (fst (snd (spec_replace cmd (Q, e)))) = cores (fst (snd (spec_replace cmd (Q', e'))))"
proof (cases "index e (rp_order_id cmd)")
  case None
  have "index e' (rp_order_id cmd) = None"
  proof (cases "index e' (rp_order_id cmd)")
    case (Some loc')
    from similar_index [OF inv(3,1,2) c [symmetric] Some] None show ?thesis by auto
  qed simp
  with None c show ?thesis
    by (simp add: spec_replace_def spec_unknown_def event_def event_core_def same_answer_def Let_def)
next
  case (Some loc)
  from similar_index [OF inv(1,3,4) c Some] obtain loc' ord ord' where
    loc': "index e' (rp_order_id cmd) = Some loc'" "loc_side loc' = loc_side loc"
    and ord: "spec_order loc (Q, e) = Some ord" "spec_order loc' (Q', e') = Some ord'" "order_core ord = order_core ord'"
    by blast
  let ?cc = "\<lparr>co_symbol = rp_symbol cmd, co_order_id = rp_order_id cmd\<rparr>"
  obtain evs Q1 e1 where c1: "spec_cancel ?cc (Q, e) = (evs, (Q1, e1))" by (metis surj_pair)
  obtain evs' Q1' e1' where c1': "spec_cancel ?cc (Q', e') = (evs', (Q1', e1'))" by (metis surj_pair)
  have sim: "map event_core evs = map event_core evs'" "cores Q1 = cores Q1'"
    using spec_cancel_core [OF inv c, of ?cc] c1 c1' by simp_all
  have repl: "replacement cmd (loc_side loc) ord' = replacement cmd (loc_side loc) ord"
    using ord(3) by (simp add: replacement_def order_core_eq_iff)
  from spec_add_core [OF sim(2), of "replacement cmd (loc_side loc) ord" e1 e1'] sim(1) ord
  show ?thesis
    by (simp add: spec_replace_def Some loc' c1 c1' repl split_beta Let_def same_answer_def)
qed

section \<open>Similar engines answer alike\<close>

lemma similar_parts:
  assumes "similar e e'"
  shows "wf_engine e" "wf_engine e'" "spec_inv (engine_queue e, forget e)" "index_complete (engine_queue e, forget e)"
    "spec_inv (engine_queue e', forget e')" "index_complete (engine_queue e', forget e')"
    "cores (engine_queue e) = cores (engine_queue e')"
  using assms by (simp_all add: similar_def ids_inv_def wf_engine_def view_def)

lemma same_cores_fresh: "cores Q = cores Q' \<Longrightarrow> fresh Q k \<Longrightarrow> fresh Q' k"
  unfolding fresh_def by (metis coresD order_core_fields(2) queue_core_mem)

lemma view_pair: "view e = (engine_queue e, forget e)"
  by (simp add: view_def)

lemma similar_add:
  assumes sim: "similar e e'" and fr: "fresh (engine_queue e) (ao_order_id cmd)"
  shows "\<exists>out f out' f'. engine_add cmd e = Inr (out, f) \<and> engine_add cmd e' = Inr (out', f') \<and>
    same_answer out out' \<and> similar f f'"
proof -
  note p = similar_parts [OF sim]
  have fr': "fresh (engine_queue e') (ao_order_id cmd)" using same_cores_fresh [OF p(7) fr] .
  from engine_add_refines [OF p(1), of cmd] obtain out f where
    a: "engine_add cmd e = Inr (out, f)" "spec_add cmd (view e) = (out, view f)" by blast
  from engine_add_refines [OF p(2), of cmd] obtain out' f' where
    a': "engine_add cmd e' = Inr (out', f')" "spec_add cmd (view e') = (out', view f')" by blast
  have "ids_inv f" "ids_inv f'"
    using fresh_step_inv [OF _ fresh_add [OF fr a(1)]] fresh_step_inv [OF _ fresh_add [OF fr' a'(1)]] sim
    by (simp_all add: similar_def)
  with spec_add_core [OF p(7), of cmd "forget e" "forget e'"] a a' show ?thesis
    by (simp add: similar_def view_pair)
qed

lemma similar_cancel:
  assumes sim: "similar e e'"
  shows "\<exists>evs f evs' f'. engine_cancel cmd e = Inr (evs, f) \<and> engine_cancel cmd e' = Inr (evs', f') \<and>
    map event_core evs = map event_core evs' \<and> similar f f'"
proof -
  note p = similar_parts [OF sim]
  from engine_cancel_refines [OF p(1), of cmd] obtain out f where
    a: "engine_cancel cmd e = Inr (out, f)" "spec_cancel cmd (view e) = (out, view f)" by blast
  from engine_cancel_refines [OF p(2), of cmd] obtain out' f' where
    a': "engine_cancel cmd e' = Inr (out', f')" "spec_cancel cmd (view e') = (out', view f')" by blast
  have "ids_inv f" "ids_inv f'"
    using fresh_step_inv [OF _ fresh_cancel [OF a(1)]] fresh_step_inv [OF _ fresh_cancel [OF a'(1)]] sim
    by (simp_all add: similar_def)
  with spec_cancel_core [OF p(3-7), of cmd] a a' show ?thesis
    by (simp add: similar_def view_pair)
qed

lemma similar_replace:
  assumes sim: "similar e e'" and fr: "fresh (engine_queue e) (rp_new_order_id cmd)"
  shows "\<exists>out f out' f'. engine_replace cmd e = Inr (out, f) \<and> engine_replace cmd e' = Inr (out', f') \<and>
    same_answer out out' \<and> similar f f'"
proof -
  note p = similar_parts [OF sim]
  have fr': "fresh (engine_queue e') (rp_new_order_id cmd)" using same_cores_fresh [OF p(7) fr] .
  from engine_replace_refines [OF p(1), of cmd] obtain out f where
    a: "engine_replace cmd e = Inr (out, f)" "spec_replace cmd (view e) = (out, view f)" by blast
  from engine_replace_refines [OF p(2), of cmd] obtain out' f' where
    a': "engine_replace cmd e' = Inr (out', f')" "spec_replace cmd (view e') = (out', view f')" by blast
  have "ids_inv f" "ids_inv f'"
    using fresh_step_inv [OF _ fresh_replace [OF fr a(1)]] fresh_step_inv [OF _ fresh_replace [OF fr' a'(1)]] sim
    by (simp_all add: similar_def)
  with spec_replace_core [OF p(3-7), of cmd] a a' show ?thesis
    by (simp add: similar_def view_pair)
qed

lemma similar_reject:
  assumes "similar e e'"
  shows "similar (snd (engine_reject s k reason e)) e'"
proof -
  have "ids_inv (snd (engine_reject s k reason e))"
    using fresh_step_inv [OF _ fresh_reject] assms by (metis prod.collapse similar_def)
  moreover have "engine_queue (snd (engine_reject s k reason e)) = engine_queue e"
    by (rule engine_queue_cong) (simp add: engine_reject_def)
  ultimately show ?thesis using assms by (simp add: similar_def)
qed

end
