(* ===== verification/Snapshot_Properties.thy ===== *)
theory Snapshot_Properties
  imports Snapshot Engine_Similar Engine_Properties
begin

text \<open>
  Loading a snapshot gives back a similar engine with the same sequence number, whatever order the
  books were written in. The proof follows the data: reading the JSON of a side is one \<open>rest_order\<close> per
  resting order in queue order (\<open>restore_serialized\<close>), each of these is \<open>spec_rest\<close> on queues, and resting
  the orders of a queue in their order rebuilds it (\<open>rebuild_queue\<close>).
\<close>

section \<open>Reading back the JSON of a side\<close>

definition command_of :: "resting_order \<Rightarrow> add_order" where
  "command_of ord =
     restored_command (ro_symbol ord) (ro_side ord) (ro_order_id ord) (ro_price_ticks ord)
       (ro_participant_id ord) (ro_remaining ord)"

lemma command_of_simps [simp]:
  "ao_symbol (command_of ord) = ro_symbol ord" "ao_side (command_of ord) = ro_side ord"
  "ao_order_id (command_of ord) = ro_order_id ord" "ao_price_ticks (command_of ord) = ro_price_ticks ord"
  by (simp_all add: command_of_def restored_command_def)

definition rest_node :: "node \<Rightarrow> book \<times> engine \<Rightarrow> book \<times> engine" where
  "rest_node nd be = rest_order (fst be) (command_of (snd nd)) (ro_remaining (snd nd)) (snd be)"

lemma restore_order_json:
  assumes "wf_order symb sd p (snd nd)"
  shows "restore_order D symb sd (JInt p) (order_json (snd nd)) = rest_node nd"
  using assms
  by (auto simp: fun_eq_iff restore_order_def order_json_eq json_find_def rest_node_def command_of_def wf_order_def)

lemma restore_level_json:
  assumes "\<And>nd. nd \<in> set lv \<Longrightarrow> wf_order symb sd p (snd nd)"
  shows "restore_level D symb sd (level_json (p, lv)) = fold rest_node lv"
proof -
  have "fold (restore_order D symb sd (JInt p)) (map (\<lambda>nd. order_json (snd nd)) lv) be = fold rest_node lv be" for be
    using assms by (induction lv arbitrary: be) (simp_all add: restore_order_json)
  then show ?thesis by (simp add: fun_eq_iff restore_level_def level_json_eq json_find_def)
qed

lemma restore_levels_json:
  assumes "\<And>p lv nd. (p, lv) \<in> set m \<Longrightarrow> nd \<in> set lv \<Longrightarrow> wf_order symb sd p (snd nd)"
  shows "fold (restore_level D symb sd) (map level_json m) be = fold rest_node (concat (map snd m)) be"
  using assms
proof (induction m arbitrary: be)
  case Nil
  then show ?case by simp
next
  case (Cons kv m)
  obtain p lv where kv: "kv = (p, lv)" by (cases kv)
  have "restore_level D symb sd (level_json kv) = fold rest_node lv"
    unfolding kv by (rule restore_level_json) (use Cons.prems kv in auto)
  moreover have "fold (restore_level D symb sd) (map level_json m) be = fold rest_node (concat (map snd m)) be" for be
    by (rule Cons.IH) (use Cons.prems in auto)
  ultimately show ?case by (simp add: kv)
qed

lemma restore_serialized:
  assumes "wf_side symb sd (book_side sd b)"
  shows "restore_side D symb (serialize_side b sd) sd e =
    (let (b', e1) = fold rest_node (side_queue sd (book_side sd b)) (book_for symb e) in store_book symb b' e1)"
proof -
  let ?m = "if sd = Buy then rev (book_side sd b) else book_side sd b"
  have "side_queue sd (book_side sd b) = concat (map snd ?m)" by (cases sd) (simp_all add: side_queue_def)
  moreover have "fold (restore_level D symb sd) (map level_json ?m) be = fold rest_node (concat (map snd ?m)) be" for be
    by (rule restore_levels_json) (use assms in \<open>auto simp: wf_side_def split: if_splits\<close>)
  ultimately show ?thesis by (simp add: restore_side_def serialize_side_eq)
qed

section \<open>Resting orders one by one\<close>

definition spec_rest_node :: "node \<Rightarrow> spec_state \<Rightarrow> spec_state" where
  "spec_rest_node nd S = spec_rest (command_of (snd nd)) (ro_remaining (snd nd)) S"

lemma rest_node_view:
  assumes "wf_book symb b" "wf_order symb sd p (snd nd)" "rest_node nd (b, e) = (b', e')"
  shows "wf_book symb b'" "view (store_book symb b' e') = spec_rest_node nd (view (store_book symb b e))"
    "books e' = books e"
proof -
  let ?c = "command_of (snd nd)" and ?o = "snd nd"
  from assms(2) have ord: "ro_symbol ?o = symb" "ro_side ?o = sd" "0 < ro_remaining ?o" by (simp_all add: wf_order_def)
  from assms(1) have side: "wf_side (ao_symbol ?c) (ao_side ?c) (book_side (ao_side ?c) b)"
    by (simp add: wf_book_sides ord)
  note r = rest_order_refines [OF side ord(3) assms(3) [unfolded rest_node_def fst_conv snd_conv]]
  show "wf_book symb b'"
    using wf_book_set [OF assms(1), of sd "book_side sd b'"] r(1,2) by (simp add: ord)
  show "books e' = books e" unfolding r(4) by simp
  have q: "side_queue td (book_side td b') = (if td = sd then enqueue sd (ro_price_ticks ?o)
      (next_node e, resting_of ?c (ro_remaining ?o) (engine_sequence e)) (side_queue sd (book_side sd b))
      else side_queue td (book_side td b))" for td
    using r(3) arg_cong [OF r(2), of "book_side td"] by (simp add: book_side_set ord)
  have "engine_queue (store_book symb b' e') = set_queue symb sd (enqueue sd (ro_price_ticks ?o)
      (next_node e, resting_of ?c (ro_remaining ?o) (engine_sequence e))
      (engine_queue (store_book symb b e) symb sd)) (engine_queue (store_book symb b e))"
    by (auto simp: fun_eq_iff engine_queue_store set_queue_apply q) (simp_all add: engine_queue_def r(4))
  then show "view (store_book symb b' e') = spec_rest_node nd (view (store_book symb b e))"
    by (simp add: view_pair spec_rest_node_def spec_rest_def ord r(4) Let_def)
qed

lemma rest_nodes_view:
  assumes "wf_book symb b" "\<And>nd. nd \<in> set q \<Longrightarrow> \<exists>p. wf_order symb sd p (snd nd)" "fold rest_node q (b, e) = (b', e')"
  shows "wf_book symb b' \<and> view (store_book symb b' e') = fold spec_rest_node q (view (store_book symb b e)) \<and>
    books e' = books e"
  using assms
proof (induction q arbitrary: b e)
  case Nil
  then show ?case by simp
next
  case (Cons nd q)
  obtain b1 e1 where s: "rest_node nd (b, e) = (b1, e1)" by (cases "rest_node nd (b, e)")
  obtain p where "wf_order symb sd p (snd nd)" using Cons.prems(2) [of nd] by auto
  note r = rest_node_view [OF Cons.prems(1) this s]
  have "wf_book symb b' \<and> view (store_book symb b' e') = fold spec_rest_node q (view (store_book symb b1 e1)) \<and>
      books e' = books e1"
    by (rule Cons.IH [OF r(1)]) (use Cons.prems s in auto)
  with r show ?case by simp
qed

lemma restore_side_view:
  assumes "wf_side symb sd (book_side sd b)" "books_ok e"
  shows "view (restore_side D symb (serialize_side b sd) sd e) = fold spec_rest_node (side_queue sd (book_side sd b)) (view e)"
    and "books_ok (restore_side D symb (serialize_side b sd) sd e)"
proof -
  obtain b0 e0 where bf: "book_for symb e = (b0, e0)" by fastforce
  note facts = book_for_facts [OF bf]
  obtain b' e1 where f: "fold rest_node (side_queue sd (book_side sd b)) (b0, e0) = (b', e1)"
    by (cases "fold rest_node (side_queue sd (book_side sd b)) (b0, e0)")
  have wf0: "wf_book symb b0" using facts(5) assms(2) .
  have "wf_book symb b' \<and> view (store_book symb b' e1) =
      fold spec_rest_node (side_queue sd (book_side sd b)) (view (store_book symb b0 e0)) \<and> books e1 = books e0"
    using wf_side_queueD [OF assms(1)] by (intro rest_nodes_view [OF wf0 _ f]) blast
  moreover have "view (store_book symb b0 e0) = view e"
    using facts(1,2,4) engine_queue_cong [of "store_book symb b0 e0" e0] by (simp add: view_pair)
  moreover have eq: "restore_side D symb (serialize_side b sd) sd e = store_book symb b' e1"
    by (simp add: restore_serialized [OF assms(1)] bf f)
  ultimately show "view (restore_side D symb (serialize_side b sd) sd e) =
      fold spec_rest_node (side_queue sd (book_side sd b)) (view e)"
    and "books_ok (restore_side D symb (serialize_side b sd) sd e)"
    using books_ok_store [OF assms(2), of symb b' e1 b0] facts(4) by simp_all
qed

section \<open>Rebuilding the queues\<close>

text \<open>\<open>partly_rebuilt\<close>: the queues of the slots in \<open>done_slots\<close> hold their orders again, the queue of
  slot \<open>(s, sd)\<close> holds \<open>q\<close>, the others are empty.\<close>

definition partly_rebuilt :: "queues \<Rightarrow> (string \<times> side) set \<Rightarrow> string \<Rightarrow> side \<Rightarrow> node list \<Rightarrow> queues \<Rightarrow> bool" where
  "partly_rebuilt Q0 done_slots s sd q Q \<longleftrightarrow>
     (\<forall>t td. cores Q t td = (if (t, td) = (s, sd) then queue_core q
        else if (t, td) \<in> done_slots then cores Q0 t td else []))"

lemma enqueue_last:
  assumes "\<And>x. x \<in> set q \<Longrightarrow> \<not> worse sd p (ro_price_ticks (snd x))"
  shows "enqueue sd p nd q = q @ [nd]"
  using assms by (simp add: enqueue_def takeWhile_eq_all_conv [THEN iffD2] dropWhile_eq_Nil_conv [THEN iffD2])

lemma partly_rebuilt_origin:
  assumes "partly_rebuilt Q0 done_slots s sd q1 Q" "Q0 s sd = q1 @ q2" "nd \<in> set (Q t td)"
  shows "\<exists>nd0 \<in> set (Q0 t td). order_core (snd nd) = order_core (snd nd0) \<and> ((t, td) = (s, sd) \<longrightarrow> nd0 \<in> set q1)"
proof -
  have "order_core (snd nd) \<in> set (cores Q t td)" using assms(3) by (simp add: cores_def queue_core_def)
  with assms(1,2) show ?thesis
    by (auto simp: partly_rebuilt_def cores_def queue_core_def split: if_splits)
qed

lemma rebuild_one:
  assumes orig: "spec_inv (Q0, e0)" "index_complete (Q0, e0)" and S: "spec_inv (Q, e)" "index_complete (Q, e)"
    and q: "Q0 s sd = q1 @ nd # q2" and c: "partly_rebuilt Q0 done_slots s sd q1 Q"
    and S': "spec_rest_node nd (Q, e) = (Q', e')"
  shows "spec_inv (Q', e')" "index_complete (Q', e')" "partly_rebuilt Q0 done_slots s sd (q1 @ [nd]) Q'"
    "engine_sequence e' = engine_sequence e"
proof -
  let ?o = "snd nd" and ?c = "command_of (snd nd)"
  have nd: "nd \<in> set (Q0 s sd)" by (simp add: q)
  note origin = partly_rebuilt_origin [OF c q]
  from orig(1) have ok: "orders_ok Q0" "uncrossed Q0" "nodes_ok Q0 (next_node e0)" by (simp_all add: spec_inv_def)
  then have ord: "ro_symbol ?o = s" "ro_side ?o = sd" "0 < ro_remaining ?o"
    using nd by (auto simp: orders_ok_def wf_order_def)
  have "fresh Q (ro_order_id ?o)" unfolding fresh_def
  proof (intro allI ballI notI)
    fix t td x assume "x \<in> set (Q t td)" and id: "ro_order_id (snd x) = ro_order_id ?o"
    from origin [OF this(1)] obtain x0 where x0: "x0 \<in> set (Q0 t td)" "order_core (snd x) = order_core (snd x0)"
      "(t, td) = (s, sd) \<longrightarrow> x0 \<in> set q1" by blast
    with id have "ro_order_id (snd x0) = ro_order_id ?o" by (simp add: order_core_eq_iff)
    from index_complete_unique [OF orig(2) x0(1) nd this] x0(3)
    have "x0 \<in> set q1" "fst x0 = fst nd" by auto
    moreover have "fst nd \<notin> fst ` set q1" using nodes_okD(1) [OF ok(3), of s sd] by (auto simp: q)
    ultimately show False by (metis imageI)
  qed
  then have fr: "fresh Q (ao_order_id ?c)" by simp
  have clear: "worse (opposite sd) (ro_price_ticks ?o) (ro_price_ticks (snd y))" if "y \<in> set (Q s (opposite sd))" for y
  proof -
    from origin [OF that] obtain y0 where y0: "y0 \<in> set (Q0 s (opposite sd))" "ro_price_ticks (snd y) = ro_price_ticks (snd y0)"
      by (auto simp: order_core_eq_iff)
    with nd ok(2) show ?thesis by (cases sd) (auto simp: uncrossed_def worse_def)
  qed
  have behind: "\<not> worse sd (ro_price_ticks ?o) (ro_price_ticks (snd x))" if "x \<in> set (Q s sd)" for x
  proof -
    from origin [OF that] obtain x0 where "x0 \<in> set q1" "ro_price_ticks (snd x) = ro_price_ticks (snd x0)"
      by (auto simp: order_core_eq_iff)
    moreover have "in_priority_order sd (q1 @ nd # q2)" using ok(1) q by (simp add: orders_ok_def flip: q)
    ultimately show ?thesis by (simp add: in_priority_order_def sorted_wrt_append)
  qed
  show "spec_inv (Q', e')"
    using spec_inv_rest [OF S(1) ord(3), of ?c] clear S' by (simp add: spec_rest_node_def ord)
  show "index_complete (Q', e')"
    using index_complete_rest [OF S(2) fr, of "ro_remaining ?o"] S' by (simp add: spec_rest_node_def)
  have Q': "Q' = set_queue s sd (Q s sd @ [(next_node e, resting_of ?c (ro_remaining ?o) (engine_sequence e))]) Q"
    using S' enqueue_last [OF behind] by (auto simp: spec_rest_node_def spec_rest_def ord Let_def)
  have "order_core (resting_of ?c (ro_remaining ?o) n) = order_core ?o" for n
    by (simp add: order_core_eq_iff resting_of_def command_of_def restored_command_def)
  then show "partly_rebuilt Q0 done_slots s sd (q1 @ [nd]) Q'"
    using c by (auto simp: Q' partly_rebuilt_def cores_def set_queue_apply)
  show "engine_sequence e' = engine_sequence e" using S' by (auto simp: spec_rest_node_def spec_rest_def Let_def)
qed

lemma rebuild_queue:
  assumes "spec_inv (Q0, e0)" "index_complete (Q0, e0)" "spec_inv (Q, e)" "index_complete (Q, e)"
    and "Q0 s sd = q1 @ q2" "partly_rebuilt Q0 done_slots s sd q1 Q"
    and "fold spec_rest_node q2 (Q, e) = (Q', e')"
  shows "spec_inv (Q', e') \<and> index_complete (Q', e') \<and> partly_rebuilt Q0 done_slots s sd (q1 @ q2) Q' \<and>
    engine_sequence e' = engine_sequence e"
  using assms(3-)
proof (induction q2 arbitrary: q1 Q e)
  case Nil
  then show ?case by simp
next
  case (Cons nd q2)
  obtain Q1 e1 where s: "spec_rest_node nd (Q, e) = (Q1, e1)" by (cases "spec_rest_node nd (Q, e)")
  note one = rebuild_one [OF assms(1,2) Cons.prems(1-4) s]
  have "fold spec_rest_node q2 (Q1, e1) = (Q', e')" using Cons.prems(5) s by simp
  from Cons.IH [OF one(1,2) _ one(3) this] Cons.prems(3) one(4) show ?case by simp
qed

text \<open>One book: its bids, then its asks.\<close>

definition rebuilt :: "queues \<Rightarrow> string set \<Rightarrow> queues \<Rightarrow> bool" where
  "rebuilt Q0 syms Q \<longleftrightarrow> (\<forall>t td. cores Q t td = (if t \<in> syms then cores Q0 t td else []))"

definition restoring :: "engine \<Rightarrow> string set \<Rightarrow> engine \<Rightarrow> bool" where
  "restoring e0 syms e \<longleftrightarrow> ids_inv e \<and> rebuilt (engine_queue e0) syms (engine_queue e) \<and>
     engine_sequence e = engine_sequence e0"

lemma restore_slot:
  assumes e0: "ids_inv e0" "books e0 s = Some b" and e: "ids_inv e" "engine_sequence e = engine_sequence e0"
    and c: "partly_rebuilt (engine_queue e0) done_slots s sd [] (engine_queue e)"
    and e': "e' = restore_side D s (serialize_side b sd) sd e"
  shows "ids_inv e'" "engine_sequence e' = engine_sequence e0"
    "partly_rebuilt (engine_queue e0) done_slots s sd (engine_queue e0 s sd) (engine_queue e')"
proof -
  have inv0: "books_ok e0" "spec_inv (engine_queue e0, forget e0)" "index_complete (engine_queue e0, forget e0)"
    and inv: "books_ok e" "spec_inv (engine_queue e, forget e)" "index_complete (engine_queue e, forget e)"
    using e0(1) e(1) by (simp_all add: ids_inv_def wf_engine_def view_pair)
  have wf: "wf_side s sd (book_side sd b)" using inv0(1) e0(2) by (auto simp: books_ok_def wf_book_sides)
  have q: "engine_queue e0 s sd = side_queue sd (book_side sd b)" by (simp add: engine_queue_def e0(2))
  note r = restore_side_view [OF wf inv(1), of D, folded e' q]
  have "spec_inv (engine_queue e', forget e') \<and> index_complete (engine_queue e', forget e') \<and>
      partly_rebuilt (engine_queue e0) done_slots s sd ([] @ engine_queue e0 s sd) (engine_queue e') \<and>
      engine_sequence (forget e') = engine_sequence (forget e)"
    by (rule rebuild_queue [OF inv0(2,3) inv(2,3) _ c]) (use r(1) in \<open>simp_all add: view_pair\<close>)
  with r(2) e(2) show "ids_inv e'" "engine_sequence e' = engine_sequence e0"
    "partly_rebuilt (engine_queue e0) done_slots s sd (engine_queue e0 s sd) (engine_queue e')"
    by (simp_all add: ids_inv_def wf_engine_def view_pair)
qed

lemma restore_book_rebuilds:
  assumes e0: "ids_inv e0" "books e0 s = Some b" and e: "restoring e0 syms e" and s: "s \<notin> syms"
  shows "\<exists>e'. restore_book D (s, book_json b) e = Inr e' \<and> restoring e0 (insert s syms) e'"
proof -
  let ?slots = "{(t, td). t \<in> syms}" and ?Q0 = "engine_queue e0"
  from e have inv: "ids_inv e" "engine_sequence e = engine_sequence e0" and c: "rebuilt ?Q0 syms (engine_queue e)"
    by (simp_all add: restoring_def)
  define e1 where "e1 = restore_side D s (serialize_side b Buy) Buy e"
  define e2 where "e2 = restore_side D s (serialize_side b Sell) Sell e1"
  have "partly_rebuilt ?Q0 ?slots s Buy [] (engine_queue e)"
    using c s by (auto simp: rebuilt_def partly_rebuilt_def)
  note bids = restore_slot [OF e0 inv this e1_def]
  have "partly_rebuilt ?Q0 (insert (s, Buy) ?slots) s Sell [] (engine_queue e1)"
    using bids(3) s by (auto simp: partly_rebuilt_def cores_def)
  note asks = restore_slot [OF e0 bids(1,2) this e2_def]
  have "rebuilt ?Q0 (insert s syms) (engine_queue e2)"
    unfolding rebuilt_def
  proof (intro allI)
    fix t td
    show "cores (engine_queue e2) t td = (if t \<in> insert s syms then cores ?Q0 t td else [])"
      using asks(3) s by (cases td) (auto simp: partly_rebuilt_def cores_def)
  qed
  moreover have "restore_book D (s, book_json b) e = Inr e2"
    by (simp add: restore_book_def book_json_def make_object_def json_find_def e1_def e2_def)
  ultimately show ?thesis using asks by (simp add: restoring_def)
qed

lemma restore_books_rebuild:
  assumes e0: "ids_inv e0" and "restoring e0 syms e" "distinct ss" "set ss \<subseteq> dom (books e0)" "set ss \<inter> syms = {}"
  shows "\<exists>e'. rfold (restore_book D) (map (\<lambda>s. (s, book_json (the (books e0 s)))) ss) e = Inr e' \<and>
    restoring e0 (set ss \<union> syms) e'"
  using assms(2-)
proof (induction ss arbitrary: syms e)
  case Nil
  then show ?case by simp
next
  case (Cons s ss)
  from Cons.prems(3) obtain b where b: "books e0 s = Some b" by auto
  from restore_book_rebuilds [OF e0 b Cons.prems(1), of D] Cons.prems(4) obtain e1 where
    e1: "restore_book D (s, book_json b) e = Inr e1" "restoring e0 (insert s syms) e1" by auto
  from Cons.IH [OF e1(2)] Cons.prems(2-4) obtain e' where
    "rfold (restore_book D) (map (\<lambda>s. (s, book_json (the (books e0 s)))) ss) e1 = Inr e'"
    "restoring e0 (set ss \<union> insert s syms) e'" by auto
  with b e1(1) show ?case by auto
qed

lemma load_snapshot_similar:
  assumes e0: "ids_inv e0" and syms: "enumerates syms e0"
  shows "\<exists>e'. load_snapshot D (snapshot syms e0) e = Inr e' \<and> similar e0 e' \<and> engine_sequence e' = engine_sequence e0"
proof -
  let ?e = "e\<lparr>books := (\<lambda>_. None), index := (\<lambda>_. None), engine_sequence := engine_sequence e0\<rparr>"
  have q: "engine_queue ?e = (\<lambda>_ _. [])" by (simp add: engine_queue_def fun_eq_iff)
  have "restoring e0 {} ?e"
    by (simp add: restoring_def rebuilt_def q cores_def ids_inv_def wf_engine_def view_pair books_ok_def spec_inv_def
        orders_ok_def uncrossed_def nodes_ok_def index_sound_def in_priority_order_def index_complete_def)
  from restore_books_rebuild [OF e0 this, of syms D] syms obtain e' where
    e': "rfold (restore_book D) (map (\<lambda>s. (s, book_json (the (books e0 s)))) syms) ?e = Inr e'"
      "restoring e0 (dom (books e0)) e'" by (auto simp: enumerates_def)
  have "cores (engine_queue e0) t td = cores (engine_queue e') t td" for t td
    using e'(2) by (cases "t \<in> dom (books e0)")
      (auto simp: restoring_def rebuilt_def cores_def engine_queue_def dom_def)
  then have "similar e0 e'" using e0 e'(2) by (simp add: similar_def restoring_def fun_eq_iff)
  moreover have "load_snapshot D (snapshot syms e0) e = Inr e'"
    using e'(1) syms by (simp add: load_snapshot_def snapshot_eq enumerates_def json_find_def)
  ultimately show ?thesis using e'(2) by (simp add: restoring_def)
qed

section \<open>Snapshots as text\<close>

text \<open>The fields of the engine are \<open>long long\<close>, so in the program their values always fit.\<close>

definition fits_order :: "resting_order \<Rightarrow> bool" where
  "fits_order ord \<longleftrightarrow> fits_ll (ro_order_id ord) \<and> fits_ll (ro_price_ticks ord) \<and> fits_ll (ro_remaining ord)"

definition fits_queues :: "queues \<Rightarrow> bool" where
  "fits_queues Q \<longleftrightarrow> (\<forall>s sd. \<forall>nd \<in> set (Q s sd). fits_order (snd nd))"

lemma plain_side:
  assumes "wf_side s sd (book_side sd b)" "\<And>nd. nd \<in> set (side_queue sd (book_side sd b)) \<Longrightarrow> fits_order (snd nd)"
  shows "plain_json (serialize_side b sd)"
proof -
  have "plain_json (level_json (p, lv))" if mem: "(p, lv) \<in> set (book_side sd b)" for p lv
  proof -
    have ord: "wf_order s sd p (snd nd)" "fits_order (snd nd)" if "nd \<in> set lv" for nd
      using wf_side_levelD(2) [OF assms(1) mem that] assms(2) [of nd] mem that by (auto simp: set_side_queue)
    have "lv \<noteq> []" using wf_side_levelD(1) [OF assms(1) mem] .
    then have "fits_ll p" using ord [OF hd_in_set] by (auto simp: wf_order_def fits_order_def)
    with ord(2) show ?thesis by (auto simp: level_json_eq order_json_eq fits_order_def)
  qed
  then show ?thesis by (auto simp: serialize_side_eq)
qed

lemma plain_snapshot:
  assumes "books_ok e" "fits_queues (engine_queue e)" "fits_ll (engine_sequence e)" "enumerates syms e"
  shows "plain_json (snapshot syms e)"
proof -
  have "plain_json (serialize_side (the (books e s)) sd)" if mem: "s \<in> set syms" for s sd
  proof -
    obtain b where b: "books e s = Some b" using mem assms(4) by (auto simp: enumerates_def)
    have "engine_queue e s sd = side_queue sd (book_side sd b)" by (simp add: engine_queue_def b)
    then have "fits_order (snd nd)" if "nd \<in> set (side_queue sd (book_side sd b))" for nd
      using assms(2) that unfolding fits_queues_def by metis
    moreover have "wf_side s sd (book_side sd b)" using assms(1) b by (auto simp: books_ok_def wf_book_sides)
    ultimately show ?thesis unfolding b option.sel by (rule plain_side [rotated])
  qed
  moreover have "set syms \<subseteq> dom (books e)" using assms(4) by (simp add: enumerates_def)
  ultimately show ?thesis using assms(3) by (auto simp: snapshot_eq book_json_def make_object_def)
qed

text \<open>C12: A snapshot restores the books. In every state reached without reusing the id of a resting order,
  the JSON text of the snapshot, parsed and loaded into any engine, gives an engine with the same sequence
  number whose queues hold the same orders in the same priority, each found by its id. The iteration
  order of the unordered dictionary of books does not matter. Only \<open>entered_sequence\<close> is lost.\<close>

theorem snapshot_round_trip:
  fixes D :: "'d doubles"
  assumes "reachable engine_init fresh_step e" "enumerates syms e"
    and "fits_queues (engine_queue e)" "fits_ll (engine_sequence e)"
  shows "\<exists>e'. rbind (json_parse D (dump_value D (snapshot syms e))) (\<lambda>j. load_snapshot D j any) = Inr e' \<and>
    similar e e' \<and> engine_sequence e' = engine_sequence e"
proof -
  have inv: "ids_inv e" by (rule ids.reachable_inv [OF assms(1)])
  then have "plain_json (snapshot syms e :: 'd json)"
    using assms by (intro plain_snapshot) (simp_all add: ids_inv_def wf_engine_def)
  with load_snapshot_similar [OF inv assms(2), of D any] show ?thesis by (simp add: parse_dump_plain)
qed


section \<open>The sample book\<close>

lemma fresh_after_add:
  "reachable engine_init fresh_step e \<Longrightarrow> fresh (engine_queue e) (ao_order_id cmd) \<Longrightarrow>
     reachable engine_init fresh_step (after_add cmd e)"
  by (auto simp: after_add_def split: sum.splits intro: reachable.reachable_step fresh_step.fresh_add)

lemma sample_fresh: "reachable engine_init fresh_step sample_engine"
  unfolding sample_engine_def
  by (intro fresh_after_add; simp add: sample_eval fresh_def engine_queue_def side_queue_def all_side
      engine_init_def reachable.reachable_init)

lemma sample_enumerates: "enumerates [''X''] sample_engine"
  by (auto simp: enumerates_def sample_eval split: if_splits)

lemma sample_fits: "fits_queues (engine_queue sample_engine)" "fits_ll (engine_sequence sample_engine)"
  by (auto simp: fits_queues_def fits_order_def fits_ll_iff sample_eval engine_queue_def side_queue_def all_side)

theorem snapshot_round_trip_witness:
  "\<exists>e'. rbind (json_parse sample_doubles (dump_value sample_doubles (snapshot [''X''] sample_engine)))
      (\<lambda>j. load_snapshot sample_doubles j empty_engine) = Inr e' \<and>
     similar sample_engine e' \<and> engine_sequence e' = 8"
proof -
  have "engine_sequence sample_engine = 8" by (simp add: sample_eval)
  with snapshot_round_trip [OF sample_fresh sample_enumerates sample_fits, of sample_doubles empty_engine]
  show ?thesis by simp
qed


end
