(* ===== verification/Wal_Properties.thy ===== *)
theory Wal_Properties
  imports Wal
begin

text \<open>
  The log keeps its records. \<open>wal_log D w flushed unflushed\<close> says which records are in the file and which
  still wait in \<open>pending_\<close>; \<open>append\<close>, \<open>flush\<close> and \<open>save_snapshot\<close> move it as they should, and
  \<open>replay_commands\<close> reads exactly these records back. After a crash a prefix of the records is left, at
  most 63 records short under \<open>Fsync\<close>.
\<close>

section \<open>Hexadecimal prefixes\<close>

lemma read_digits_snoc: "read_digits b (s @ [c]) = b * read_digits b s + the (digit_value c)"
  by (simp add: read_digits_def)

lemma read_digits_hex: "read_digits 16 (map (\<lambda>i. digit_char (n div 16 ^ i mod 16)) (rev [0..<k])) = n mod 16 ^ k"
proof (induction k arbitrary: n)
  case 0
  then show ?case by (simp add: read_digits_def)
next
  case (Suc k)
  have "rev [0..<Suc k] = map Suc (rev [0..<k]) @ [0]"
    by (simp add: rev_map [symmetric] map_Suc_upt upt_conv_Cons del: upt_Suc)
  then have "map (\<lambda>i. digit_char (n div 16 ^ i mod 16)) (rev [0..<Suc k]) =
      map (\<lambda>i. digit_char (n div 16 div 16 ^ i mod 16)) (rev [0..<k]) @ [digit_char (n mod 16)]"
    by (simp add: div_mult2_eq del: digit_char.simps upt_Suc)
  with Suc [of "n div 16"] have "read_digits 16 (map (\<lambda>i. digit_char (n div 16 ^ i mod 16)) (rev [0..<Suc k])) =
      16 * (n div 16 mod 16 ^ k) + n mod 16"
    by (simp add: read_digits_snoc digit_char_value del: digit_char.simps upt_Suc)
  then show ?case by (simp add: mod_mult2_eq)
qed

lemma length_hex8 [simp]: "length (hex8 n) = 8"
  by (simp add: hex8_def)

lemma hex8_chars: "c \<in> set (hex8 n) \<Longrightarrow> \<exists>k < 16. c = digit_char k"
proof -
  assume "c \<in> set (hex8 n)"
  then obtain i where "c = digit_char (unat n div 16 ^ i mod 16)" by (auto simp: hex8_def simp del: digit_char.simps)
  moreover have "unat n div 16 ^ i mod 16 < 16" by simp
  ultimately show ?thesis by blast
qed

lemma strtoul_hex8: "strtoul_hex (hex8 n) = n"
proof -
  have hex: "is_hex c" if "c \<in> set (hex8 n)" for c using hex8_chars [OF that] is_hex_digit_char by blast
  have plain: "\<not> (is_ws c \<or> c = CHR 0x0B \<or> c = CHR 0x0C)" "c \<noteq> CHR ''-''" "c \<noteq> CHR ''+''" "c \<noteq> CHR ''x''" "c \<noteq> CHR ''X''"
    if "c \<in> set (hex8 n)" for c using hex [OF that] by (auto simp: is_hex_def digit_value_def is_ws_def Let_def)
  obtain a b t where t: "hex8 n = a # b # t"
    using length_hex8 [of n] by (cases "hex8 n"; cases "tl (hex8 n)") auto
  then have ab: "a \<in> set (hex8 n)" "b \<in> set (hex8 n)" by simp_all
  have "takeWhile is_hex (hex8 n) = hex8 n" using hex by (simp add: takeWhile_eq_all_conv)
  moreover have "stoi_hex (hex8 n) = Inr (int (read_digits 16 (hex8 n)))"
    unfolding stoi_hex_def t Let_def
    using plain [OF ab(1)] plain [OF ab(2)] \<open>takeWhile is_hex (hex8 n) = hex8 n\<close> [unfolded t]
    by (auto simp: takeWhile_eq_all_conv [THEN iffD2])
  moreover have "read_digits 16 (hex8 n) = unat n"
    using read_digits_hex [of "unat n" 8] unsigned_less [of n, where 'a = nat] by (simp add: hex8_def del: digit_char.simps)
  ultimately show ?thesis by (simp add: strtoul_hex_def)
qed

lemma no_control_hex8: "no_control (hex8 n)"
proof -
  have "32 \<le> (of_char c :: nat)" if "c \<in> set (hex8 n)" for c
    using hex8_chars [OF that] by auto
  then show ?thesis by (simp add: no_control_def)
qed

section \<open>Lines\<close>

definition wal_line :: "'d doubles \<Rightarrow> 'd json \<Rightarrow> string" where
  "wal_line D command = hex8 (crc32 (dump_value D command) 0) @ CHR '' '' # dump_value D command"

lemma wal_record_line: "wal_record D command = wal_line D command @ [CHR 0x0A]"
  by (simp add: wal_record_def wal_line_def Let_def)

lemma wal_line_no_control: "plain_json command \<Longrightarrow> no_control (wal_line D command)"
  by (simp add: wal_line_def no_control_hex8 no_control_dump)

lemma split_lines_line:
  assumes "CHR 0x0A \<notin> set l"
  shows "split_lines (l @ CHR 0x0A # t) = l # split_lines t"
proof -
  have "takeWhile (\<lambda>c. c \<noteq> CHR 0x0A) (l @ CHR 0x0A # t) = l" "dropWhile (\<lambda>c. c \<noteq> CHR 0x0A) (l @ CHR 0x0A # t) = CHR 0x0A # t"
    using assms by (induction l) auto
  then show ?thesis by (subst split_lines.simps) simp
qed

lemma split_lines_tail: "CHR 0x0A \<notin> set t \<Longrightarrow> split_lines t = (if t = [] then [] else [t])"
proof -
  assume "CHR 0x0A \<notin> set t"
  then have "takeWhile (\<lambda>c. c \<noteq> CHR 0x0A) t = t" and drop: "dropWhile (\<lambda>c. c \<noteq> CHR 0x0A) t = []"
    by (auto simp: takeWhile_eq_all_conv)
  then show ?thesis unfolding split_lines.simps [of t] drop by (simp add: split_lines.simps [of "[]"])
qed

lemma split_lines_records:
  assumes "\<forall>c \<in> set cs. plain_json c"
  shows "split_lines (concat (map (wal_record D) cs) @ t) = map (wal_line D) cs @ split_lines t"
  using assms
  by (induction cs) (simp_all add: wal_record_line split_lines_line no_control_newline wal_line_no_control)

lemma drop_cr_id: "no_control l \<Longrightarrow> drop_cr l = l"
  unfolding drop_cr_def by (metis last_in_set no_control_newline(2))

lemma replay_line:
  assumes "plain_json c"
  shows "replay_lines D (wal_line D c # ls) = rbind (replay_lines D ls) (\<lambda>js. Inr (c # js))"
proof -
  have "drop 9 (wal_line D c) = dump_value D c" "take 8 (wal_line D c) = hex8 (crc32 (dump_value D c) 0)"
    "wal_line D c ! 8 = CHR '' ''" "\<not> length (wal_line D c) < 9"
    by (simp_all add: wal_line_def nth_append)
  then show ?thesis
    using drop_cr_id [OF wal_line_no_control [OF assms]] by (simp add: strtoul_hex8 parse_dump_plain [OF assms])
qed

lemma replay_records:
  assumes "\<forall>c \<in> set cs. plain_json c"
  shows "replay_lines D (map (wal_line D) cs @ ls) = rbind (replay_lines D ls) (\<lambda>js. Inr (cs @ js))"
  using assms
proof (induction cs)
  case Nil
  then show ?case by (cases "replay_lines D ls") simp_all
next
  case (Cons c cs)
  then show ?case by (simp add: replay_line rbind_assoc del: replay_lines.simps)
qed

section \<open>Torn tails\<close>

lemma take_concat:
  "\<exists>k t. take n (concat (map f cs)) = concat (map f (take k cs)) @ t \<and> k \<le> length cs \<and>
     (t = [] \<and> k = length cs \<or> k < length cs \<and> (\<exists>m < length (f (cs ! k)). t = take m (f (cs ! k)))) \<and>
     (\<forall>j \<le> length cs. length (concat (map f (take j cs))) \<le> n \<longrightarrow> j \<le> k)"
proof (induction cs arbitrary: n)
  case Nil
  then show ?case by simp
next
  case (Cons c cs)
  show ?case
  proof (cases "n < length (f c)")
    case True
    have "j = 0" if "j \<le> length (c # cs)" "length (concat (map f (take j (c # cs)))) \<le> n" for j
      using that True by (cases j) auto
    with True show ?thesis by (intro exI [of _ 0] exI [of _ "take n (f c)"]) auto
  next
    case False
    from Cons [of "n - length (f c)"] obtain k t where
      k: "take (n - length (f c)) (concat (map f cs)) = concat (map f (take k cs)) @ t" "k \<le> length cs"
        "t = [] \<and> k = length cs \<or> k < length cs \<and> (\<exists>m < length (f (cs ! k)). t = take m (f (cs ! k)))"
      and max: "\<And>j. j \<le> length cs \<Longrightarrow> length (concat (map f (take j cs))) \<le> n - length (f c) \<Longrightarrow> j \<le> k" by blast
    have "j \<le> Suc k" if "j \<le> length (c # cs)" "length (concat (map f (take j (c # cs)))) \<le> n" for j
      using that max [of "j - 1"] by (cases j) auto
    with False k show ?thesis by (intro exI [of _ "Suc k"] exI [of _ t]) auto
  qed
qed

text \<open>No proper prefix of a record has the record's checksum. CRC-32 does not promise this for every text;
  it can be checked for a given one.\<close>

definition tear_detected :: "'d doubles \<Rightarrow> 'd json \<Rightarrow> bool" where
  "tear_detected D c \<longleftrightarrow>
     (\<forall>n < length (dump_value D c). crc32 (take n (dump_value D c)) 0 \<noteq> crc32 (dump_value D c) 0)"

lemma replay_bad_line:
  "no_control l \<Longrightarrow> crc32 (drop 9 l) 0 \<noteq> strtoul_hex (take 8 l) \<or> length l < 9 \<Longrightarrow> replay_lines D [l] = Inr []"
  by (auto simp: drop_cr_id Let_def)

lemma replay_torn:
  assumes "plain_json c" "tear_detected D c" "m < length (wal_record D c)"
  shows "replay_lines D (split_lines (take m (wal_record D c))) = Inr [] \<or>
    replay_lines D (split_lines (take m (wal_record D c))) = Inr [c]"
proof -
  let ?t = "take m (wal_line D c)" and ?json = "dump_value D c"
  have t: "take m (wal_record D c) = ?t" using assms(3) by (simp add: wal_record_line)
  have nc: "no_control ?t"
    using wal_line_no_control [OF assms(1)] by (auto simp: no_control_def dest: in_set_takeD)
  have lines: "split_lines ?t = (if ?t = [] then [] else [?t])"
    by (rule split_lines_tail [OF no_control_newline(1) [OF nc]])
  consider "length ?t < 9" | "m = length (wal_line D c)" | "9 \<le> m" "m < length (wal_line D c)"
    using assms(3) by (fastforce simp: wal_record_line)
  then show ?thesis
  proof cases
    case 1
    then have "replay_lines D [?t] = Inr []" by (intro replay_bad_line [OF nc] disjI2)
    then show ?thesis unfolding t lines by (simp del: replay_lines.simps(2))
  next
    case 2
    then have "?t = wal_line D c" by simp
    moreover have "wal_line D c \<noteq> []" by (simp add: wal_line_def)
    ultimately show ?thesis unfolding t lines using replay_line [OF assms(1), of D "[]"]
      by (simp del: replay_lines.simps(2))
  next
    case 3
    then obtain n where n: "m = 9 + n" using le_Suc_ex by blast
    have "drop 9 ?t = take n ?json" "take 8 ?t = hex8 (crc32 ?json 0)"
      by (simp_all add: wal_line_def n)
    moreover have "n < length ?json" using 3(2) by (simp add: wal_line_def n)
    then have "crc32 (take n ?json) 0 \<noteq> crc32 ?json 0" using assms(2) by (simp add: tear_detected_def)
    ultimately have "replay_lines D [?t] = Inr []"
      by (intro replay_bad_line [OF nc]) (simp only: strtoul_hex8 not_False_eq_True simp_thms)
    then show ?thesis unfolding t lines by (simp del: replay_lines.simps(2))
  qed
qed

lemma replay_prefix:
  assumes "\<forall>c \<in> set cs. plain_json c" "\<forall>c \<in> set cs. tear_detected D c"
  shows "\<exists>k. replay_lines D (split_lines (take n (concat (map (wal_record D) cs)))) = Inr (take k cs) \<and>
    (\<forall>j \<le> length cs. length (concat (map (wal_record D) (take j cs))) \<le> n \<longrightarrow> j \<le> k)"
proof -
  from take_concat [of n "wal_record D" cs] obtain k t where
    k: "take n (concat (map (wal_record D) cs)) = concat (map (wal_record D) (take k cs)) @ t" "k \<le> length cs"
    and t: "t = [] \<and> k = length cs \<or> k < length cs \<and> (\<exists>m < length (wal_record D (cs ! k)). t = take m (wal_record D (cs ! k)))"
    and max: "\<forall>j \<le> length cs. length (concat (map (wal_record D) (take j cs))) \<le> n \<longrightarrow> j \<le> k" by blast
  have plain: "\<forall>c \<in> set (take k cs). plain_json c" using assms(1) by (auto dest: in_set_takeD)
  have run: "replay_lines D (split_lines (take n (concat (map (wal_record D) cs)))) =
      rbind (replay_lines D (split_lines t)) (\<lambda>js. Inr (take k cs @ js))"
    by (simp add: k(1) split_lines_records [OF plain] replay_records [OF plain])
  from t show ?thesis
  proof (elim disjE conjE exE)
    assume "t = []"
    with run max show ?thesis by (intro exI [of _ k]) (simp add: split_lines_tail)
  next
    fix m assume km: "k < length cs" "m < length (wal_record D (cs ! k))" "t = take m (wal_record D (cs ! k))"
    then have "plain_json (cs ! k)" "tear_detected D (cs ! k)" using assms by auto
    from replay_torn [OF this km(2)] consider "replay_lines D (split_lines t) = Inr []" | "replay_lines D (split_lines t) = Inr [cs ! k]"
      using km(3) by blast
    then show ?thesis
    proof cases
      case 1
      with run max show ?thesis by (intro exI [of _ k]) simp
    next
      case 2
      with run max km(1) show ?thesis by (intro exI [of _ "Suc k"]) (auto simp: take_Suc_conv_app_nth)
    qed
  qed
qed

section \<open>Which records are where\<close>

definition wal_log :: "'d doubles \<Rightarrow> wal_store \<Rightarrow> 'd json list \<Rightarrow> 'd json list \<Rightarrow> bool" where
  "wal_log D w flushed unflushed \<longleftrightarrow>
     wal_open w \<and> (\<forall>c \<in> set (flushed @ unflushed). plain_json c) \<and>
     wal_file w = concat (map (wal_record D) flushed) \<and> pending w = concat (map (wal_record D) unflushed) \<and>
     batch_count w = length unflushed \<and> length unflushed < commit_batch \<and>
     wal_synced w \<le> length (wal_file w) \<and> (wal_ack w = Fsync \<longrightarrow> wal_synced w = length (wal_file w))"

lemma wal_log_flush:
  assumes "wal_log D w flushed unflushed"
  shows "wal_log D (wal_flush w) (flushed @ unflushed) []"
  using assms by (auto simp: wal_log_def wal_flush_def commit_batch_def Let_def)

lemma wal_record_ne: "wal_record D c \<noteq> []"
  by (simp add: wal_record_line)

text \<open>A full batch goes to the file at once.\<close>

lemma wal_log_append:
  assumes "wal_log D w flushed unflushed" "plain_json c"
  shows "wal_log D (wal_append D c w)
      (if length unflushed + 1 < commit_batch then flushed else flushed @ unflushed @ [c])
      (if length unflushed + 1 < commit_batch then unflushed @ [c] else [])"
  using assms by (auto simp: wal_log_def wal_append_def wal_flush_def commit_batch_def Let_def wal_record_ne)

lemma wal_log_appends:
  assumes "wal_log D w flushed unflushed" "\<forall>c \<in> set cs. plain_json c"
  shows "\<exists>f u. wal_log D (fold (wal_append D) cs w) f u \<and> f @ u = flushed @ unflushed @ cs"
  using assms
proof (induction cs arbitrary: w flushed unflushed)
  case Nil
  then show ?case by auto
next
  case (Cons c cs)
  from wal_log_append [OF Cons.prems(1), of c] Cons.prems(2)
  obtain f u where log: "wal_log D (wal_append D c w) f u" "f @ u = flushed @ unflushed @ [c]"
    by (auto split: if_splits)
  have "f @ u @ cs = flushed @ unflushed @ c # cs" using arg_cong [OF log(2), of "\<lambda>t. t @ cs"] by simp
  with Cons.IH [OF log(1)] Cons.prems(2) show ?case by simp
qed

lemma wal_log_replay:
  assumes "wal_log D w flushed unflushed"
  shows "replay_commands D w = Inr (flushed @ unflushed, wal_flush w)"
proof -
  from wal_log_flush [OF assms] have
    "wal_file (wal_flush w) = concat (map (wal_record D) (flushed @ unflushed)) @ []" and
    plain: "\<forall>c \<in> set (flushed @ unflushed). plain_json c" by (simp_all add: wal_log_def)
  then show ?thesis
    using replay_records [OF plain, of D "[]"] split_lines_records [OF plain, of D "[]"]
    by (simp add: replay_commands_def split_lines_tail del: append_Nil2)
qed

lemma wal_log_new: "open_wal True root i ack [] snap = Inr w \<Longrightarrow> wal_log D w [] []"
  by (auto simp: open_wal_def wal_log_def commit_batch_def)

lemma wal_log_saved:
  assumes "wal_log D w flushed unflushed" "save_snapshot D io snap w = (Inr (), w')"
  shows "wal_log D w' [] []" "snapshot_file w' = Some (dump_value D snap)"
  using assms
  by (auto simp: save_snapshot_def truncate_wal_def wal_log_def commit_batch_def Let_def split: if_splits)

section \<open>What is left after a crash\<close>

text \<open>The store the next start finds when a crash leaves \<open>n\<close> characters of the log: the process loses its
  buffer, the machine may lose what was not synchronised.\<close>

definition after_crash :: "nat \<Rightarrow> wal_store \<Rightarrow> wal_store" where
  "after_crash n w = w\<lparr>wal_open := True, pending := [], batch_count := 0, wal_file := take n (wal_file w),
     wal_synced := length (take n (wal_file w))\<rparr>"

lemma wal_log_crash:
  assumes log: "wal_log D w flushed unflushed" and tears: "\<forall>c \<in> set flushed. tear_detected D c"
  shows "\<exists>k. replay_commands D (after_crash n w) = Inr (take k flushed, after_crash n w) \<and>
    (length (wal_file w) \<le> n \<longrightarrow> length flushed \<le> k)"
proof -
  have plain: "\<forall>c \<in> set flushed. plain_json c" and contents: "wal_file w = concat (map (wal_record D) flushed)"
    using log by (auto simp: wal_log_def)
  from replay_prefix [OF plain tears, of n] obtain k where
    k: "replay_lines D (split_lines (take n (concat (map (wal_record D) flushed)))) = Inr (take k flushed)"
    and max: "\<forall>j \<le> length flushed. length (concat (map (wal_record D) (take j flushed))) \<le> n \<longrightarrow> j \<le> k" by blast
  have "length flushed \<le> k" if "length (wal_file w) \<le> n"
    using max [rule_format, of "length flushed"] that by (simp add: contents)
  moreover have "wal_flush (after_crash n w) = after_crash n w"
    by (simp add: wal_flush_def after_crash_def Let_def)
  ultimately show ?thesis using k by (auto simp: replay_commands_def contents after_crash_def)
qed

section \<open>Properties\<close>

text \<open>The log returns what was written: after any number of appends to a new log,
  \<open>replay_commands\<close> reads the very same records in the same order, whatever strings they hold, across the
  group-commit buffer, the hexadecimal checksum prefix, the JSON text and the lines of the file.\<close>

theorem wal_replays_appends:
  assumes "open_wal True root i ack [] None = Inr w" "\<forall>c \<in> set cs. plain_json c"
  shows "replay_commands D (fold (wal_append D) cs w) = Inr (cs, wal_flush (fold (wal_append D) cs w))"
  using wal_log_appends [OF wal_log_new [OF assms(1)] assms(2), of D] wal_log_replay by fastforce


text \<open>Two records whose torn forms are all detected.\<close>

definition sample_records :: "unit json list" where
  "sample_records = [JInt 1, JInt 2]"

definition sample_store :: wal_store where
  "sample_store = \<lparr>wal_path = wal_name ''d'' 0, snapshot_path = snapshot_name ''d'' 0, wal_ack = Fsync,
     wal_open = True, pending = [], batch_count = 0, wal_file = [], wal_synced = 0, snapshot_file = None\<rparr>"

lemma sample_store_open: "open_wal True ''d'' 0 Fsync [] None = Inr sample_store"
  by (simp add: open_wal_def sample_store_def)

lemma sample_records_plain: "\<forall>c \<in> set sample_records. plain_json c"
  by (simp add: sample_records_def fits_ll_iff)

lemma funpow_8: "(f ^^ 8) x = f (f (f (f (f (f (f (f x)))))))"
  by (simp add: numeral_eq_Suc)

lemma digit_checksums: "crc32 ''1'' 0 \<noteq> crc32 [] 0" "crc32 ''2'' 0 \<noteq> crc32 [] 0"
  by (simp_all add: crc32_def crc_step_bitwise crc_bits_def funpow_8 crc_shift_def crc_poly_def byte_def)

lemma sample_records_tears: "\<forall>c \<in> set sample_records. tear_detected sample_doubles c"
  using digit_checksums [symmetric]
  by (simp add: char_of_def bit_iff_odd sample_records_def tear_detected_def print_int_def print_nat.simps)

theorem wal_replays_appends_witness:
  "\<exists>w. replay_commands sample_doubles (fold (wal_append sample_doubles) sample_records sample_store) = Inr ([JInt 1, JInt 2], w)"
  using wal_replays_appends [OF sample_store_open sample_records_plain, of sample_doubles]
  by (simp add: sample_records_def)


end
