(* ===== verification/Recovery.thy ===== *)
theory Recovery
  imports Sharded_Slices Snapshot_Properties Wal_Properties
begin

text \<open>
  Recovery of a shard. \<open>recoverable\<close> says of a slice that its snapshot and its log, replayed, give an
  engine similar to the running one. Every command and every snapshot keeps it, failed snapshots
  included as long as the log can be reopened; so after any history \<open>replay_shard\<close> returns normally and
  rebuilds the books.
\<close>

section \<open>Records\<close>

fun fits_command :: "command \<Rightarrow> bool" where
  "fits_command (CAdd c) \<longleftrightarrow> fits_ll (ao_order_id c) \<and> fits_ll (ao_price_ticks c) \<and> fits_ll (ao_quantity c)"
| "fits_command (CCancel c) \<longleftrightarrow> fits_ll (co_order_id c)"
| "fits_command (CReplace c) \<longleftrightarrow> fits_ll (rp_order_id c) \<and> fits_ll (rp_new_order_id c) \<and>
     fits_ll (rp_new_price_ticks c) \<and> fits_ll (rp_new_quantity c)"

lemmas record_defs = log_record_def reject_record_def serialize_add_def serialize_cancel_def serialize_replace_def
  json_builders

lemma plain_records:
  "fits_command c \<Longrightarrow> plain_json (command_record c)"
  "fits_command (CAdd cmd) \<Longrightarrow> plain_json (reject_record cmd reason)"
  by (cases c) (simp_all add: record_defs)

lemma side_round_trip: "side_from_string (side_to_string sd) = sd"
  by (cases sd) (simp_all add: side_from_string_def side_to_string_def)

lemma tif_round_trip: "tif_from_string (tif_to_string t) = t"
  by (cases t) (simp_all add: tif_from_string_def)

lemma stp_round_trip: "stp_from_string (stp_to_string p) = p"
  by (cases p) (simp_all add: stp_from_string_def)

lemma read_records:
  "read_add D (serialize_add a) = a" "read_cancel D (serialize_cancel k) = k" "read_replace D (serialize_replace r) = r"
  by (simp_all add: record_defs read_add_def read_cancel_def read_replace_def get_str_def get_int_def json_find_def
      side_round_trip tif_round_trip stp_round_trip)

lemma apply_command_record: "apply_record D (command_record c) e = rbind (engine_execute c e) (\<lambda>r. Inr (snd r))"
proof -
  have obj: "is_object (serialize_add a)" "is_object (serialize_cancel k)" "is_object (serialize_replace r)" for a k r
    by (simp_all add: record_defs)
  have find: "json_find ''type'' (log_record ty cmd) = Some (JString ty)" "json_find ''command'' (log_record ty cmd) = Some cmd"
    for ty and cmd :: "'a json" by (simp_all add: log_record_def json_builders json_find_def)
  show ?thesis
  proof (cases c)
    case (CCancel cmd)
    then show ?thesis
      by (cases "engine_cancel cmd e") (auto simp: apply_record_def find obj read_records engine_execute_def)
  qed (simp_all add: apply_record_def find obj read_records engine_execute_def)
qed

lemma apply_reject_record: "apply_record D (reject_record cmd reason) e = Inr e"
  by (simp add: record_defs apply_record_def json_find_def)

section \<open>Commands on similar engines\<close>

fun fresh_command :: "queues \<Rightarrow> command \<Rightarrow> bool" where
  "fresh_command Q (CAdd c) \<longleftrightarrow> fresh Q (ao_order_id c)"
| "fresh_command Q (CCancel c) \<longleftrightarrow> True"
| "fresh_command Q (CReplace c) \<longleftrightarrow> fresh Q (rp_new_order_id c)"

lemma similar_execute:
  assumes "similar e e'" "fresh_command (engine_queue e) c"
  shows "\<exists>out f out' f'. engine_execute c e = Inr (out, f) \<and> engine_execute c e' = Inr (out', f') \<and>
    same_answer out out' \<and> similar f f'"
proof (cases c)
  case (CAdd cmd)
  with similar_add [OF assms(1), of cmd] assms(2) show ?thesis by (simp add: engine_execute_def)
next
  case (CCancel cmd)
  with similar_cancel [OF assms(1), of cmd] show ?thesis by (auto simp: engine_execute_def same_answer_def)
next
  case (CReplace cmd)
  with similar_replace [OF assms(1), of cmd] assms(2) show ?thesis by (simp add: engine_execute_def)
qed

section \<open>Values stay in range\<close>

lemma fits_between: "fits_ll a \<Longrightarrow> 0 < b \<Longrightarrow> b \<le> a \<Longrightarrow> fits_ll b"
  by (simp add: fits_ll_iff)

lemma match_queue_bounds:
  assumes "\<forall>nd \<in> set q. 0 < ro_remaining (snd nd)"
  shows "run_remaining (snd (match_queue cmd q r)) \<le> max 0 (run_remaining r)"
  using assms
proof (induction cmd q r rule: match_queue.induct)
  case (2 cmd n ord q r)
  then show ?case
    by (auto simp: Let_def stp_stop_def stp_skip_def fill_run_def executed_event_def cancel_passive_event_def
        cancel_aggressor_event_def)
qed simp

lemma fits_set_queue:
  "fits_queues Q \<Longrightarrow> \<forall>nd \<in> set q. fits_order (snd nd) \<Longrightarrow> fits_queues (set_queue s sd q Q)"
  by (simp add: fits_queues_def set_queue_apply)

lemma fits_queuesD: "fits_queues Q \<Longrightarrow> nd \<in> set (Q s sd) \<Longrightarrow> fits_order (snd nd)"
  by (simp add: fits_queues_def)

lemma fits_enqueue:
  assumes "fits_queues Q" "fits_order ord"
  shows "fits_queues (set_queue s sd (enqueue sd p (n, ord) (Q s sd)) Q)"
  using assms fits_queuesD [OF assms(1)] by (intro fits_set_queue) auto

lemma fits_filter: "fits_queues Q \<Longrightarrow> fits_queues (set_queue s sd (filter P (Q s sd)) Q)"
  using fits_queuesD by (intro fits_set_queue) auto

lemma fits_leaves:
  assumes "fits_queues Q" "leaves (Q s sd) gone q"
  shows "\<forall>nd \<in> set q. fits_order (snd nd)"
proof -
  have q: "\<And>nd. nd \<in> set (Q s sd) \<Longrightarrow> fits_order (snd nd)" using assms(1) by (simp add: fits_queues_def)
  from assms(2) obtain rest where rest: "Q s sd = gone @ rest"
    "q = rest \<or> (\<exists>n ord tl k. rest = (n, ord) # tl \<and> q = (n, ord\<lparr>ro_remaining := k\<rparr>) # tl \<and> 0 < k \<and> k < ro_remaining ord)"
    unfolding leaves_def by blast
  then consider "q = rest" | n ord tl k where "rest = (n, ord) # tl" "q = (n, ord\<lparr>ro_remaining := k\<rparr>) # tl" "0 < k" "k < ro_remaining ord"
    by blast
  then show ?thesis
  proof cases
    case 1
    with q rest(1) show ?thesis by auto
  next
    case 2
    with q [of "(n, ord)"] q rest(1) show ?thesis
      by (auto simp: fits_order_def intro: fits_between)
  qed
qed

lemma fits_spec_add:
  assumes "fits_queues Q" "spec_inv (Q, e)" "fits_command (CAdd cmd)"
  shows "fits_queues (fst (snd (spec_add cmd (Q, e))))"
proof -
  let ?s = "ao_symbol cmd" and ?osd = "opposite (ao_side cmd)"
  obtain q r where mq: "match_queue cmd (Q ?s ?osd) (accept_run cmd e) = (q, r)" by fastforce
  from match_queue_leaves [of "Q ?s ?osd" cmd "accept_run cmd e"] mq obtain gone where
    lv: "leaves (Q ?s ?osd) gone q" by auto
  have pos: "\<forall>nd \<in> set (Q ?s ?osd). 0 < ro_remaining (snd nd)"
    using assms(2) by (auto simp: spec_inv_def orders_ok_def wf_order_def)
  have fits: "fits_queues (set_queue ?s ?osd q Q)"
    by (rule fits_set_queue [OF assms(1) fits_leaves [OF assms(1) lv]])
  have "fits_ll (run_remaining r)" if "0 < run_remaining r"
    using match_queue_bounds [OF pos, of cmd "accept_run cmd e"] that assms(3) mq
    by (auto intro: fits_between)
  then have "fits_queues (fst (spec_rest cmd (run_remaining r) (set_queue ?s ?osd q Q, f)))" if "0 < run_remaining r" for f
    unfolding spec_rest_def Let_def prod.case fst_conv
    using that assms(3) by (intro fits_enqueue [OF fits]) (simp add: resting_of_def fits_order_def)
  with assms(1) fits show ?thesis
    by (auto simp: spec_add_def mq Let_def split_beta)
qed

lemma fits_spec_cancel:
  assumes "fits_queues Q"
  shows "fits_queues (fst (snd (spec_cancel cmd (Q, e))))"
  using assms
  by (auto simp: spec_cancel_def spec_remove_def spec_unknown_def Let_def split_beta fits_filter split: option.splits)

lemma fits_spec_replace:
  assumes "fits_queues Q" "spec_inv (Q, e)" "fits_command (CReplace cmd)"
  shows "fits_queues (fst (snd (spec_replace cmd (Q, e))))"
proof -
  let ?c = "spec_cancel \<lparr>co_symbol = rp_symbol cmd, co_order_id = rp_order_id cmd\<rparr> (Q, e)"
  obtain evs Q1 e1 where c: "?c = (evs, (Q1, e1))" by (cases ?c) auto
  have "fits_queues Q1" "spec_inv (Q1, e1)"
    using fits_spec_cancel [OF assms(1), of _ e] spec_cancel_inv [OF assms(2)] c by (metis snd_conv fst_conv)+
  then have "fits_queues (fst (snd (spec_add (replacement cmd sd ord) (Q1, e1))))" for sd ord
    using assms(3) by (intro fits_spec_add) (simp_all add: replacement_def)
  with assms(1) c show ?thesis
    by (auto simp: spec_replace_def spec_unknown_def split_beta Let_def split: option.splits)
qed

lemma fits_execute:
  assumes "wf_engine e" "fits_queues (engine_queue e)" "fits_command c" "engine_execute c e = Inr (out, e')"
  shows "fits_queues (engine_queue e')"
proof -
  have inv: "spec_inv (engine_queue e, forget e)" using assms(1) by (simp add: wf_engine_def view_pair)
  show ?thesis
  proof (cases c)
    case (CAdd cmd)
    with engine_add_view [OF assms(1), of cmd out e'] fits_spec_add [OF assms(2) inv, of cmd] assms(3,4)
    show ?thesis by (simp add: engine_execute_def view_pair)
  next
    case (CCancel cmd)
    with assms(4) obtain evs where "engine_cancel cmd e = Inr (evs, e')" by (auto simp: engine_execute_def rbind_eq_Inr)
    with engine_cancel_view [OF assms(1), of cmd evs e'] fits_spec_cancel [OF assms(2), of cmd "forget e"]
    show ?thesis by (simp add: view_pair)
  next
    case (CReplace cmd)
    with engine_replace_view [OF assms(1), of cmd out e'] fits_spec_replace [OF assms(2) inv, of cmd] assms(3,4)
    show ?thesis by (simp add: engine_execute_def view_pair)
  qed
qed

section \<open>Recoverable slices\<close>

definition base_engine :: "'d doubles \<Rightarrow> wal_store \<Rightarrow> engine result" where
  "base_engine D w = rbind (read_snapshot D w) (\<lambda>snap.
     case snap of None \<Rightarrow> Inr empty_engine | Some j \<Rightarrow> load_snapshot D j empty_engine)"

definition recovers :: "'d doubles \<Rightarrow> wal_store \<Rightarrow> engine \<Rightarrow> bool" where
  "recovers D w e \<longleftrightarrow>
     (\<exists>f u base e'. wal_log D w f u \<and> base_engine D w = Inr base \<and>
        rfold (apply_record D) (f @ u) base = Inr e' \<and> similar e e')"

definition recoverable :: "'d doubles \<Rightarrow> slice \<Rightarrow> bool" where
  "recoverable D sl \<longleftrightarrow> recovers D (sl_wal sl) (sl_engine sl) \<and> fits_queues (engine_queue (sl_engine sl))"

lemma rebuild_eq:
  assumes "wal_log D w f u"
  shows "rebuild D w = rbind (base_engine D w) (\<lambda>base.
    rbind (rfold (apply_record D) (f @ u) base) (\<lambda>e. Inr (e, wal_flush w)))"
  by (cases "read_snapshot D w") (simp_all add: rebuild_def base_engine_def wal_log_replay [OF assms] rbind_assoc)

lemma recovers_rebuild:
  assumes "recovers D w e"
  shows "\<exists>e'. rebuild D w = Inr (e', wal_flush w) \<and> similar e e'"
  using assms by (auto simp: recovers_def rebuild_eq)

lemma base_engine_cong: "snapshot_file w = snapshot_file w' \<Longrightarrow> base_engine D w = base_engine D w'"
  by (simp add: base_engine_def read_snapshot_def)

lemma snapshot_file_frame [simp]:
  "snapshot_file (wal_flush w) = snapshot_file w" "snapshot_file (wal_append D c w) = snapshot_file w"
  by (simp_all add: wal_flush_def wal_append_def Let_def)

lemma recovers_flush: "recovers D w e \<Longrightarrow> recovers D (wal_flush w) e"
  unfolding recovers_def by (metis append_Nil2 base_engine_cong snapshot_file_frame(1) wal_log_flush)

lemma recovers_similar: "recovers D w e \<Longrightarrow> (\<And>e'. similar e e' \<Longrightarrow> similar e1 e') \<Longrightarrow> recovers D w e1"
  unfolding recovers_def by blast

text \<open>A record is appended while the engine moves on as the record says.\<close>

lemma recovers_append:
  assumes "recovers D w e" "plain_json rec"
    and step: "\<And>e'. similar e e' \<Longrightarrow> \<exists>f'. apply_record D rec e' = Inr f' \<and> similar e1 f'"
  shows "recovers D (wal_append D rec w) e1"
proof -
  from assms(1) obtain f u base e' where
    r: "wal_log D w f u" "base_engine D w = Inr base" "rfold (apply_record D) (f @ u) base = Inr e'" "similar e e'"
    unfolding recovers_def by blast
  from step [OF r(4)] obtain f' where f': "apply_record D rec e' = Inr f'" "similar e1 f'" by blast
  from wal_log_appends [OF r(1), of "[rec]"] assms(2) obtain f1 u1 where
    log: "wal_log D (wal_append D rec w) f1 u1" "f1 @ u1 = (f @ u) @ [rec]" by auto
  have "rfold (apply_record D) (f1 @ u1) base = Inr f'" 
    unfolding log(2) by (subst rfold_append) (simp add: r(3) f'(1))
  moreover have "base_engine D (wal_append D rec w) = Inr base"
    using r(2) base_engine_cong [of "wal_append D rec w" w D] by simp
  ultimately show ?thesis unfolding recovers_def using log(1) f'(2) by blast
qed

lemma recoverable_run:
  assumes "recoverable D sl" "fits_command c" "fresh_command (engine_queue (sl_engine sl)) c"
  shows "\<exists>out sl'. slice_run D c sl = Inr (out, sl') \<and> recoverable D sl' \<and> sl_last sl' = sl_last sl"
proof -
  have rec: "recovers D (sl_wal sl) (sl_engine sl)" and fits: "fits_queues (engine_queue (sl_engine sl))"
    using assms(1) by (simp_all add: recoverable_def)
  from rec obtain e0 where sim: "similar (sl_engine sl) e0" unfolding recovers_def by blast
  from similar_execute [OF sim assms(3)] obtain out e1 where
    run: "engine_execute c (sl_engine sl) = Inr (out, e1)" by blast
  have "\<exists>f'. apply_record D (command_record c) e' = Inr f' \<and> similar e1 f'" if "similar (sl_engine sl) e'" for e'
    using similar_execute [OF that assms(3)] run by (auto simp: apply_command_record)
  from recovers_append [OF rec plain_records(1) [OF assms(2)] this]
  have "recovers D (wal_append D (command_record c) (sl_wal sl)) e1" .
  moreover have "fits_queues (engine_queue e1)"
    using similar_parts(1) [OF sim] fits assms(2) run by (rule fits_execute)
  ultimately show ?thesis by (simp add: slice_run_def run slice_log_def recoverable_def)
qed

lemma slice_reject_frame:
  assumes "recoverable D sl" "slice_reject c reason sl = (ev, sl')"
  shows "recoverable D sl'" "sl_wal sl' = sl_wal sl" "sl_last sl' = sl_last sl"
proof -
  let ?e = "snd (engine_reject (command_symbol c) (command_order_id c) reason (sl_engine sl))"
  have sl': "sl' = sl\<lparr>sl_engine := ?e\<rparr>" using assms(2) by (simp add: slice_reject_def split_beta)
  have q: "engine_queue ?e = engine_queue (sl_engine sl)" by (rule engine_queue_cong) (simp add: engine_reject_def)
  have "recovers D (sl_wal sl) ?e"
    using assms(1) by (intro recovers_similar [OF _ similar_reject]) (simp_all add: recoverable_def)
  with assms(1) q show "recoverable D sl'" "sl_wal sl' = sl_wal sl" "sl_last sl' = sl_last sl"
    by (simp_all add: sl' recoverable_def)
qed

lemma recoverable_last [simp]: "recoverable D (sl\<lparr>sl_last := n\<rparr>) = recoverable D sl"
  by (simp add: recoverable_def)

lemma recoverable_reject_logged:
  assumes "recoverable D sl" "fits_command (CAdd cmd)"
  shows "recoverable D (slice_log D (reject_record cmd reason) sl)"
proof -
  have "recovers D (wal_append D (reject_record cmd reason) (sl_wal sl)) (sl_engine sl)"
    using assms by (intro recovers_append [where e = "sl_engine sl"])
      (auto simp: recoverable_def plain_records(2) apply_reject_record)
  with assms(1) show ?thesis by (simp add: recoverable_def slice_log_def)
qed

lemma recoverable_checked:
  assumes "recoverable D sl" "fits_command c" "fresh_command (engine_queue (sl_engine sl)) c"
    and run: "slice_checked D limits c sl = Inr (out, sl')"
  shows "recoverable D sl'"
proof -
  have ran: "recoverable D sl'" if "slice_run D c sl = Inr (out, sl')"
    using recoverable_run [OF assms(1-3)] that by auto
  show ?thesis
  proof (cases c)
    case (CAdd cmd)
    with run obtain reason where reason: "check_add limits cmd = Inr reason"
      by (auto simp: slice_checked_def rbind_eq_Inr)
    show ?thesis
    proof (cases reason)
      case None
      with CAdd run reason ran show ?thesis by (simp add: slice_checked_def)
    next
      case (Some r)
      obtain ev sl1 where rej: "slice_reject c r sl = (ev, sl1)" by fastforce
      with CAdd Some run reason have "sl' = slice_log D (reject_record cmd r) sl1" by (simp add: slice_checked_def)
      with recoverable_reject_logged [OF slice_reject_frame(1) [OF assms(1) rej]] assms(2) CAdd show ?thesis by simp
    qed
  qed (use run ran in \<open>simp_all add: slice_checked_def\<close>)
qed

lemma recoverable_execute:
  assumes "recoverable D sl" "fits_command c" "fresh_command (engine_queue (sl_engine sl)) c"
    and run: "slice_execute D limits c ingress sl = Inr (out, sl')"
  shows "recoverable D sl'"
proof (cases ingress)
  case None
  with run recoverable_checked [OF assms(1-3)] show ?thesis by (simp add: slice_execute_def)
next
  case (Some n)
  show ?thesis
  proof (cases "n \<le> sl_last sl")
    case True
    obtain ev sl1 where "slice_reject c ''OUT_OF_ORDER_INGRESS'' sl = (ev, sl1)" by fastforce
    with slice_reject_frame(1) [OF assms(1) this] True Some run show ?thesis by (simp add: slice_execute_def)
  next
    case False
    with Some run have "slice_checked D limits c (sl\<lparr>sl_last := n\<rparr>) = Inr (out, sl')" by (simp add: slice_execute_def)
    with recoverable_checked [of D "sl\<lparr>sl_last := n\<rparr>" c limits out sl'] assms(1-3) show ?thesis by simp
  qed
qed

section \<open>Snapshots keep a shard recoverable\<close>

lemma recoverable_snapshot:
  fixes D :: "'d doubles"
  assumes "recoverable D sl" "enumerates syms (sl_engine sl)" "fits_ll (engine_sequence (sl_engine sl))"
    and io: "wal_reopened io" and save: "save_snapshot D io (snapshot syms (sl_engine sl)) (sl_wal sl) = (r, w)"
  shows "recoverable D (sl\<lparr>sl_wal := w\<rparr>)"
proof -
  let ?e = "sl_engine sl" and ?snap = "snapshot syms (sl_engine sl) :: 'd json"
  have rec: "recovers D (sl_wal sl) ?e" and fits: "fits_queues (engine_queue ?e)"
    using assms(1) by (simp_all add: recoverable_def)
  from rec obtain f u e0 where log: "wal_log D (sl_wal sl) f u" and sim: "similar ?e e0" unfolding recovers_def by blast
  then have ids: "ids_inv ?e" by (simp add: similar_def)
  then have plain: "plain_json ?snap"
    using assms(2,3) fits by (intro plain_snapshot) (simp_all add: ids_inv_def wf_engine_def)
  have "recovers D w ?e"
  proof (cases "tmp_opened io \<and> renamed io")
    case False
    with save have "w = wal_flush (sl_wal sl)" by (auto simp: save_snapshot_def Let_def split: if_splits)
    with recovers_flush [OF rec] show ?thesis by simp
  next
    case True
    with save io have r: "r = Inr ()" by (auto simp: save_snapshot_def truncate_wal_def Let_def)
    note saved = wal_log_saved [OF log save [unfolded r]]
    obtain c t where "dump_value D ?snap = c # t" using dump_hd [OF plain] by blast
    with saved(2) parse_dump_plain [OF plain, of D] have "base_engine D w = load_snapshot D ?snap empty_engine"
      by (simp add: base_engine_def read_snapshot_def)
    with load_snapshot_similar [OF ids assms(2), of D empty_engine] obtain e' where
      "base_engine D w = Inr e'" "similar ?e e'" by auto
    with saved(1) show ?thesis unfolding recovers_def by (intro exI [of _ "[]"]) auto
  qed
  with fits show ?thesis by (simp add: recoverable_def)
qed

section \<open>Histories of the sharded engine\<close>

text \<open>The steps of the sharded engine: a command whose numbers are 64-bit and whose new order id is not in
  use in its shard, a snapshot of all shards (failed ones included, unless a log cannot be reopened), and
  the replay of a shard, which flushes its log.\<close>

inductive sharded_step :: "'d doubles \<Rightarrow> sharded \<Rightarrow> sharded \<Rightarrow> bool" for D :: "'d doubles" where
  sharded_command: "fits_command c \<Longrightarrow>
    fresh_command (engine_queue (engines sh ! shard sh (command_symbol c))) c \<Longrightarrow>
    execute D c ingress sh = Inr (out, sh') \<Longrightarrow> sharded_step D sh sh'"
| sharded_snapshot: "(\<And>i. i < length (engines sh) \<Longrightarrow> enumerates (syms i) (engines sh ! i) \<and>
      fits_ll (engine_sequence (engines sh ! i)) \<and> wal_reopened (io i)) \<Longrightarrow>
    snapshot_all D io syms sh = (r, sh') \<Longrightarrow> sharded_step D sh sh'"
| sharded_replay: "replay_shard D i sh = Inr (e, sh') \<Longrightarrow> sharded_step D sh sh'"

definition sharded_init :: "sharded \<Rightarrow> bool" where
  "sharded_init sh \<longleftrightarrow> (\<exists>n root ack limits. n < 2 ^ 31 \<and>
     new_sharded n root ack limits (\<lambda>_. (True, [], None)) = Inr sh)"

definition all_recoverable :: "'d doubles \<Rightarrow> sharded \<Rightarrow> bool" where
  "all_recoverable D sh \<longleftrightarrow> wf_sharded sh \<and> (\<forall>i < nat (shard_count sh). recoverable D (slice_of sh i))"

lemma recoverable_new:
  assumes "wal_log D w [] []" "snapshot_file w = None"
  shows "recoverable D \<lparr>sl_engine = empty_engine, sl_wal = w, sl_last = n\<rparr>"
proof -
  have "ids_inv empty_engine" using ids.inv_init [of empty_engine] by (simp add: engine_init_def)
  then have "similar empty_engine empty_engine" by (simp add: similar_def)
  moreover have "base_engine D w = Inr empty_engine" using assms(2) by (simp add: base_engine_def read_snapshot_def)
  ultimately have "recovers D w empty_engine" unfolding recovers_def using assms(1)
    by (intro exI [of _ "[]"]) auto
  then show ?thesis by (simp add: recoverable_def fits_queues_def engine_queue_def)
qed

lemma open_wals_new:
  assumes "open_wals root ack (\<lambda>_. (True, [], None)) is = Inr ws" "w \<in> set ws"
  shows "wal_log D w [] [] \<and> snapshot_file w = None"
  using assms
proof (induction "is" arbitrary: ws)
  case (Cons i "is")
  then obtain w0 ws0 where "open_wal True root (int i) ack [] None = Inr w0"
    "open_wals root ack (\<lambda>_. (True, [], None)) is = Inr ws0" "ws = w0 # ws0"
    by (auto simp: rbind_eq_Inr)
  with Cons wal_log_new [OF this(1), of D] show ?case by (auto simp: open_wal_def)
qed simp

lemma all_recoverable_init:
  assumes "sharded_init sh"
  shows "all_recoverable D sh"
proof -
  from assms obtain n root ack limits where n: "n < 2 ^ 31"
    "new_sharded n root ack limits (\<lambda>_. (True, [], None)) = Inr sh" by (auto simp: sharded_init_def)
  then obtain ws where ws: "open_wals root ack (\<lambda>_. (True, [], None)) [0..<nat n] = Inr ws"
    and sh: "sh = \<lparr>shard_count = n, engines = replicate (nat n) empty_engine, wals = ws, risk = limits,
      last_ingress_sequence = replicate (nat n) 0\<rparr>"
    by (auto simp: new_sharded_def rbind_eq_Inr split: if_splits)
  have "recoverable D (slice_of sh i)" if "i < nat n" for i
  proof -
    have "ws ! i \<in> set ws" using length_open_wals [OF ws] that by simp
    from open_wals_new [OF ws this, of D] recoverable_new [of D "ws ! i" 0] that
    show ?thesis by (simp add: slice_of_def sh)
  qed
  with new_sharded_wf [OF n(2,1)] show ?thesis by (simp add: all_recoverable_def sh)
qed

lemma all_recoverable_put:
  "all_recoverable D sh \<Longrightarrow> recoverable D sl \<Longrightarrow> all_recoverable D (put_slice s sl sh)"
  by (auto simp: all_recoverable_def slice_of_put)

lemma all_recoverable_execute:
  assumes "all_recoverable D sh" "fits_command c"
    and fresh: "fresh_command (engine_queue (engines sh ! shard sh (command_symbol c))) c"
    and run: "execute D c ingress sh = Inr (out, sh')"
  shows "all_recoverable D sh'"
proof -
  let ?s = "shard sh (command_symbol c)"
  have wf: "wf_sharded sh" and rec: "recoverable D (slice_of sh ?s)"
    using assms(1) shard_in_range [of sh "command_symbol c"] by (simp_all add: all_recoverable_def)
  from run obtain sl where sl: "slice_execute D (risk sh) c ingress (slice_of sh ?s) = Inr (out, sl)"
    "sh' = put_slice ?s sl sh" by (auto simp: execute_local [OF wf refl] rbind_eq_Inr)
  have "recoverable D sl"
    by (rule recoverable_execute [OF rec assms(2) _ sl(1)]) (use fresh in \<open>simp add: slice_of_def\<close>)
  with assms(1) sl(2) show ?thesis by (simp add: all_recoverable_put)
qed

lemma put_wal: "sh\<lparr>wals := (wals sh)[i := w]\<rparr> = put_slice i ((slice_of sh i)\<lparr>sl_wal := w\<rparr>) sh"
  by (simp add: put_slice_def slice_of_def)

lemma all_recoverable_snapshots:
  assumes "snapshot_shards D io syms is sh = (r, sh')" "all_recoverable D sh" "set is \<subseteq> {..<nat (shard_count sh)}"
    and "\<And>i. i \<in> set is \<Longrightarrow> enumerates (syms i) (engines sh ! i) \<and> fits_ll (engine_sequence (engines sh ! i)) \<and>
      wal_reopened (io i)"
  shows "all_recoverable D sh'"
  using assms
proof (induction "is" arbitrary: sh)
  case Nil
  then show ?case by simp
next
  case (Cons i "is")
  obtain r1 w where save: "save_snapshot D (io i) (snapshot (syms i) (engines sh ! i)) (wals sh ! i) = (r1, w)" by fastforce
  let ?sh = "sh\<lparr>wals := (wals sh)[i := w]\<rparr>"
  have "recoverable D (slice_of sh i)" using Cons.prems(2,3) by (simp add: all_recoverable_def)
  from recoverable_snapshot [OF this, of "syms i" "io i" r1 w] Cons.prems(4) [of i] save
  have "recoverable D ((slice_of sh i)\<lparr>sl_wal := w\<rparr>)" by (simp add: slice_of_def)
  with Cons.prems(2) have all: "all_recoverable D ?sh" unfolding put_wal by (rule all_recoverable_put)
  show ?case
  proof (cases r1)
    case (Inl err)
    with Cons.prems(1) save all show ?thesis by auto
  next
    case (Inr x)
    with Cons.prems(1) save have "snapshot_shards D io syms is ?sh = (r, sh')" by simp
    from Cons.IH [OF this all] Cons.prems(3,4) show ?thesis by simp
  qed
qed

lemma all_recoverable_replay:
  assumes "all_recoverable D sh" "0 \<le> i" "i < shard_count sh"
  shows "\<exists>e sh'. replay_shard D i sh = Inr (e, sh') \<and> similar (engines sh ! nat i) e \<and> all_recoverable D sh'"
proof -
  have rec: "recoverable D (slice_of sh (nat i))" using assms by (simp add: all_recoverable_def)
  then have w: "recovers D (wals sh ! nat i) (engines sh ! nat i)" by (simp add: recoverable_def slice_of_def)
  from recovers_rebuild [OF w] obtain e where
    e: "rebuild D (wals sh ! nat i) = Inr (e, wal_flush (wals sh ! nat i))" "similar (engines sh ! nat i) e" by blast
  have "recoverable D ((slice_of sh (nat i))\<lparr>sl_wal := wal_flush (wals sh ! nat i)\<rparr>)"
    using rec recovers_flush [OF w] by (simp add: recoverable_def slice_of_def)
  with assms(1) have "all_recoverable D (sh\<lparr>wals := (wals sh)[nat i := wal_flush (wals sh ! nat i)]\<rparr>)"
    unfolding put_wal by (rule all_recoverable_put)
  with e assms(2,3) show ?thesis by (simp add: replay_shard_def)
qed

interpretation shards: invariant_system sharded_init "sharded_step D" "all_recoverable D" for D
proof
  show "all_recoverable D sh" if "sharded_init sh" for sh
    using that by (rule all_recoverable_init)
  show "all_recoverable D sh'" if inv: "all_recoverable D sh" and "sharded_step D sh sh'" for sh sh'
    using that(2)
  proof cases
    case (sharded_command c ingress out)
    show ?thesis by (rule all_recoverable_execute [OF inv sharded_command])
  next
    case (sharded_snapshot syms io r)
    have len: "length (engines sh) = nat (shard_count sh)" using inv by (simp add: all_recoverable_def wf_sharded_def)
    show ?thesis
      by (rule all_recoverable_snapshots [OF sharded_snapshot(2) [unfolded snapshot_all_def] inv])
        (use sharded_snapshot(1) len in auto)
  next
    case (sharded_replay i e)
    then have "0 \<le> i" "i < shard_count sh" by (auto simp: replay_shard_def split: if_splits)
    from all_recoverable_replay [OF inv this] sharded_replay show ?thesis by auto
  qed
qed

end
