(* ===== verification/Recovery_Properties.thy ===== *)
theory Recovery_Properties
  imports Recovery
begin

text \<open>
  Properties of the sharded engine and its recovery, with concrete instances: a fresh engine of two shards
  (\<open>sample_sharded\<close>) that accepts one order.
\<close>

section \<open>A sample history\<close>

definition sample_wal :: "int \<Rightarrow> wal_store" where
  "sample_wal i = \<lparr>wal_path = wal_name ''d'' i, snapshot_path = snapshot_name ''d'' i, wal_ack = Async,
     wal_open = True, pending = [], batch_count = 0, wal_file = [], wal_synced = 0, snapshot_file = None\<rparr>"

definition sample_sharded :: sharded where
  "sample_sharded = \<lparr>shard_count = 2, engines = [empty_engine, empty_engine], wals = [sample_wal 0, sample_wal 1],
     risk = default_limits, last_ingress_sequence = [0, 0]\<rparr>"

definition first_order :: add_order where
  "first_order = sample_order 1 ''A'' Sell 101 10"

lemma sample_sharded_init: "sharded_init sample_sharded"
proof -
  have "new_sharded 2 ''d'' Async default_limits (\<lambda>_. (True, [], None)) = Inr sample_sharded"
    by (simp add: new_sharded_def sample_sharded_def sample_wal_def open_wal_def numeral_2_eq_2)
  then show ?thesis unfolding sharded_init_def
    by (intro exI [of _ 2] exI [of _ "''d''"] exI [of _ Async] exI [of _ default_limits]) simp
qed

lemma sample_sharded_wf: "wf_sharded sample_sharded"
  by (simp add: wf_sharded_def sample_sharded_def)

lemma sample_slice:
  "i < 2 \<Longrightarrow> slice_of sample_sharded i = \<lparr>sl_engine = empty_engine, sl_wal = sample_wal (int i), sl_last = 0\<rparr>"
  by (cases i) (auto simp: slice_of_def sample_sharded_def less_Suc_eq numeral_2_eq_2)

lemma sample_shard: "shard sample_sharded symb < 2"
  using shard_in_range [OF sample_sharded_wf, of symb] by (simp add: sample_sharded_def)

lemma first_order_facts:
  "check_add default_limits first_order = Inr None" "fits_command (CAdd first_order)"
  "command_symbol (CAdd first_order) = ''X''"
  by (simp_all add: check_add_def default_limits_def first_order_def sample_order_def mult_ll_def fits_ll_iff)

lemma first_order_added:
  "\<exists>out. engine_add first_order empty_engine = Inr (out, after_add first_order empty_engine)"
  by (simp add: first_order_def sample_eval)

lemma first_order_queue:
  "engine_queue (after_add first_order empty_engine) = (\<lambda>s sd. if s = ''X'' \<and> sd = Sell then [(0, resting_of first_order 10 1)] else [])"
proof (intro ext)
  fix s sd
  show "engine_queue (after_add first_order empty_engine) s sd =
      (if s = ''X'' \<and> sd = Sell then [(0, resting_of first_order 10 1)] else [])"
    by (cases sd) (simp_all add: first_order_def sample_eval engine_queue_def side_queue_def resting_of_def)
qed

lemma sample_history:
  "\<exists>sh. reachable sharded_init (sharded_step D) sh \<and> shard_count sh = 2 \<and> shard sh = shard sample_sharded \<and>
     engines sh ! shard sh ''X'' = after_add first_order empty_engine"
proof -
  let ?s = "shard sample_sharded ''X''" and ?c = "CAdd first_order"
  obtain out where add: "engine_add first_order empty_engine = Inr (out, after_add first_order empty_engine)"
    using first_order_added by blast
  let ?sl = "(slice_log D (command_record ?c) (slice_of sample_sharded ?s))\<lparr>sl_engine := after_add first_order empty_engine\<rparr>"
  have risk: "risk sample_sharded = default_limits" by (simp add: sample_sharded_def)
  have "slice_execute D default_limits ?c None (slice_of sample_sharded ?s) = Inr (out, ?sl)"
    using add first_order_facts(1)
    by (simp add: slice_execute_def slice_checked_def slice_run_def engine_execute_def sample_slice [OF sample_shard])
  then have run: "execute D ?c None sample_sharded = Inr (out, put_slice ?s ?sl sample_sharded)"
    by (simp add: execute_local [OF sample_sharded_wf refl] first_order_facts(3) risk del: command_symbol.simps)
  have "engines sample_sharded ! ?s = empty_engine"
    using sample_slice [OF sample_shard, of "''X''"] by (simp add: slice_of_def)
  then have "fresh_command (engine_queue (engines sample_sharded ! shard sample_sharded (command_symbol ?c))) ?c"
    unfolding first_order_facts(3) by (simp add: fresh_def engine_queue_def)
  from sharded_command [OF first_order_facts(2) this run]
  have "reachable sharded_init (sharded_step D) (put_slice ?s ?sl sample_sharded)"
    using reachable.reachable_init [of sharded_init, OF sample_sharded_init] by (rule reachable.reachable_step [rotated])
  moreover have "length (engines sample_sharded) = 2" by (simp add: sample_sharded_def)
  then have "engines (put_slice ?s ?sl sample_sharded) ! ?s = after_add first_order empty_engine"
    using sample_shard [of "''X''"] by simp
  moreover have "shard_count sample_sharded = 2" by (simp add: sample_sharded_def)
  ultimately show ?thesis
    by (intro exI [of _ "put_slice ?s ?sl sample_sharded"]) simp
qed

section \<open>Recovery\<close>



text \<open>C37: A shard id outside the range is refused with \<open>out_of_range\<close>, and a shard count that is not positive
  with \<open>invalid_argument\<close>; otherwise the vectors of engines, logs and ingress numbers keep exactly one entry
  per shard through every step, so that the shard of a symbol always selects an existing entry of each.\<close>

theorem shard_vectors_match:
  assumes "reachable sharded_init (sharded_step D) sh"
  shows "shard sh symb < length (engines sh) \<and> length (engines sh) = nat (shard_count sh) \<and>
    length (wals sh) = nat (shard_count sh) \<and> length (last_ingress_sequence sh) = nat (shard_count sh) \<and>
    (i < 0 \<or> shard_count sh \<le> i \<longrightarrow> replay_shard D i sh = Inl (OutOfRange ''invalid shard id'')) \<and>
    (n \<le> 0 \<longrightarrow> new_sharded n root ack limits disk = Inl (InvalidArgument ''shard_count must be positive''))"
proof -
  have wf: "wf_sharded sh" using shards.reachable_inv [OF assms] by (simp add: all_recoverable_def)
  with shard_in_range [OF wf, of symb] show ?thesis
    by (auto simp: wf_sharded_def replay_shard_def new_sharded_def)
qed

theorem shard_vectors_match_witness:
  "shard sample_sharded ''X'' < length (engines sample_sharded) \<and>
   replay_shard sample_doubles 2 sample_sharded = Inl (OutOfRange ''invalid shard id'')"
proof -
  have "reachable sharded_init (sharded_step sample_doubles) sample_sharded"
    by (rule reachable.reachable_init) (rule sample_sharded_init)
  from shard_vectors_match [OF this, of "''X''" 2] show ?thesis by (simp add: sample_sharded_def)
qed

section \<open>Shards are independent\<close>

text \<open>C38: Commands to different shards commute: executed in either order they give the same answers and the
  same state, because each touches the engine, log and ingress number of its own shard only. This is what
  lets one worker thread per shard run without locks.\<close>

theorem shards_commute:
  assumes "wf_sharded sh" "shard sh (command_symbol c) \<noteq> shard sh (command_symbol d)"
    and "execute D c i sh = Inr (out, sh1)" "execute D d j sh1 = Inr (out', sh2)"
  shows "\<exists>sh1'. execute D d j sh = Inr (out', sh1') \<and> execute D c i sh1' = Inr (out, sh2)"
  using assms by (rule execute_pair)

section \<open>Ingress order\<close>

lemma slice_checked_last:
  "slice_checked D limits c sl = Inr (out, sl') \<Longrightarrow> sl_last sl' = sl_last sl"
  by (cases c) (auto simp: slice_checked_def slice_run_def slice_log_def slice_reject_def rbind_eq_Inr split_beta
      split: option.splits)



theorem shards_commute_witness:
  "\<exists>c d out out' sh1 sh2. shard sample_sharded (command_symbol c) \<noteq> shard sample_sharded (command_symbol d) \<and>
     execute sample_doubles c None sample_sharded = Inr (out, sh1) \<and> execute sample_doubles d None sh1 = Inr (out', sh2) \<and>
     (\<exists>sh1'. execute sample_doubles d None sample_sharded = Inr (out', sh1') \<and> execute sample_doubles c None sh1' = Inr (out, sh2))"
proof -
  let ?c = "CCancel \<lparr>co_symbol = ''A'', co_order_id = 1\<rparr>" and ?d = "CCancel \<lparr>co_symbol = ''B'', co_order_id = 1\<rparr>"
  have ne: "shard sample_sharded (command_symbol ?c) \<noteq> shard sample_sharded (command_symbol ?d)"
    by (simp add: shard_def sample_sharded_def fnv_step_def)
  have ok: "\<exists>out sh'. execute sample_doubles c None sh = Inr (out, sh')"
    if "wf_sharded sh" "engines sh ! shard sh (command_symbol c) = empty_engine" "c = ?c \<or> c = ?d" for c sh
    using that
    by (auto simp: execute_local slice_execute_def slice_checked_def slice_run_def engine_execute_def
        engine_cancel_def engine_reject_def event_def slice_of_def Let_def)
  have empty: "engines sample_sharded ! shard sample_sharded symb = empty_engine" for symb
    using sample_slice [OF sample_shard, of symb] by (simp add: slice_of_def)
  from ok [OF sample_sharded_wf empty, of ?c] obtain out sh1 where
    one: "execute sample_doubles ?c None sample_sharded = Inr (out, sh1)" by auto
  have "engines sh1 ! shard sh1 (command_symbol ?d) = empty_engine"
    using one ne empty [of "''B''"] by (auto simp: execute_local [OF sample_sharded_wf refl] rbind_eq_Inr)
  from ok [OF execute_wf [OF sample_sharded_wf one] this] obtain out' sh2 where
    two: "execute sample_doubles ?d None sh1 = Inr (out', sh2)" by auto
  from shards_commute [OF sample_sharded_wf ne one two] ne one two show ?thesis by blast
qed

section \<open>Limits of recovery\<close>

lemma first_order_ids: "ids_inv (after_add first_order empty_engine)"
proof -
  have "fresh (engine_queue empty_engine) (ao_order_id first_order)" by (simp add: fresh_def engine_queue_def)
  then have "reachable engine_init fresh_step (after_add first_order empty_engine)"
    by (intro fresh_after_add reachable.reachable_init) (simp add: engine_init_def)
  then show ?thesis by (rule ids.reachable_inv)
qed

lemma first_order_fits:
  "fits_queues (engine_queue (after_add first_order empty_engine))" "fits_ll (engine_sequence (after_add first_order empty_engine))"
  "enumerates [''X''] (after_add first_order empty_engine)"
proof -
  have "fits_order (resting_of first_order 10 1)"
    by (simp add: fits_order_def resting_of_def first_order_def sample_order_def fits_ll_iff)
  then show "fits_queues (engine_queue (after_add first_order empty_engine))"
    by (simp add: fits_queues_def first_order_queue)
  show "fits_ll (engine_sequence (after_add first_order empty_engine))"
    "enumerates [''X''] (after_add first_order empty_engine)"
    by (auto simp: fits_ll_iff first_order_def sample_eval enumerates_def split: if_splits)
qed

text \<open>Adding the order a second time puts it in the queue a second time.\<close>

lemma first_order_twice:
  assumes "similar (after_add first_order empty_engine) base"
  shows "\<exists>e'. engine_execute (CAdd first_order) base = Inr e' \<and>
    cores (engine_queue (snd e')) ''X'' Sell = replicate 2 (order_core (resting_of first_order 10 1))"
proof -
  note p = similar_parts [OF assms]
  let ?e = "after_add first_order empty_engine"
  from engine_add_refines [OF p(2), of first_order] obtain out e' where
    a: "engine_add first_order base = Inr (out, e')" "spec_add first_order (view base) = (out, view e')" by blast
  from engine_add_refines [OF p(1), of first_order] obtain out1 e1 where
    b: "engine_add first_order ?e = Inr (out1, e1)" "spec_add first_order (view ?e) = (out1, view e1)" by blast
  have "cores (engine_queue e1) = cores (engine_queue e')"
    using spec_add_core [OF p(7), of first_order "forget ?e" "forget base"] a(2) b(2) by (simp add: view_pair)
  moreover have "cores (engine_queue e1) ''X'' Sell = replicate 2 (order_core (resting_of first_order 10 1))"
  proof -
    have "e1 = after_add first_order ?e" using b(1) by (simp add: after_add_def)
    then show ?thesis
      by (simp add: cores_def queue_core_def order_core_def resting_of_def first_order_def sample_eval engine_queue_def
          side_queue_def numeral_2_eq_2)
  qed
  ultimately show ?thesis using a(1) by (auto simp: engine_execute_def)
qed

text \<open>The limits of crash safety: between the rename of the snapshot and the truncation of the log, the new
  snapshot and the records it supersedes are both on disk. A restart in between (here: the log could not be
  reopened for truncation) replays the records on top of the snapshot, and an order that was added once
  rests twice.\<close>

theorem snapshot_crash_window:
  fixes D :: "'d doubles"
  defines "w \<equiv> wal_append D (command_record (CAdd first_order)) (sample_wal 0)"
  shows "(\<exists>e w1. rebuild D w = Inr (e, w1) \<and> similar (after_add first_order empty_engine) e) \<and>
    (\<exists>err w' e' w1. save_snapshot D \<lparr>tmp_opened = True, renamed = True, wal_reopened = False\<rparr>
        (snapshot [''X''] (after_add first_order empty_engine)) w = (Inl err, w') \<and>
      rebuild D (after_crash (length (wal_file w')) w') = Inr (e', w1) \<and>
      map (\<lambda>ord. (ro_order_id ord, ro_remaining ord)) (cores (engine_queue e') ''X'' Sell) = [(1, 10), (1, 10)])"
proof -
  let ?e = "after_add first_order empty_engine" and ?rec = "command_record (CAdd first_order) :: 'd json"
  let ?snap = "snapshot [''X''] ?e :: 'd json"
  let ?io = "\<lparr>tmp_opened = True, renamed = True, wal_reopened = False\<rparr>"
  have plain: "plain_json ?rec" by (rule plain_records(1) [OF first_order_facts(2)])
  have "wal_log D (sample_wal 0) [] []" by (simp add: wal_log_def sample_wal_def commit_batch_def)
  from wal_log_append [OF this plain] have log: "wal_log D w [] [?rec]" by (simp add: w_def commit_batch_def)
  have sim: "similar ?e ?e" using first_order_ids by (simp add: similar_def)
  have app: "apply_record D ?rec base = rbind (engine_execute (CAdd first_order) base) (\<lambda>r. Inr (snd r))" for base
    by (rule apply_command_record)
  have none: "base_engine D w = Inr empty_engine" by (simp add: base_engine_def read_snapshot_def w_def sample_wal_def)
  from first_order_added obtain out where "engine_add first_order empty_engine = Inr (out, ?e)" by blast
  then have first: "rebuild D w = Inr (?e, wal_flush w)"
    by (simp add: rebuild_eq [OF log] none app engine_execute_def del: command_record.simps)
  define w' where "w' = snd (save_snapshot D ?io ?snap w)"
  have save: "\<exists>err. save_snapshot D ?io ?snap w = (Inl err, w')" by (simp add: w'_def save_snapshot_def truncate_wal_def Let_def)
  let ?w = "after_crash (length (wal_file w')) w'"
  have w': "w' = (wal_flush w)\<lparr>snapshot_file := Some (dump_value D ?snap), wal_open := False\<rparr>"
    by (simp add: w'_def save_snapshot_def truncate_wal_def Let_def)
  have log': "wal_log D ?w [?rec] []"
    using wal_log_flush [OF log] by (simp add: w' after_crash_def wal_log_def)
  have "plain_json ?snap"
    using first_order_ids first_order_fits by (intro plain_snapshot) (simp_all add: ids_inv_def wf_engine_def)
  moreover from dump_hd [OF this] obtain c t where "dump_value D ?snap = c # t" by blast
  ultimately have "base_engine D ?w = load_snapshot D ?snap empty_engine"
    using parse_dump_plain [of ?snap D] by (simp add: base_engine_def read_snapshot_def w' after_crash_def)
  with load_snapshot_similar [OF first_order_ids first_order_fits(3), of D empty_engine] obtain base where
    base: "base_engine D ?w = Inr base" "similar ?e base" by auto
  from first_order_twice [OF base(2)] obtain e' where
    e': "engine_execute (CAdd first_order) base = Inr e'"
      "cores (engine_queue (snd e')) ''X'' Sell = replicate 2 (order_core (resting_of first_order 10 1))" by blast
  have again: "rebuild D ?w = Inr (snd e', wal_flush ?w)"
    by (simp add: rebuild_eq [OF log'] base(1) app e'(1) del: command_record.simps)
  have twice: "map (\<lambda>ord. (ro_order_id ord, ro_remaining ord)) (cores (engine_queue (snd e')) ''X'' Sell) = [(1, 10), (1, 10)]"
    using e'(2) by (simp add: resting_of_def first_order_def sample_order_def numeral_2_eq_2)
  obtain err where err: "save_snapshot D ?io ?snap w = (Inl err, w')" using save by blast
  show ?thesis
    by (intro conjI exI [of _ ?e] exI [of _ "wal_flush w"] exI [of _ err] exI [of _ w'] exI [of _ "snd e'"]
        exI [of _ "wal_flush ?w"]) (fact first sim err again twice)+
qed

text \<open>Restoring the running engines reads the snapshots only: engines restored from stores with the same
  snapshots are the same whatever their logs hold, so every command since the last snapshot is missing from
  them. Only \<open>replay_shard\<close> reads the log, into an engine of its own.\<close>

theorem restore_ignores_logs:
  assumes "map snapshot_file (wals sh) = map snapshot_file ws" "restore_from_snapshots D sh = Inr sh1"
    and len: "length (engines sh) = length (wals sh)"
  shows "\<exists>sh2. restore_from_snapshots D (sh\<lparr>wals := ws\<rparr>) = Inr sh2 \<and> engines sh2 = engines sh1"
proof -
  have step: "restore_shard D i (sh\<lparr>wals := ws\<rparr>) = rbind (restore_shard D i sh) (\<lambda>t. Inr (t\<lparr>wals := ws\<rparr>))"
    if "i < length (wals sh)" "map snapshot_file (wals sh) = map snapshot_file ws" for i sh
  proof -
    have "snapshot_file (ws ! i) = snapshot_file (wals sh ! i)" using that by (metis length_map nth_map)
    then have "read_snapshot D (ws ! i) = read_snapshot D (wals sh ! i)" by (simp add: read_snapshot_def)
    moreover have "put_engine i e (sh\<lparr>wals := ws\<rparr>) = (put_engine i e sh)\<lparr>wals := ws\<rparr>" for e
      by (simp add: put_engine_def)
    ultimately show ?thesis
      by (cases "read_snapshot D (wals sh ! i)")
        (auto simp: restore_shard_def rbind_assoc split: option.splits)
  qed
  have frame: "wals t = wals sh" if "restore_shard D i sh = Inr t" for i sh t
    using that by (auto simp: restore_shard_def rbind_eq_Inr put_engine_def split: option.splits)
  have "rfold (restore_shard D) is (sh\<lparr>wals := ws\<rparr>) = rbind (rfold (restore_shard D) is sh) (\<lambda>t. Inr (t\<lparr>wals := ws\<rparr>))"
    if "set is \<subseteq> {..<length (wals sh)}" "map snapshot_file (wals sh) = map snapshot_file ws" for "is" sh
    using that
  proof (induction "is" arbitrary: sh)
    case Nil
    then show ?case by simp
  next
    case (Cons i "is")
    have "restore_shard D i (sh\<lparr>wals := ws\<rparr>) = rbind (restore_shard D i sh) (\<lambda>t. Inr (t\<lparr>wals := ws\<rparr>))"
      using Cons.prems by (intro step) auto
    with Cons frame [of i sh] show ?case by (cases "restore_shard D i sh") auto
  qed
  from this [OF _ assms(1), of "[0..<length (engines sh)]"] len
  have "restore_from_snapshots D (sh\<lparr>wals := ws\<rparr>) = rbind (restore_from_snapshots D sh) (\<lambda>t. Inr (t\<lparr>wals := ws\<rparr>))"
    by (simp add: restore_from_snapshots_def atLeast0LessThan)
  with assms(2) show ?thesis by simp
qed

text \<open>A recovered engine may number its events anew: a rejected order takes an event number and is logged,
  but its record changes nothing on replay.\<close>

theorem recovered_numbers_repeat:
  "\<exists>cmd out sh1 e sh2. execute D (CAdd cmd) None sample_sharded = Inr (out, sh1) \<and> map ev_sequence (fst out) = [1] \<and>
     replay_shard D (int (shard sample_sharded (ao_symbol cmd))) sh1 = Inr (e, sh2) \<and> next_sequence e = 1"
proof -
  let ?cmd = "first_order\<lparr>ao_quantity := 0\<rparr>"
  let ?s = "shard sample_sharded ''X''" and ?rec = "reject_record ?cmd ''RISK_QTY_NON_POSITIVE''"
  let ?rej = "engine_reject ''X'' 1 ''RISK_QTY_NON_POSITIVE'' empty_engine"
  have cmd: "ao_symbol ?cmd = ''X''" "ao_order_id ?cmd = 1" by (simp_all add: first_order_def sample_order_def)
  have sl: "slice_of sample_sharded ?s = \<lparr>sl_engine = empty_engine, sl_wal = sample_wal (int ?s), sl_last = 0\<rparr>"
    by (rule sample_slice [OF sample_shard])
  let ?sl = "\<lparr>sl_engine = snd ?rej, sl_wal = wal_append D ?rec (sample_wal (int ?s)), sl_last = 0\<rparr>"
  have "slice_execute D (risk sample_sharded) (CAdd ?cmd) None (slice_of sample_sharded ?s) = Inr (([fst ?rej], []), ?sl)"
    by (simp add: slice_execute_def slice_checked_def check_add_def sl slice_reject_def slice_log_def cmd split_beta)
  then have run: "execute D (CAdd ?cmd) None sample_sharded = Inr (([fst ?rej], []), put_slice ?s ?sl sample_sharded)"
    by (simp add: execute_local [OF sample_sharded_wf refl] cmd)
  have num: "ev_sequence (fst ?rej) = 1" by (simp add: engine_reject_def)
  have "wal_log D (sample_wal (int ?s)) [] []" by (simp add: wal_log_def sample_wal_def commit_batch_def)
  moreover have "plain_json ?rec"
    by (rule plain_records(2)) (simp add: first_order_def sample_order_def fits_ll_iff)
  ultimately have log: "wal_log D (wal_append D ?rec (sample_wal (int ?s))) [] [?rec]"
    using wal_log_append [of D "sample_wal (int ?s)" "[]" "[]" ?rec] by (simp add: commit_batch_def)
  have "base_engine D (wal_append D ?rec (sample_wal (int ?s))) = Inr empty_engine"
    by (simp add: base_engine_def read_snapshot_def sample_wal_def)
  then have "rebuild D (wal_append D ?rec (sample_wal (int ?s))) =
      Inr (empty_engine, wal_flush (wal_append D ?rec (sample_wal (int ?s))))"
    by (simp add: rebuild_eq [OF log] apply_reject_record)
  moreover have "wals (put_slice ?s ?sl sample_sharded) ! ?s = wal_append D ?rec (sample_wal (int ?s))"
  proof -
    have "?s < length (wals sample_sharded)" using sample_shard [of "''X''"] by (simp add: sample_sharded_def)
    then show ?thesis by simp
  qed
  moreover have "int ?s < shard_count (put_slice ?s ?sl sample_sharded)"
    using sample_shard [of "''X''"] by (simp add: sample_sharded_def)
  ultimately have "\<exists>sh2. replay_shard D (int ?s) (put_slice ?s ?sl sample_sharded) = Inr (empty_engine, sh2)"
    by (simp add: replay_shard_def)
  with run num cmd show ?thesis by (fastforce simp: next_sequence_def)
qed

section \<open>Risk limits\<close>

text \<open>\<open>replace\<close> never consults the risk limits: whatever they are, it gives the same answer and the same books. A
  resting order within the limits can be replaced by one of any price and quantity.\<close>

lemma replace_ignores_limits:
  "sharded_replace D cmd ingress (sh\<lparr>risk := l\<rparr>) =
     rbind (sharded_replace D cmd ingress sh) (\<lambda>(out, sh'). Inr (out, sh'\<lparr>risk := l\<rparr>))"
proof -
  have shard: "shard (sh\<lparr>risk := l\<rparr>) s = shard sh s" for s by (simp add: shard_def)
  show ?thesis
    by (cases ingress) (auto simp: sharded_replace_def validate_ingress_def shard log_append_def put_engine_def engine_reject_def
      rbind_assoc split_beta Let_def intro!: rbind_cong split: sum.splits)
qed

end
