(* ===== verification/Threaded.thy ===== *)
theory Threaded
  imports Sharded_Slices Spsc_Queue "HOL-Library.Sublist"
begin

text \<open>
  The multi-threaded front end of \<open>include/threaded_engine.hpp\<close>: a producer thread submits commands, one
  worker per shard executes them, a consumer thread drains the results.

  The threads are one transition system. Each \<open>push\<close> and \<open>pop\<close> of a queue is one step (the theory
  \<open>Spsc_Concurrent\<close> justifies this for one producer and one consumer), and so is the execution of a
  command, which concerns the shard of its symbol only (\<open>Sharded_Slices\<close>). A \<open>lane\<close> groups the entries of
  \<open>inbound_\<close>, \<open>outbound_\<close> and \<open>workers_\<close> with the same index.

  \<open>push\<close> takes its argument by value, so \<open>push(std::move(msg))\<close> moves from \<open>msg\<close> even when it returns
  \<open>false\<close>; the retry loops then push what the move has left. What that is, the library decides: \<open>mv\<close> and
  \<open>rv\<close> give it for commands and for results. The fields named \<open>gh_\<close> record the history and are read by no
  step.
\<close>

record command_msg =
  cm_command :: command
  cm_ingress :: "int option"
  cm_correlation :: "64 word"

record result_msg =
  rm_correlation :: "64 word"
  rm_events :: "exec_event list"
  rm_trades :: "trade list"

text \<open>Where a worker is in \<open>run_worker\<close>: at the head of its loop, with a command taken from the queue, or
  with a result to push. \<open>Exited\<close> also stands for a thread that has not been started.\<close>

datatype worker = Polling | Executing command_msg | Publishing result_msg | Exited

record lane =
  in_q :: "command_msg spsc"
  out_q :: "result_msg spsc"
  lane_worker :: worker
  gh_asked :: "command_msg list"
  gh_handled :: "command_msg list"
  gh_results :: "result_msg list"
  gh_drained :: "result_msg list"
  gh_dropped :: bool
  gh_start :: slice

record threaded =
  th_engine :: sharded
  lanes :: "lane list"
  running :: bool
  next_correlation :: "64 word"
  submitting :: "(nat \<times> command_msg) option"
  gh_retried :: bool

section \<open>The constructor\<close>

definition new_lane :: "command_msg \<Rightarrow> result_msg \<Rightarrow> 64 word \<Rightarrow> slice \<Rightarrow> lane option" where
  "new_lane cm rm capacity sl =
     (case (new_spsc cm capacity, new_spsc rm capacity) of
        (Some qi, Some qo) \<Rightarrow>
          Some \<lparr>in_q = qi, out_q = qo, lane_worker = Exited, gh_asked = [], gh_handled = [], gh_results = [],
                gh_drained = [], gh_dropped = False, gh_start = sl\<rparr>
      | _ \<Rightarrow> None)"

text \<open>\<open>cm\<close> and \<open>rm\<close> are the value-initialised messages of the slots; \<open>None\<close> when the capacity cannot be
  rounded up to a power of two.\<close>

definition new_threaded :: "command_msg \<Rightarrow> result_msg \<Rightarrow> 64 word \<Rightarrow> sharded \<Rightarrow> threaded option" where
  "new_threaded cm rm capacity sh =
     (let ls = map (\<lambda>i. new_lane cm rm capacity (slice_of sh i)) [0..<nat (shard_count sh)]
      in if None \<in> set ls then None
         else Some \<lparr>th_engine = sh, lanes = map the ls, running = False, next_correlation = 0,
                    submitting = None, gh_retried = False\<rparr>)"

section \<open>Starting and stopping\<close>

definition map_workers :: "(worker \<Rightarrow> worker) \<Rightarrow> threaded \<Rightarrow> threaded" where
  "map_workers f t = t\<lparr>lanes := map (\<lambda>l. l\<lparr>lane_worker := f (lane_worker l)\<rparr>) (lanes t)\<rparr>"

definition start_engine :: "threaded \<Rightarrow> threaded" where
  "start_engine t = (if running t then t else map_workers (\<lambda>_. Polling) (t\<lparr>running := True\<rparr>))"

text \<open>\<open>stop\<close> clears the flag and then waits until every worker has left its loop.\<close>

definition stop_request :: "threaded \<Rightarrow> threaded" where
  "stop_request t = t\<lparr>running := False\<rparr>"

definition workers_joined :: "threaded \<Rightarrow> bool" where
  "workers_joined t \<longleftrightarrow> (\<forall>l \<in> set (lanes t). lane_worker l = Exited)"

section \<open>The producer\<close>

definition shard_of :: "threaded \<Rightarrow> command \<Rightarrow> nat" where
  "shard_of t c = shard (th_engine t) (command_symbol c)"

definition set_lane :: "nat \<Rightarrow> lane \<Rightarrow> threaded \<Rightarrow> threaded" where
  "set_lane i l t = t\<lparr>lanes := (lanes t)[i := l]\<rparr>"

text \<open>\<open>submit\<close> up to its loop.\<close>

definition submit_begin :: "command \<Rightarrow> int option \<Rightarrow> threaded \<Rightarrow> threaded" where
  "submit_begin c ingress t =
     (let n = next_correlation t + 1; s = shard_of t c;
          msg = \<lparr>cm_command = c, cm_ingress = ingress, cm_correlation = n\<rparr>; l = lanes t ! s
      in set_lane s (l\<lparr>gh_asked := gh_asked l @ [msg]\<rparr>) (t\<lparr>next_correlation := n, submitting := Some (s, msg)\<rparr>))"

text \<open>One round of the loop of \<open>submit\<close>.\<close>

definition submit_push :: "(command_msg \<Rightarrow> command_msg) \<Rightarrow> threaded \<Rightarrow> threaded result" where
  "submit_push mv t =
     (case submitting t of
        None \<Rightarrow> Inr t
      | Some (s, msg) \<Rightarrow>
          rbind (spsc_push msg (in_q (lanes t ! s))) (\<lambda>(ok, q).
            Inr (if ok then set_lane s ((lanes t ! s)\<lparr>in_q := q\<rparr>) (t\<lparr>submitting := None\<rparr>)
                 else t\<lparr>submitting := Some (s, mv msg), gh_retried := True\<rparr>)))"

section \<open>The workers\<close>

definition worker_poll :: "nat \<Rightarrow> threaded \<Rightarrow> threaded result" where
  "worker_poll i t =
     (let l = lanes t ! i
      in if \<not> running t then Inr (set_lane i (l\<lparr>lane_worker := Exited\<rparr>) t)
         else rbind (spsc_pop (in_q l)) (\<lambda>(m, q).
           case m of
             None \<Rightarrow> Inr t
           | Some msg \<Rightarrow> Inr (set_lane i (l\<lparr>in_q := q, lane_worker := Executing msg\<rparr>) t)))"

definition worker_execute :: "'d doubles \<Rightarrow> nat \<Rightarrow> command_msg \<Rightarrow> threaded \<Rightarrow> threaded result" where
  "worker_execute D i msg t =
     (let l = lanes t ! i
      in rbind (execute D (cm_command msg) (cm_ingress msg) (th_engine t)) (\<lambda>(out, sh).
        let res = \<lparr>rm_correlation = cm_correlation msg, rm_events = fst out, rm_trades = snd out\<rparr>
        in Inr (set_lane i (l\<lparr>lane_worker := Publishing res, gh_handled := gh_handled l @ [msg],
                              gh_results := gh_results l @ [res]\<rparr>) (t\<lparr>th_engine := sh\<rparr>))))"

definition worker_publish :: "(result_msg \<Rightarrow> result_msg) \<Rightarrow> nat \<Rightarrow> result_msg \<Rightarrow> threaded \<Rightarrow> threaded result" where
  "worker_publish rv i res t =
     (let l = lanes t ! i
      in if \<not> running t then Inr (set_lane i (l\<lparr>lane_worker := Polling, gh_dropped := True\<rparr>) t)
         else rbind (spsc_push res (out_q l)) (\<lambda>(ok, q).
           Inr (if ok then set_lane i (l\<lparr>out_q := q, lane_worker := Polling\<rparr>) t
                else set_lane i (l\<lparr>lane_worker := Publishing (rv res)\<rparr>) (t\<lparr>gh_retried := True\<rparr>))))"

section \<open>The consumer\<close>

text \<open>One \<open>pop\<close> of \<open>drain\<close> from the queue of shard \<open>i\<close>.\<close>

definition drain_pop :: "nat \<Rightarrow> threaded \<Rightarrow> threaded result" where
  "drain_pop i t =
     (let l = lanes t ! i
      in rbind (spsc_pop (out_q l)) (\<lambda>(m, q).
        case m of
          None \<Rightarrow> Inr t
        | Some res \<Rightarrow> Inr (set_lane i (l\<lparr>out_q := q, gh_drained := gh_drained l @ [res]\<rparr>) t)))"

text \<open>\<open>drain\<close> on queues no worker is pushing to: the inner loop with fuel, and the loop over the queues. A
  queue holds at most as many elements as it has slots, so one round more than that is enough
  (\<open>drain_all\<close>).\<close>

fun drain_queue :: "nat \<Rightarrow> 'a spsc \<Rightarrow> 'a list \<Rightarrow> ('a list \<times> 'a spsc) result" where
  "drain_queue 0 q out = Inl OutOfFuel"
| "drain_queue (Suc n) q out =
     rbind (spsc_pop q) (\<lambda>(m, q1). case m of None \<Rightarrow> Inr (out, q1) | Some x \<Rightarrow> drain_queue n q1 (out @ [x]))"

fun drain :: "'a spsc list \<Rightarrow> 'a list \<Rightarrow> ('a list \<times> 'a spsc list) result" where
  "drain [] out = Inr (out, [])"
| "drain (q # qs) out =
     rbind (drain_queue (Suc (length (slots q))) q out) (\<lambda>(out1, q1).
     rbind (drain qs out1) (\<lambda>(out2, qs1). Inr (out2, q1 # qs1)))"

section \<open>All threads\<close>

inductive threaded_step ::
    "'d doubles \<Rightarrow> (command_msg \<Rightarrow> command_msg) \<Rightarrow> (result_msg \<Rightarrow> result_msg) \<Rightarrow> threaded \<Rightarrow> threaded \<Rightarrow> bool"
  for D mv rv where
  step_start: "workers_joined t \<Longrightarrow> threaded_step D mv rv t (start_engine t)"
| step_stop: "threaded_step D mv rv t (stop_request t)"
| step_submit: "submitting t = None \<Longrightarrow> threaded_step D mv rv t (submit_begin c ingress t)"
| step_push: "submit_push mv t = Inr t' \<Longrightarrow> threaded_step D mv rv t t'"
| step_poll: "i < length (lanes t) \<Longrightarrow> lane_worker (lanes t ! i) = Polling \<Longrightarrow> worker_poll i t = Inr t' \<Longrightarrow>
    threaded_step D mv rv t t'"
| step_execute: "i < length (lanes t) \<Longrightarrow> lane_worker (lanes t ! i) = Executing msg \<Longrightarrow>
    worker_execute D i msg t = Inr t' \<Longrightarrow> threaded_step D mv rv t t'"
| step_publish: "i < length (lanes t) \<Longrightarrow> lane_worker (lanes t ! i) = Publishing res \<Longrightarrow>
    worker_publish rv i res t = Inr t' \<Longrightarrow> threaded_step D mv rv t t'"
| step_drain: "i < length (lanes t) \<Longrightarrow> drain_pop i t = Inr t' \<Longrightarrow> threaded_step D mv rv t t'"

text \<open>The constructor of the front end constructs the sharded engine first.\<close>

definition threaded_init :: "threaded \<Rightarrow> bool" where
  "threaded_init t \<longleftrightarrow> (\<exists>cm rm capacity n root ack limits disk sh. n < 2 ^ 31 \<and>
     new_sharded n root ack limits disk = Inr sh \<and> new_threaded cm rm capacity sh = Some t)"

end
