(* ===== verification/Threaded_Properties.thy ===== *)
theory Threaded_Properties
  imports Threaded Recovery_Properties
begin

text \<open>
  The steps of the pipeline, one by one: what each did when it returned (\<open>submit_push_cases\<close> and so on), that
  all keep the state well formed, and that per shard correlation ids come out in the order their commands
  went in, none lost and none twice, under every scheduling (\<open>ids_flow\<close>).
\<close>

section \<open>Queues\<close>

lemma spsc_push_cases:
  assumes "ring_ok q" "spsc_push x q = Inr (ok, q')"
  shows "ring_ok q'" "length (slots q') = length (slots q)" "ok \<longleftrightarrow> ring_count q < length (slots q)"
    "ring_contents q' = (if ok then ring_contents q @ [x] else ring_contents q)"
  using ring.push_law [OF assms(1), of x] assms(2) by auto

lemma spsc_pop_cases:
  assumes "ring_ok q" "spsc_pop q = Inr (m, q')"
  shows "ring_ok q'" "length (slots q') = length (slots q)" "m = None \<Longrightarrow> ring_contents q = []"
    "m = Some x \<Longrightarrow> ring_contents q = x # ring_contents q'"
  using ring.pop_law [OF assms(1)] assms(2) by (auto split: list.splits)

lemma spsc_push_full:
  assumes "ring_ok q" "spsc_push x q = Inr (False, q')"
  shows "ring_contents q \<noteq> []"
proof -
  from assms(1) have "0 < length (slots q)" by (auto simp: ring_ok_def ring_bits_def)
  with ring.push_law [OF assms(1), of x] assms(2) ring_contents_length [of q] show ?thesis
    by (auto simp del: ring_contents_length)
qed

section \<open>Structure\<close>

definition wf_lane :: "lane \<Rightarrow> bool" where
  "wf_lane l \<longleftrightarrow> ring_ok (in_q l) \<and> ring_ok (out_q l)"

definition wf_threaded :: "threaded \<Rightarrow> bool" where
  "wf_threaded t \<longleftrightarrow> wf_sharded (th_engine t) \<and> length (lanes t) = nat (shard_count (th_engine t)) \<and>
     (\<forall>l \<in> set (lanes t). wf_lane l) \<and> (\<forall>s msg. submitting t = Some (s, msg) \<longrightarrow> s < length (lanes t))"

lemma set_lane_simps [simp]:
  "th_engine (set_lane i l t) = th_engine t" "running (set_lane i l t) = running t"
  "submitting (set_lane i l t) = submitting t" "gh_retried (set_lane i l t) = gh_retried t"
  "length (lanes (set_lane i l t)) = length (lanes t)"
  "i < length (lanes t) \<Longrightarrow> lanes (set_lane i l t) ! j = (if j = i then l else lanes t ! j)"
  by (simp_all add: set_lane_def)

lemma wf_lane_nth: "wf_threaded t \<Longrightarrow> i < length (lanes t) \<Longrightarrow> wf_lane (lanes t ! i)"
  by (simp add: wf_threaded_def)

lemma wf_lane_rings: "wf_threaded t \<Longrightarrow> i < length (lanes t) \<Longrightarrow> ring_ok (in_q (lanes t ! i)) \<and> ring_ok (out_q (lanes t ! i))"
  using wf_lane_nth by (simp add: wf_lane_def)

lemma set_lane_wf:
  assumes "wf_threaded t" "wf_lane l"
  shows "\<forall>x \<in> set (lanes (set_lane i l t)). wf_lane x"
  using assms set_update_subset_insert [of "lanes t" i l] by (auto simp: set_lane_def wf_threaded_def)

lemma shard_of_in_range: "wf_threaded t \<Longrightarrow> shard_of t c < length (lanes t)"
  using shard_in_range by (simp add: wf_threaded_def shard_of_def)

text \<open>How each operation that returned came about.\<close>

lemma submit_push_cases:
  assumes "wf_threaded t" "submit_push mv t = Inr t'"
  obtains "submitting t = None" "t' = t"
  | s msg q where "submitting t = Some (s, msg)" "s < length (lanes t)" "ring_ok q"
      "ring_contents q = ring_contents (in_q (lanes t ! s)) @ [msg]"
      "t' = set_lane s ((lanes t ! s)\<lparr>in_q := q\<rparr>) (t\<lparr>submitting := None\<rparr>)"
  | s msg where "submitting t = Some (s, msg)" "s < length (lanes t)" "ring_contents (in_q (lanes t ! s)) \<noteq> []"
      "t' = t\<lparr>submitting := Some (s, mv msg), gh_retried := True\<rparr>"
proof (cases "submitting t")
  case None
  show ?thesis by (rule that(1)) (use None assms(2) in \<open>simp_all add: submit_push_def\<close>)
next
  case (Some sm)
  obtain s msg where sm: "sm = (s, msg)" by (cases sm)
  have s: "s < length (lanes t)" using assms(1) Some sm by (auto simp: wf_threaded_def)
  have ok: "ring_ok (in_q (lanes t ! s))" using wf_lane_rings [OF assms(1) s] by blast
  from ring.push_law [OF this, of msg] obtain ok q where run: "spsc_push msg (in_q (lanes t ! s)) = Inr (ok, q)" by blast
  with assms(2) Some sm have push: "spsc_push msg (in_q (lanes t ! s)) = Inr (ok, q)"
    "t' = (if ok then set_lane s ((lanes t ! s)\<lparr>in_q := q\<rparr>) (t\<lparr>submitting := None\<rparr>)
      else t\<lparr>submitting := Some (s, mv msg), gh_retried := True\<rparr>)"
    by (simp_all add: submit_push_def)
  have "ring_ok (in_q (lanes t ! s))" using wf_lane_rings [OF assms(1) s] by blast
  note q = spsc_push_cases [OF this push(1)]
  show ?thesis
  proof (cases ok)
    case True
    show ?thesis by (rule that(2) [of s msg q]) (use q push(2) True Some sm s in simp_all)
  next
    case False
    with push(1) spsc_push_full [OF \<open>ring_ok (in_q (lanes t ! s))\<close>] have full: "ring_contents (in_q (lanes t ! s)) \<noteq> []" by simp
    show ?thesis by (rule that(3) [of s msg]) (use full push(2) False Some sm s in simp_all)
  qed
qed

lemma worker_poll_cases:
  assumes "wf_threaded t" "i < length (lanes t)" "worker_poll i t = Inr t'"
  obtains "\<not> running t" "t' = set_lane i ((lanes t ! i)\<lparr>lane_worker := Exited\<rparr>) t"
  | "running t" "ring_contents (in_q (lanes t ! i)) = []" "t' = t"
  | msg q where "running t" "ring_ok q" "ring_contents (in_q (lanes t ! i)) = msg # ring_contents q"
      "t' = set_lane i ((lanes t ! i)\<lparr>in_q := q, lane_worker := Executing msg\<rparr>) t"
proof (cases "running t")
  case False
  show ?thesis by (rule that(1)) (use False assms(3) in \<open>simp_all add: worker_poll_def\<close>)
next
  case True
  with assms(3) obtain m q where pop: "spsc_pop (in_q (lanes t ! i)) = Inr (m, q)"
    "(case m of None \<Rightarrow> Inr t | Some msg \<Rightarrow> Inr (set_lane i ((lanes t ! i)\<lparr>in_q := q, lane_worker := Executing msg\<rparr>) t)) = (Inr t' :: threaded result)"
    by (auto simp: worker_poll_def rbind_eq_Inr Let_def)
  have "ring_ok (in_q (lanes t ! i))" using wf_lane_rings [OF assms(1,2)] by blast
  note q = spsc_pop_cases [OF this pop(1)]
  show ?thesis
  proof (cases m)
    case None
    show ?thesis by (rule that(2)) (use q(3) pop(2) True None in simp_all)
  next
    case (Some msg)
    show ?thesis by (rule that(3) [of q msg]) (use q(1) q(4) [OF Some] pop(2) True Some in simp_all)
  qed
qed

lemma worker_publish_cases:
  assumes "wf_threaded t" "i < length (lanes t)" "worker_publish rv i res t = Inr t'"
  obtains "\<not> running t" "t' = set_lane i ((lanes t ! i)\<lparr>lane_worker := Polling, gh_dropped := True\<rparr>) t"
  | q where "running t" "ring_ok q" "ring_contents q = ring_contents (out_q (lanes t ! i)) @ [res]"
      "t' = set_lane i ((lanes t ! i)\<lparr>out_q := q, lane_worker := Polling\<rparr>) t"
  | "running t" "ring_contents (out_q (lanes t ! i)) \<noteq> []"
      "t' = set_lane i ((lanes t ! i)\<lparr>lane_worker := Publishing (rv res)\<rparr>) (t\<lparr>gh_retried := True\<rparr>)"
proof (cases "running t")
  case False
  show ?thesis by (rule that(1)) (use False assms(3) in \<open>simp_all add: worker_publish_def\<close>)
next
  case True
  with assms(3) obtain ok q where push: "spsc_push res (out_q (lanes t ! i)) = Inr (ok, q)"
    "t' = (if ok then set_lane i ((lanes t ! i)\<lparr>out_q := q, lane_worker := Polling\<rparr>) t
      else set_lane i ((lanes t ! i)\<lparr>lane_worker := Publishing (rv res)\<rparr>) (t\<lparr>gh_retried := True\<rparr>))"
    by (auto simp: worker_publish_def rbind_eq_Inr Let_def)
  have "ring_ok (out_q (lanes t ! i))" using wf_lane_rings [OF assms(1,2)] by blast
  note q = spsc_push_cases [OF this push(1)]
  show ?thesis
  proof (cases ok)
    case ok: True
    show ?thesis by (rule that(2) [of q]) (use q push(2) True ok in simp_all)
  next
    case False
    with push(1) spsc_push_full [OF \<open>ring_ok (out_q (lanes t ! i))\<close>] have full: "ring_contents (out_q (lanes t ! i)) \<noteq> []" by simp
    show ?thesis by (rule that(3)) (use full push(2) False True in simp_all)
  qed
qed

lemma drain_pop_cases:
  assumes "wf_threaded t" "i < length (lanes t)" "drain_pop i t = Inr t'"
  obtains "ring_contents (out_q (lanes t ! i)) = []" "t' = t"
  | res q where "ring_ok q" "ring_contents (out_q (lanes t ! i)) = res # ring_contents q"
      "t' = set_lane i ((lanes t ! i)\<lparr>out_q := q, gh_drained := gh_drained (lanes t ! i) @ [res]\<rparr>) t"
proof -
  from assms(3) obtain m q where pop: "spsc_pop (out_q (lanes t ! i)) = Inr (m, q)"
    "(case m of None \<Rightarrow> Inr t | Some res \<Rightarrow> Inr (set_lane i ((lanes t ! i)\<lparr>out_q := q,
       gh_drained := gh_drained (lanes t ! i) @ [res]\<rparr>) t)) = (Inr t' :: threaded result)"
    by (auto simp: drain_pop_def rbind_eq_Inr Let_def)
  have "ring_ok (out_q (lanes t ! i))" using wf_lane_rings [OF assms(1,2)] by blast
  note q = spsc_pop_cases [OF this pop(1)]
  show ?thesis
  proof (cases m)
    case None
    show ?thesis by (rule that(1)) (use q(3) pop(2) None in simp_all)
  next
    case (Some res)
    show ?thesis by (rule that(2) [of q res]) (use q(1) q(4) [OF Some] pop(2) Some in simp_all)
  qed
qed

lemma worker_execute_cases:
  assumes "worker_execute D i msg t = Inr t'"
  obtains out sh res where "execute D (cm_command msg) (cm_ingress msg) (th_engine t) = Inr (out, sh)"
    "res = \<lparr>rm_correlation = cm_correlation msg, rm_events = fst out, rm_trades = snd out\<rparr>"
    "t' = set_lane i ((lanes t ! i)\<lparr>lane_worker := Publishing res, gh_handled := gh_handled (lanes t ! i) @ [msg],
      gh_results := gh_results (lanes t ! i) @ [res]\<rparr>) (t\<lparr>th_engine := sh\<rparr>)"
  using assms that by (auto simp: worker_execute_def rbind_eq_Inr Let_def)

lemma threaded_step_wf:
  assumes wf: "wf_threaded t" and "threaded_step D mv rv t t'"
  shows "wf_threaded t'"
proof -
  have lane: "wf_threaded (set_lane i l t')" if "wf_threaded t'" "wf_lane l" for i l t'
    using set_lane_wf [OF that] that(1) by (auto simp: wf_threaded_def)
  have engine: "wf_threaded (t\<lparr>th_engine := sh\<rparr>)"
    if "wf_sharded sh" "shard_count sh = shard_count (th_engine t)" for sh
    using wf that by (auto simp: wf_threaded_def)
  have busy: "wf_threaded (t\<lparr>submitting := x, gh_retried := r, next_correlation := n\<rparr>)" if "\<forall>s msg. x = Some (s, msg) \<longrightarrow> s < length (lanes t)" for x r n
    using wf that by (simp add: wf_threaded_def)
  note rings = wf_lane_rings [OF wf]
  from assms(2) show ?thesis
  proof cases
    case step_start
    with wf show ?thesis by (auto simp: start_engine_def map_workers_def wf_threaded_def wf_lane_def)
  next
    case step_stop
    with wf show ?thesis by (auto simp: stop_request_def wf_threaded_def)
  next
    case (step_submit c ingress)
    let ?msg = "\<lparr>cm_command = c, cm_ingress = ingress, cm_correlation = next_correlation t + 1\<rparr>"
    have "wf_threaded (t\<lparr>submitting := Some (shard_of t c, ?msg), gh_retried := gh_retried t, next_correlation := next_correlation t + 1\<rparr>)"
      by (rule busy) (use shard_of_in_range [OF wf] in simp)
    then have "wf_threaded (t\<lparr>next_correlation := next_correlation t + 1, submitting := Some (shard_of t c, ?msg)\<rparr>)"
      by (simp add: wf_threaded_def)
    with lane [OF this] rings [OF shard_of_in_range [OF wf, of c]] step_submit show ?thesis
      by (simp add: submit_begin_def Let_def wf_lane_def)
  next
    case step_push
    from wf step_push show ?thesis
    proof (cases rule: submit_push_cases)
      case (2 s msg q)
      have "wf_threaded (t\<lparr>submitting := None\<rparr>)" using wf by (simp add: wf_threaded_def)
      with lane [OF this] rings [OF 2(2)] 2 show ?thesis by (simp add: wf_lane_def)
    qed (use wf in \<open>auto simp: wf_threaded_def\<close>)
  next
    case (step_poll i)
    from wf step_poll(1,3) show ?thesis
      by (cases rule: worker_poll_cases) (use lane [OF wf] rings [OF step_poll(1)] wf in \<open>auto simp: wf_lane_def\<close>)
  next
    case (step_execute i msg)
    from step_execute(3) obtain out sh res where
      sh: "execute D (cm_command msg) (cm_ingress msg) (th_engine t) = Inr (out, sh)"
      and t': "t' = set_lane i ((lanes t ! i)\<lparr>lane_worker := Publishing res, gh_handled := gh_handled (lanes t ! i) @ [msg],
        gh_results := gh_results (lanes t ! i) @ [res]\<rparr>) (t\<lparr>th_engine := sh\<rparr>)"
      by (rule worker_execute_cases)
    have eng: "wf_sharded (th_engine t)" using wf by (simp add: wf_threaded_def)
    have "shard_count sh = shard_count (th_engine t)"
      using sh by (auto simp: execute_local [OF eng refl] rbind_eq_Inr)
    with lane [OF engine [OF execute_wf [OF eng sh]]] rings [OF step_execute(1)] show ?thesis
      by (simp add: t' wf_lane_def)
  next
    case (step_publish i res)
    have retried: "wf_threaded (t\<lparr>gh_retried := True\<rparr>)" using wf by (auto simp: wf_threaded_def)
    from wf step_publish(1,3) show ?thesis
      by (cases rule: worker_publish_cases)
        (use lane [OF wf] lane [OF retried] rings [OF step_publish(1)] wf in \<open>auto simp: wf_lane_def\<close>)
  next
    case (step_drain i)
    from wf step_drain show ?thesis
      by (cases rule: drain_pop_cases) (use lane [OF wf] rings [OF step_drain(1)] wf in \<open>auto simp: wf_lane_def\<close>)
  qed
qed

section \<open>Correlation ids\<close>

definition keeps_ids :: "(command_msg \<Rightarrow> command_msg) \<Rightarrow> (result_msg \<Rightarrow> result_msg) \<Rightarrow> bool" where
  "keeps_ids mv rv \<longleftrightarrow> (\<forall>m. cm_correlation (mv m) = cm_correlation m) \<and> (\<forall>r. rm_correlation (rv r) = rm_correlation r)"

fun worker_ids :: "worker \<Rightarrow> 64 word list" where
  "worker_ids (Executing m) = [cm_correlation m]"
| "worker_ids (Publishing r) = [rm_correlation r]"
| "worker_ids w = []"

definition pending_msgs :: "threaded \<Rightarrow> nat \<Rightarrow> command_msg list" where
  "pending_msgs t i = (case submitting t of None \<Rightarrow> [] | Some (s, msg) \<Rightarrow> if s = i then [msg] else [])"

text \<open>All ids of a lane, from the oldest on: drained, in the outbound queue, at the worker, in the inbound
  queue, and still with the producer.\<close>

definition lane_ids :: "lane \<Rightarrow> command_msg list \<Rightarrow> 64 word list" where
  "lane_ids l pend = map rm_correlation (gh_drained l @ ring_contents (out_q l)) @ worker_ids (lane_worker l) @
     map cm_correlation (ring_contents (in_q l) @ pend)"

definition flow_ok :: "lane \<Rightarrow> command_msg list \<Rightarrow> bool" where
  "flow_ok l pend \<longleftrightarrow> subseq (lane_ids l pend) (map cm_correlation (gh_asked l)) \<and>
     (\<not> gh_dropped l \<longrightarrow> lane_ids l pend = map cm_correlation (gh_asked l))"

definition ids_flow :: "threaded \<Rightarrow> bool" where
  "ids_flow t \<longleftrightarrow> (\<forall>i < length (lanes t). flow_ok (lanes t ! i) (pending_msgs t i))"

lemma flow_ok_same:
  "lane_ids l' pend' = lane_ids l pend \<Longrightarrow> gh_asked l' = gh_asked l \<Longrightarrow> gh_dropped l' = gh_dropped l \<Longrightarrow>
     flow_ok l pend \<Longrightarrow> flow_ok l' pend'"
  by (simp add: flow_ok_def)

lemma flow_ok_asked:
  assumes "flow_ok l []"
  shows "flow_ok (l\<lparr>gh_asked := gh_asked l @ [m]\<rparr>) [m]"
proof -
  have "lane_ids (l\<lparr>gh_asked := gh_asked l @ [m]\<rparr>) [m] = lane_ids l [] @ [cm_correlation m]"
    by (simp add: lane_ids_def)
  with assms show ?thesis by (simp add: flow_ok_def)
qed

lemma flow_ok_dropped:
  assumes "flow_ok l pend" "lane_worker l = Publishing res"
  shows "flow_ok (l\<lparr>lane_worker := Polling, gh_dropped := True\<rparr>) pend"
proof -
  have insert: "subseq (xs @ zs) (xs @ [x] @ zs)" for xs zs :: "64 word list" and x
    by (intro list_emb_append_mono) (simp_all add: list_emb_Cons)
  have "subseq (lane_ids (l\<lparr>lane_worker := Polling, gh_dropped := True\<rparr>) pend) (lane_ids l pend)"
    using insert [of "map rm_correlation (gh_drained l @ ring_contents (out_q l))"
        "map cm_correlation (ring_contents (in_q l) @ pend)" "rm_correlation res"] assms(2)
    by (simp add: lane_ids_def)
  with assms(1) show ?thesis by (auto simp: flow_ok_def intro: subseq_order.trans)
qed

lemma pending_msgs_simps [simp]:
  "pending_msgs (set_lane i l t) = pending_msgs t" "pending_msgs (t\<lparr>th_engine := sh\<rparr>) = pending_msgs t"
  "pending_msgs (t\<lparr>gh_retried := r\<rparr>) = pending_msgs t" "pending_msgs (t\<lparr>running := b\<rparr>) = pending_msgs t"
  by (simp_all add: pending_msgs_def fun_eq_iff)

lemma ids_flow_lane:
  assumes "ids_flow t" "i < length (lanes t)" "pending_msgs u = pending_msgs t" "lanes u = lanes t"
    and "flow_ok (lanes t ! i) (pending_msgs t i) \<Longrightarrow> flow_ok l (pending_msgs t i)"
  shows "ids_flow (set_lane i l u)"
  using assms by (auto simp: ids_flow_def nth_list_update)

lemma ids_flow_step:
  assumes wf: "wf_threaded t" and flow: "ids_flow t" and keep: "keeps_ids mv rv" and step: "threaded_step D mv rv t t'"
  shows "ids_flow t'"
  using step
proof cases
  case step_start
  show ?thesis
  proof (cases "running t")
    case False
    have "flow_ok (l\<lparr>lane_worker := Polling\<rparr>) pend" if "flow_ok l pend" "l \<in> set (lanes t)" for l pend
      using step_start(2) that by (intro flow_ok_same [OF _ _ _ that(1)]) (simp_all add: workers_joined_def lane_ids_def)
    with False flow step_start show ?thesis
      by (auto simp: start_engine_def map_workers_def ids_flow_def pending_msgs_def)
  qed (use flow step_start in \<open>simp add: start_engine_def\<close>)
next
  case step_stop
  with flow show ?thesis by (simp add: stop_request_def ids_flow_def pending_msgs_def)
next
  case (step_submit c ingress)
  let ?s = "shard_of t c"
  have s: "?s < length (lanes t)" by (rule shard_of_in_range [OF wf])
  have none: "pending_msgs t i = []" for i using step_submit(2) by (simp add: pending_msgs_def)
  have "flow_ok (lanes t ! i) []" if "i < length (lanes t)" for i
    using flow that by (simp add: ids_flow_def none)
  with flow_ok_asked show ?thesis
    unfolding step_submit(1)
    by (auto simp: ids_flow_def submit_begin_def pending_msgs_def set_lane_def nth_list_update s Let_def)
next
  case step_push
  from wf step_push show ?thesis
  proof (cases rule: submit_push_cases)
    case 1
    with flow show ?thesis by simp
  next
    case (2 s msg q)
    have "flow_ok ((lanes t ! s)\<lparr>in_q := q\<rparr>) []" if "flow_ok (lanes t ! s) [msg]"
      using 2(4) by (intro flow_ok_same [OF _ _ _ that]) (simp_all add: lane_ids_def)
    with flow 2 show ?thesis
      by (auto simp: ids_flow_def pending_msgs_def set_lane_def nth_list_update)
  next
    case (3 s msg)
    have "flow_ok (lanes t ! s) [mv msg]" if "flow_ok (lanes t ! s) [msg]"
      using keep by (intro flow_ok_same [OF _ _ _ that]) (simp_all add: lane_ids_def keeps_ids_def)
    with flow 3 show ?thesis by (auto simp: ids_flow_def pending_msgs_def)
  qed
next
  case (step_poll i)
  from wf step_poll(1,3) show ?thesis
  proof (cases rule: worker_poll_cases)
    case 1
    show ?thesis
      unfolding 1(2)
      by (rule ids_flow_lane [OF flow step_poll(1)], simp, simp, erule flow_ok_same [rotated -1])
        (simp_all add: lane_ids_def step_poll(2))
  next
    case (3 msg q)
    show ?thesis
      unfolding 3(4)
      by (rule ids_flow_lane [OF flow step_poll(1)], simp, simp, erule flow_ok_same [rotated -1])
        (simp_all add: lane_ids_def step_poll(2) 3(3))
  qed (use flow in simp)
next
  case (step_execute i msg)
  from step_execute(3) obtain out sh res where
    res: "res = \<lparr>rm_correlation = cm_correlation msg, rm_events = fst out, rm_trades = snd out\<rparr>"
    and t': "t' = set_lane i ((lanes t ! i)\<lparr>lane_worker := Publishing res, gh_handled := gh_handled (lanes t ! i) @ [msg],
      gh_results := gh_results (lanes t ! i) @ [res]\<rparr>) (t\<lparr>th_engine := sh\<rparr>)"
    by (rule worker_execute_cases)
  show ?thesis
    unfolding t'
      by (rule ids_flow_lane [OF flow step_execute(1)], simp, simp, erule flow_ok_same [rotated -1])
        (simp_all add: lane_ids_def step_execute(2) res)
next
  case (step_publish i res)
  from wf step_publish(1,3) show ?thesis
  proof (cases rule: worker_publish_cases)
    case 1
    show ?thesis
      unfolding 1(2)
      by (rule ids_flow_lane [OF flow step_publish(1)], simp, simp, erule flow_ok_dropped [OF _ step_publish(2)])
  next
    case (2 q)
    show ?thesis
      unfolding 2(4)
      by (rule ids_flow_lane [OF flow step_publish(1)], simp, simp, erule flow_ok_same [rotated -1])
        (simp_all add: lane_ids_def step_publish(2) 2(3))
  next
    case 3
    show ?thesis
      unfolding 3(3)
      by (rule ids_flow_lane [OF flow step_publish(1)], simp, simp, erule flow_ok_same [rotated -1])
        (use keep in \<open>simp_all add: lane_ids_def step_publish(2) keeps_ids_def\<close>)
  qed
next
  case (step_drain i)
  from wf step_drain show ?thesis
  proof (cases rule: drain_pop_cases)
    case (2 res q)
    show ?thesis
      unfolding 2(3)
      by (rule ids_flow_lane [OF flow step_drain(1)], simp, simp, erule flow_ok_same [rotated -1])
        (simp_all add: lane_ids_def 2(2))
  qed (use flow in simp)
qed

text \<open>The initial state.\<close>

lemma new_lane_facts:
  assumes "new_lane cm rm capacity sl = Some l"
  shows "wf_lane l" "ring_contents (in_q l) = []" "ring_contents (out_q l) = []" "lane_worker l = Exited"
    "gh_asked l = []" "gh_handled l = []" "gh_results l = []" "gh_drained l = []" "\<not> gh_dropped l" "gh_start l = sl"
proof -
  from assms obtain qi qo where q: "new_spsc cm capacity = Some qi" "new_spsc rm capacity = Some qo"
    and l: "l = \<lparr>in_q = qi, out_q = qo, lane_worker = Exited, gh_asked = [], gh_handled = [], gh_results = [],
      gh_drained = [], gh_dropped = False, gh_start = sl\<rparr>"
    by (auto simp: new_lane_def split: option.splits)
  from new_spsc_ok [OF q(1)] new_spsc_ok [OF q(2)]
  show "wf_lane l" "ring_contents (in_q l) = []" "ring_contents (out_q l) = []" "lane_worker l = Exited"
    "gh_asked l = []" "gh_handled l = []" "gh_results l = []" "gh_drained l = []" "\<not> gh_dropped l" "gh_start l = sl"
    by (simp_all add: l wf_lane_def)
qed

lemma new_threaded_facts:
  assumes "new_threaded cm rm capacity sh = Some t" "i < nat (shard_count sh)"
  shows "new_lane cm rm capacity (slice_of sh i) = Some (lanes t ! i)"
proof -
  let ?ls = "map (\<lambda>i. new_lane cm rm capacity (slice_of sh i)) [0..<nat (shard_count sh)]"
  from assms(1) have t: "None \<notin> set ?ls" "lanes t = map the ?ls"
    by (auto simp: new_threaded_def Let_def split: if_splits)
  have "new_lane cm rm capacity (slice_of sh i) \<in> set ?ls" using assms(2) by simp
  with t(1) have "new_lane cm rm capacity (slice_of sh i) \<noteq> None" by metis
  with t(2) assms(2) show ?thesis by simp
qed

lemma threaded_init_facts:
  assumes "threaded_init t"
  obtains cm rm capacity n root ack limits disk where "new_sharded n root ack limits disk = Inr (th_engine t)"
    "wf_sharded (th_engine t)" "length (lanes t) = nat (shard_count (th_engine t))" "\<not> running t" "submitting t = None"
    "\<not> gh_retried t"
    "\<And>i. i < length (lanes t) \<Longrightarrow> new_lane cm rm capacity (slice_of (th_engine t) i) = Some (lanes t ! i)"
proof -
  from assms obtain cm rm capacity n root ack limits disk sh where sh: "n < 2 ^ 31" "new_sharded n root ack limits disk = Inr sh"
    "new_threaded cm rm capacity sh = Some t" unfolding threaded_init_def by blast
  have t: "th_engine t = sh" "length (lanes t) = nat (shard_count sh)" "\<not> running t" "submitting t = None" "\<not> gh_retried t"
    using sh(3) by (auto simp: new_threaded_def Let_def split: if_splits)
  show ?thesis
    by (rule that [of n root ack limits disk cm rm capacity])
      (use sh t new_sharded_wf [OF sh(2,1)] new_threaded_facts [OF sh(3)] in simp_all)
qed

lemma threaded_init_wf:
  assumes "threaded_init t"
  shows "wf_threaded t"
  using assms
proof (rule threaded_init_facts)
  fix cm rm capacity
  assume t: "wf_sharded (th_engine t)" "length (lanes t) = nat (shard_count (th_engine t))" "submitting t = None"
    and new: "\<And>i. i < length (lanes t) \<Longrightarrow> new_lane cm rm capacity (slice_of (th_engine t) i) = Some (lanes t ! i)"
  have "\<forall>l \<in> set (lanes t). wf_lane l" using new_lane_facts(1) [OF new] by (metis in_set_conv_nth)
  with t show ?thesis by (simp add: wf_threaded_def)
qed

lemma threaded_init_ids:
  assumes "threaded_init t"
  shows "ids_flow t"
  using assms
proof (rule threaded_init_facts)
  fix cm rm capacity
  assume t: "submitting t = None"
    and new: "\<And>i. i < length (lanes t) \<Longrightarrow> new_lane cm rm capacity (slice_of (th_engine t) i) = Some (lanes t ! i)"
  from t show ?thesis
    by (simp add: ids_flow_def flow_ok_def lane_ids_def pending_msgs_def new_lane_facts [OF new])
qed

end
