(* ===== verification/Threaded_Contents.thy ===== *)
theory Threaded_Contents
  imports Threaded_Properties
begin

text \<open>
  What the pipeline computes. As long as no push had to be retried, the worker of a shard executes exactly
  the commands submitted to it, in order, and the results are the answers of executing them one after the
  other on the shard (\<open>lane_content\<close>). A running pipeline can always be drained (\<open>pipeline_drains\<close>). A push to
  a full queue, on the other hand, spoils the command it retries (\<open>full_queue_spoils_command\<close>).
\<close>

section \<open>Sequential execution\<close>

definition result_of :: "command_msg \<Rightarrow> exec_event list \<times> trade list \<Rightarrow> result_msg" where
  "result_of m out = \<lparr>rm_correlation = cm_correlation m, rm_events = fst out, rm_trades = snd out\<rparr>"

fun run_msgs :: "'d doubles \<Rightarrow> risk_limits \<Rightarrow> slice \<Rightarrow> command_msg list \<Rightarrow> (result_msg list \<times> slice) result" where
  "run_msgs D limits sl [] = Inr ([], sl)"
| "run_msgs D limits sl (m # ms) =
     rbind (slice_execute D limits (cm_command m) (cm_ingress m) sl) (\<lambda>(out, sl1).
     rbind (run_msgs D limits sl1 ms) (\<lambda>(rs, sl2). Inr (result_of m out # rs, sl2)))"

lemma run_msgs_snoc:
  assumes "run_msgs D limits sl ms = Inr (rs, sl1)" "slice_execute D limits (cm_command m) (cm_ingress m) sl1 = Inr (out, sl2)"
  shows "run_msgs D limits sl (ms @ [m]) = Inr (rs @ [result_of m out], sl2)"
  using assms by (induction ms arbitrary: sl rs) (auto simp: rbind_eq_Inr)

section \<open>Commands and results of a lane\<close>

fun worker_msgs :: "worker \<Rightarrow> command_msg list" where
  "worker_msgs (Executing m) = [m]"
| "worker_msgs w = []"

fun worker_results :: "worker \<Rightarrow> result_msg list" where
  "worker_results (Publishing r) = [r]"
| "worker_results w = []"

definition lane_commands :: "lane \<Rightarrow> command_msg list \<Rightarrow> command_msg list" where
  "lane_commands l pend = gh_handled l @ worker_msgs (lane_worker l) @ ring_contents (in_q l) @ pend"

definition lane_results :: "lane \<Rightarrow> result_msg list" where
  "lane_results l = gh_drained l @ ring_contents (out_q l) @ worker_results (lane_worker l)"

definition lane_content :: "'d doubles \<Rightarrow> sharded \<Rightarrow> nat \<Rightarrow> lane \<Rightarrow> command_msg list \<Rightarrow> bool" where
  "lane_content D sh i l pend \<longleftrightarrow>
     lane_commands l pend = gh_asked l \<and> (\<forall>m \<in> set (gh_asked l). shard sh (command_symbol (cm_command m)) = i) \<and>
     run_msgs D (risk sh) (gh_start l) (gh_handled l) = Inr (gh_results l, slice_of sh i) \<and>
     subseq (lane_results l) (gh_results l) \<and> (\<not> gh_dropped l \<longrightarrow> lane_results l = gh_results l)"

definition contents_ok :: "'d doubles \<Rightarrow> threaded \<Rightarrow> bool" where
  "contents_ok D t \<longleftrightarrow> gh_retried t \<or> (\<forall>i < length (lanes t). lane_content D (th_engine t) i (lanes t ! i) (pending_msgs t i))"

lemma lane_content_same:
  assumes "lane_content D sh i l pend" "lane_commands l' pend' = lane_commands l pend" "lane_results l' = lane_results l"
    "gh_asked l' = gh_asked l" "gh_handled l' = gh_handled l" "gh_results l' = gh_results l" "gh_start l' = gh_start l"
    "gh_dropped l' = gh_dropped l"
  shows "lane_content D sh i l' pend'"
  using assms by (simp add: lane_content_def)

lemma lane_content_asked:
  assumes "lane_content D sh i l []" "shard sh (command_symbol (cm_command m)) = i"
  shows "lane_content D sh i (l\<lparr>gh_asked := gh_asked l @ [m]\<rparr>) [m]"
  using assms by (auto simp: lane_content_def lane_commands_def lane_results_def)

lemma subseq_insert: "subseq (xs @ zs) (xs @ [x] @ zs)"
  by (intro list_emb_append_mono) (simp_all add: list_emb_Cons)

lemma lane_content_dropped:
  assumes "lane_content D sh i l pend" "lane_worker l = Publishing res"
  shows "lane_content D sh i (l\<lparr>lane_worker := Polling, gh_dropped := True\<rparr>) pend"
proof -
  have "subseq (lane_results (l\<lparr>lane_worker := Polling, gh_dropped := True\<rparr>)) (lane_results l)"
    using subseq_insert [of "gh_drained l @ ring_contents (out_q l)" "[]" res] assms(2) by (simp add: lane_results_def)
  with assms show ?thesis
    by (auto simp: lane_content_def lane_commands_def intro: subseq_order.trans)
qed

lemma lane_content_executed:
  assumes "lane_content D sh i l pend" "lane_worker l = Executing m"
    and run: "slice_execute D (risk sh) (cm_command m) (cm_ingress m) (slice_of sh i) = Inr (out, sl)"
    and sh': "risk sh' = risk sh" "shard sh' = shard sh" "slice_of sh' i = sl"
  shows "lane_content D sh' i (l\<lparr>lane_worker := Publishing (result_of m out), gh_handled := gh_handled l @ [m],
    gh_results := gh_results l @ [result_of m out]\<rparr>) pend"
proof -
  let ?l = "l\<lparr>lane_worker := Publishing (result_of m out), gh_handled := gh_handled l @ [m],
    gh_results := gh_results l @ [result_of m out]\<rparr>"
  have old: "run_msgs D (risk sh) (gh_start l) (gh_handled l) = Inr (gh_results l, slice_of sh i)"
    "subseq (lane_results l) (gh_results l)" "\<not> gh_dropped l \<longrightarrow> lane_results l = gh_results l"
    using assms(1) by (simp_all add: lane_content_def)
  have "lane_commands ?l pend = lane_commands l pend" "lane_results ?l = lane_results l @ [result_of m out]"
    using assms(2) by (simp_all add: lane_commands_def lane_results_def)
  with run_msgs_snoc [OF old(1) run] old(2,3) assms(1) sh' show ?thesis by (simp add: lane_content_def)
qed

lemma contents_lane:
  assumes "contents_ok D t" "i < length (lanes t)" "pending_msgs u = pending_msgs t" "lanes u = lanes t"
    "th_engine u = th_engine t" "gh_retried u = gh_retried t"
    and "lane_content D (th_engine t) i (lanes t ! i) (pending_msgs t i) \<Longrightarrow>
      lane_content D (th_engine t) i l (pending_msgs t i)"
  shows "contents_ok D (set_lane i l u)"
  using assms by (auto simp: contents_ok_def nth_list_update)

lemma contents_retried: "gh_retried t \<Longrightarrow> contents_ok D t"
  by (simp add: contents_ok_def)

lemma contents_step:
  assumes wf: "wf_threaded t" and ok: "contents_ok D t" and step: "threaded_step D mv rv t t'"
  shows "contents_ok D t'"
  using step
proof cases
  case step_start
  have "lane_content D sh i (l\<lparr>lane_worker := Polling\<rparr>) pend" if "lane_content D sh i l pend" "l \<in> set (lanes t)" for sh i l pend
    using step_start(2) that
    by (intro lane_content_same [OF that(1)]) (simp_all add: workers_joined_def lane_commands_def lane_results_def)
  with ok step_start show ?thesis
    by (auto simp: start_engine_def map_workers_def contents_ok_def pending_msgs_def)
next
  case step_stop
  with ok show ?thesis by (simp add: stop_request_def contents_ok_def)
next
  case (step_submit c ingress)
  let ?s = "shard_of t c"
  have s: "?s < length (lanes t)" by (rule shard_of_in_range [OF wf])
  have none: "pending_msgs t i = []" for i using step_submit(2) by (simp add: pending_msgs_def)
  with ok have old: "gh_retried t \<or> (\<forall>i < length (lanes t). lane_content D (th_engine t) i (lanes t ! i) [])"
    by (simp add: contents_ok_def)
  with lane_content_asked [of D "th_engine t" ?s "lanes t ! ?s"] s show ?thesis
    unfolding step_submit(1)
    by (auto simp: contents_ok_def submit_begin_def pending_msgs_def set_lane_def nth_list_update shard_of_def Let_def)
next
  case step_push
  from wf step_push show ?thesis
  proof (cases rule: submit_push_cases)
    case (2 s msg q)
    have "lane_content D sh s ((lanes t ! s)\<lparr>in_q := q\<rparr>) []" if "lane_content D sh s (lanes t ! s) [msg]" for sh
      using 2(4) by (intro lane_content_same [OF that]) (simp_all add: lane_commands_def lane_results_def)
    with ok 2 show ?thesis
      by (auto simp: contents_ok_def pending_msgs_def set_lane_def nth_list_update)
  qed (use ok in \<open>auto simp: contents_retried\<close>)
next
  case (step_poll i)
  from wf step_poll(1,3) show ?thesis
  proof (cases rule: worker_poll_cases)
    case 1
    show ?thesis
      unfolding 1(2)
      by (rule contents_lane [OF ok step_poll(1)], simp_all, erule lane_content_same)
        (simp_all add: lane_commands_def lane_results_def step_poll(2))
  next
    case (3 msg q)
    show ?thesis
      unfolding 3(4)
      by (rule contents_lane [OF ok step_poll(1)], simp_all, erule lane_content_same)
        (simp_all add: lane_commands_def lane_results_def step_poll(2) 3(3))
  qed (use ok in simp)
next
  case (step_execute i msg)
  show ?thesis
  proof (cases "gh_retried t")
    case True
    from step_execute(3) show ?thesis by (rule worker_execute_cases) (simp add: True contents_retried)
  next
    case False
    have eng: "wf_sharded (th_engine t)" "i < nat (shard_count (th_engine t))"
      using wf step_execute(1) by (simp_all add: wf_threaded_def)
    have lane: "lane_content D (th_engine t) j (lanes t ! j) (pending_msgs t j)" if "j < length (lanes t)" for j
      using ok False that by (simp add: contents_ok_def)
    have "msg \<in> set (gh_asked (lanes t ! i))"
      using lane [OF step_execute(1)] step_execute(2)
      by (auto simp: lane_content_def lane_commands_def simp del: set_append dest!: arg_cong [where f = set]) auto
    then have i: "i = shard (th_engine t) (command_symbol (cm_command msg))"
      using lane [OF step_execute(1)] by (simp add: lane_content_def)
    from step_execute(3) obtain out sh where
      run: "execute D (cm_command msg) (cm_ingress msg) (th_engine t) = Inr (out, sh)"
      and t': "t' = set_lane i ((lanes t ! i)\<lparr>lane_worker := Publishing (result_of msg out),
        gh_handled := gh_handled (lanes t ! i) @ [msg], gh_results := gh_results (lanes t ! i) @ [result_of msg out]\<rparr>)
        (t\<lparr>th_engine := sh\<rparr>)"
      by (rule worker_execute_cases) (simp add: result_of_def)
    from run obtain sl where
      sl: "slice_execute D (risk (th_engine t)) (cm_command msg) (cm_ingress msg) (slice_of (th_engine t) i) = Inr (out, sl)"
        "sh = put_slice i sl (th_engine t)" by (auto simp: execute_local [OF eng(1) i] rbind_eq_Inr)
    have slices: "slice_of sh j = (if j = i then sl else slice_of (th_engine t) j)" if "j < length (lanes t)" for j
      using slice_of_put [OF eng(1)] that wf by (simp add: sl(2) wf_threaded_def)
    have other: "lane_content D sh j (lanes t ! j) (pending_msgs t j)" if "j < length (lanes t)" "j \<noteq> i" for j
      using lane [OF that(1)] slices [OF that(1)] that(2) by (simp add: lane_content_def sl(2))
    note this = lane_content_executed [OF lane [OF step_execute(1)] step_execute(2) sl(1), of sh]
    with other slices [OF step_execute(1)] step_execute(1) show ?thesis
      unfolding t' contents_ok_def by (simp add: sl(2))
  qed
next
  case (step_publish i res)
  from wf step_publish(1,3) show ?thesis
  proof (cases rule: worker_publish_cases)
    case 1
    show ?thesis
      unfolding 1(2)
      by (rule contents_lane [OF ok step_publish(1)], simp_all, erule lane_content_dropped [OF _ step_publish(2)])
  next
    case (2 q)
    show ?thesis
      unfolding 2(4)
      by (rule contents_lane [OF ok step_publish(1)], simp_all, erule lane_content_same)
        (simp_all add: lane_commands_def lane_results_def step_publish(2) 2(3))
  qed (simp add: contents_retried)
next
  case (step_drain i)
  from wf step_drain show ?thesis
  proof (cases rule: drain_pop_cases)
    case (2 res q)
    show ?thesis
      unfolding 2(3)
      by (rule contents_lane [OF ok step_drain(1)], simp_all, erule lane_content_same)
        (simp_all add: lane_commands_def lane_results_def 2(2))
  qed (use ok in simp)
qed

lemma threaded_init_contents:
  assumes "threaded_init t"
  shows "contents_ok D t"
  using assms
proof (rule threaded_init_facts)
  fix cm rm capacity
  assume t: "submitting t = None"
    and new: "\<And>i. i < length (lanes t) \<Longrightarrow> new_lane cm rm capacity (slice_of (th_engine t) i) = Some (lanes t ! i)"
  from t show ?thesis
    by (simp add: contents_ok_def lane_content_def lane_commands_def lane_results_def pending_msgs_def new_lane_facts [OF new])
qed

section \<open>Progress\<close>

text \<open>Commands never fail on well-formed engines, when the risk limits are safe.\<close>

lemma engine_execute_total:
  assumes "wf_engine e"
  shows "\<exists>out e'. engine_execute c e = Inr (out, e') \<and> wf_engine e'"
proof (cases c)
  case (CAdd cmd)
  with engine_add_refines [OF assms, of cmd] show ?thesis by (auto simp: engine_execute_def)
next
  case (CCancel cmd)
  with engine_cancel_refines [OF assms, of cmd] show ?thesis by (auto simp: engine_execute_def)
next
  case (CReplace cmd)
  with engine_replace_refines [OF assms, of cmd] show ?thesis by (auto simp: engine_execute_def)
qed

lemma check_add_total: "safe_limits l \<Longrightarrow> \<exists>r. check_add l cmd = Inr r"
  using notional_fits [of l "ao_quantity cmd" "ao_price_ticks cmd"] by (auto simp: check_add_def mult_ll_def)

lemma slice_run_wf:
  assumes "wf_engine (sl_engine sl)"
  shows "\<exists>out sl'. slice_run D c sl = Inr (out, sl') \<and> wf_engine (sl_engine sl')"
  using engine_execute_total [OF assms, of c] by (auto simp: slice_run_def)

lemma slice_reject_wf: "wf_engine (sl_engine sl) \<Longrightarrow> wf_engine (sl_engine (snd (slice_reject c reason sl)))"
  by (simp add: slice_reject_def split_beta engine_reject_refines)

lemma slice_checked_wf:
  assumes "wf_engine (sl_engine sl)" "\<And>cmd. c = CAdd cmd \<Longrightarrow> \<exists>r. check_add limits cmd = Inr r"
  shows "\<exists>out sl'. slice_checked D limits c sl = Inr (out, sl') \<and> wf_engine (sl_engine sl')"
proof (cases c)
  case (CAdd cmd)
  with assms(2) obtain r where "check_add limits cmd = Inr r" by blast
  with CAdd slice_run_wf [OF assms(1), of D c] slice_reject_wf [OF assms(1), of c] show ?thesis
    by (cases r) (simp_all add: slice_checked_def split_beta slice_log_def)
qed (use slice_run_wf [OF assms(1), of D c] in \<open>simp_all add: slice_checked_def\<close>)

lemma slice_execute_total:
  assumes "wf_engine (sl_engine sl)" "safe_limits limits"
  shows "\<exists>out sl'. slice_execute D limits c ingress sl = Inr (out, sl') \<and> wf_engine (sl_engine sl')"
proof -
  have "\<exists>out sl'. slice_checked D limits c sl1 = Inr (out, sl') \<and> wf_engine (sl_engine sl')"
    if "wf_engine (sl_engine sl1)" for sl1
    using slice_checked_wf [OF that] check_add_total [OF assms(2)] by blast
  from this [OF assms(1)] this [of "sl\<lparr>sl_last := n\<rparr>" for n] slice_reject_wf [OF assms(1), of c "''OUT_OF_ORDER_INGRESS''"]
  show ?thesis using assms(1) by (cases ingress) (simp_all add: slice_execute_def split_beta)
qed

definition engines_ok :: "sharded \<Rightarrow> bool" where
  "engines_ok sh \<longleftrightarrow> wf_sharded sh \<and> safe_limits (risk sh) \<and> (\<forall>e \<in> set (engines sh). wf_engine e)"

lemma execute_total:
  assumes "engines_ok sh"
  shows "\<exists>out sh'. execute D c ingress sh = Inr (out, sh') \<and> engines_ok sh'"
proof -
  have wf: "wf_sharded sh" using assms by (simp add: engines_ok_def)
  let ?s = "shard sh (command_symbol c)"
  have "?s < length (engines sh)" using shard_in_range [OF wf] wf by (simp add: wf_sharded_def)
  then have "wf_engine (sl_engine (slice_of sh ?s))" using assms by (simp add: engines_ok_def slice_of_def)
  from slice_execute_total [OF this, of "risk sh" D c ingress] assms obtain out sl' where
    "slice_execute D (risk sh) c ingress (slice_of sh ?s) = Inr (out, sl')" "wf_engine (sl_engine sl')"
    by (auto simp: engines_ok_def)
  with assms wf show ?thesis
    by (auto simp: execute_local [OF wf refl] engines_ok_def dest: set_update_subset_insert [THEN subsetD])
qed

text \<open>The work left in a lane and in the pipeline: every step of a worker or of the consumer takes a
  message one stage further.\<close>

fun worker_work :: "worker \<Rightarrow> nat" where
  "worker_work (Executing m) = 3"
| "worker_work (Publishing r) = 2"
| "worker_work w = 0"

definition lane_work :: "lane \<Rightarrow> nat" where
  "lane_work l = 4 * length (ring_contents (in_q l)) + worker_work (lane_worker l) + length (ring_contents (out_q l))"

definition work :: "threaded \<Rightarrow> nat" where
  "work t = sum_list (map lane_work (lanes t)) + (if submitting t = None then 0 else 5)"

definition served :: "threaded \<Rightarrow> bool" where
  "served t \<longleftrightarrow> work t = 0"

lemma work_set_lane:
  assumes "i < length (lanes u)" "lane_work l < lane_work (lanes u ! i)"
  shows "work (set_lane i l u) < work u"
proof -
  have "lane_work (lanes u ! i) \<le> sum_list (map lane_work (lanes u))"
    using assms(1) by (simp add: elem_le_sum_list [of i "map lane_work (lanes u)", simplified])
  with assms show ?thesis by (simp add: work_def set_lane_def map_update sum_list_update)
qed

definition alive :: "threaded \<Rightarrow> bool" where
  "alive t \<longleftrightarrow> (running t \<longrightarrow> (\<forall>l \<in> set (lanes t). lane_worker l \<noteq> Exited))"

lemma alive_lane: "alive t \<Longrightarrow> running t \<Longrightarrow> i < length (lanes t) \<Longrightarrow> lane_worker (lanes t ! i) \<noteq> Exited"
  by (simp add: alive_def)

lemma alive_set_lane:
  assumes "alive t" "lanes u = lanes t" "running u = running t" "lane_worker l \<noteq> Exited \<or> \<not> running t"
  shows "alive (set_lane i l u)"
  using assms by (auto simp: alive_def set_lane_def dest: set_update_subset_insert [THEN subsetD])

lemma alive_step:
  assumes wf: "wf_threaded t" and alive: "alive t" and step: "threaded_step D mv rv t t'"
  shows "alive t'"
  using step
proof cases
  case step_start
  with alive show ?thesis by (auto simp: start_engine_def map_workers_def alive_def)
next
  case step_stop
  then show ?thesis by (simp add: stop_request_def alive_def)
next
  case (step_submit c ingress)
  have "running t \<Longrightarrow> lane_worker (lanes t ! shard_of t c) \<noteq> Exited"
    using alive_lane [OF alive] shard_of_in_range [OF wf] by blast
  with step_submit show ?thesis
    by (auto simp: submit_begin_def Let_def intro!: alive_set_lane [OF alive])
next
  case step_push
  from wf step_push show ?thesis
    by (cases rule: submit_push_cases)
      (use alive alive_lane [OF alive] in \<open>auto simp: alive_def [of "_\<lparr>submitting := _, gh_retried := _\<rparr>"] alive_def [of t]
        intro!: alive_set_lane [OF alive]\<close>)
next
  case (step_poll i)
  from wf step_poll(1,3) show ?thesis
    by (cases rule: worker_poll_cases) (use alive in \<open>auto intro!: alive_set_lane [OF alive]\<close>)
next
  case (step_execute i msg)
  from step_execute(3) show ?thesis
    by (rule worker_execute_cases) (auto intro!: alive_set_lane [OF alive])
next
  case (step_publish i res)
  from wf step_publish(1,3) show ?thesis
    by (cases rule: worker_publish_cases) (auto intro!: alive_set_lane [OF alive])
next
  case (step_drain i)
  have "running t \<Longrightarrow> lane_worker (lanes t ! i) \<noteq> Exited" using alive_lane [OF alive] step_drain(1) by blast
  with wf step_drain alive show ?thesis
    by (cases rule: drain_pop_cases) (auto intro!: alive_set_lane [OF alive])
qed

lemma engines_ok_step:
  assumes ok: "engines_ok (th_engine t)" and wf: "wf_threaded t" and step: "threaded_step D mv rv t t'"
  shows "engines_ok (th_engine t')"
  using step
proof cases
  case step_push
  from wf step_push ok show ?thesis by (cases rule: submit_push_cases) auto
next
  case (step_poll i)
  from wf step_poll(1,3) ok show ?thesis by (cases rule: worker_poll_cases) auto
next
  case (step_execute i msg)
  from step_execute(3) obtain out sh res where
    run: "execute D (cm_command msg) (cm_ingress msg) (th_engine t) = Inr (out, sh)"
    and t': "t' = set_lane i ((lanes t ! i)\<lparr>lane_worker := Publishing res, gh_handled := gh_handled (lanes t ! i) @ [msg],
      gh_results := gh_results (lanes t ! i) @ [res]\<rparr>) (t\<lparr>th_engine := sh\<rparr>)"
    by (rule worker_execute_cases)
  from execute_total [OF ok, of D "cm_command msg" "cm_ingress msg"] run show ?thesis by (simp add: t')
next
  case (step_publish i res)
  from wf step_publish(1,3) ok show ?thesis by (cases rule: worker_publish_cases) auto
next
  case (step_drain i)
  from wf step_drain ok show ?thesis by (cases rule: drain_pop_cases) auto
qed (use ok in \<open>auto simp: start_engine_def map_workers_def stop_request_def submit_begin_def Let_def\<close>)

text \<open>Steps that change neither what was asked nor whether a push was retried or a result dropped.\<close>

definition keeps_lanes :: "threaded \<Rightarrow> threaded \<Rightarrow> bool" where
  "keeps_lanes t t' \<longleftrightarrow> running t' = running t \<and> gh_retried t' = gh_retried t \<and> map gh_asked (lanes t') = map gh_asked (lanes t) \<and>
     map gh_dropped (lanes t') = map gh_dropped (lanes t)"

lemma keeps_set_lane:
  assumes "lanes u = lanes t" "running u = running t" "gh_retried u = gh_retried t" "gh_asked l = gh_asked (lanes t ! i)" "gh_dropped l = gh_dropped (lanes t ! i)"
  shows "keeps_lanes t (set_lane i l u)"
  using assms by (simp add: keeps_lanes_def set_lane_def map_update) (metis list_update_id map_update)

lemma keeps_lanes_length: "keeps_lanes t t' \<Longrightarrow> length (lanes t') = length (lanes t)"
  by (auto simp: keeps_lanes_def dest: map_eq_imp_length_eq)

lemma keeps_lanes_nth:
  assumes "keeps_lanes t t'" "i < length (lanes t)"
  shows "gh_asked (lanes t' ! i) = gh_asked (lanes t ! i)" "gh_dropped (lanes t' ! i) = gh_dropped (lanes t ! i)"
proof -
  have "map gh_asked (lanes t') ! i = map gh_asked (lanes t) ! i" "map gh_dropped (lanes t') ! i = map gh_dropped (lanes t) ! i"
    using assms(1) by (simp_all add: keeps_lanes_def)
  then show "gh_asked (lanes t' ! i) = gh_asked (lanes t ! i)" "gh_dropped (lanes t' ! i) = gh_dropped (lanes t ! i)"
    using assms(2) keeps_lanes_length [OF assms(1)] by simp_all
qed

lemma lane_progress:
  assumes wf: "wf_threaded t" and ok: "engines_ok (th_engine t)" and alive: "alive t" and run: "running t"
    and i: "i < length (lanes t)" and work: "lane_work (lanes t ! i) \<noteq> 0"
  shows "\<exists>t'. threaded_step D mv rv t t' \<and> work t' < work t \<and> keeps_lanes t t'"
proof -
  let ?l = "lanes t ! i"
  have rings: "ring_ok (in_q ?l)" "ring_ok (out_q ?l)" using wf_lane_rings [OF wf i] by blast+
  have step: "\<exists>t'. threaded_step D mv rv t t' \<and> work t' < work t \<and> keeps_lanes t t'"
    if "threaded_step D mv rv t t'" "t' = set_lane i l u" "lane_work l < lane_work ?l" "lanes u = lanes t"
      "submitting u = submitting t" "running u = running t" "gh_retried u = gh_retried t"
      "gh_asked l = gh_asked ?l" "gh_dropped l = gh_dropped ?l" for t' l u
  proof -
    have "work (set_lane i l u) < work t"
      using work_set_lane [of i u l] that i by (simp add: work_def)
    with that keeps_set_lane [of u t l i] show ?thesis by blast
  qed
  show ?thesis
  proof (cases "ring_contents (out_q ?l) = []")
    case False
    obtain t' where t': "drain_pop i t = Inr t'"
      using ring.pop_law [OF rings(2)] by (auto simp: drain_pop_def Let_def split: list.splits)
    from wf i t' show ?thesis
    proof (cases rule: drain_pop_cases)
      case (2 res q)
      show ?thesis by (rule step [OF step_drain [OF i t'] 2(3)]) (use 2 in \<open>simp_all add: lane_work_def\<close>)
    qed (use False in simp)
  next
    case out: True
    show ?thesis
    proof (cases "lane_worker ?l")
      case Polling
      obtain t' where t': "worker_poll i t = Inr t'"
        using ring.pop_law [OF rings(1)] run by (auto simp: worker_poll_def Let_def split: list.splits)
      from wf i t' show ?thesis
      proof (cases rule: worker_poll_cases)
        case (3 msg q)
        show ?thesis by (rule step [OF step_poll [OF i Polling t'] 3(4)]) (use 3(3) Polling in \<open>simp_all add: lane_work_def\<close>)
      qed (use run work out Polling in \<open>simp_all add: lane_work_def\<close>)
    next
      case (Executing msg)
      from execute_total [OF ok, of D "cm_command msg" "cm_ingress msg"] obtain t' where t': "worker_execute D i msg t = Inr t'"
        by (auto simp: worker_execute_def Let_def)
      then obtain res sh where
        eq: "t' = set_lane i (?l\<lparr>lane_worker := Publishing res, gh_handled := gh_handled ?l @ [msg],
          gh_results := gh_results ?l @ [res]\<rparr>) (t\<lparr>th_engine := sh\<rparr>)" by (rule worker_execute_cases)
      show ?thesis by (rule step [OF step_execute [OF i Executing t'] eq]) (use Executing in \<open>simp_all add: lane_work_def\<close>)
    next
      case (Publishing res)
      obtain t' where t': "worker_publish rv i res t = Inr t'"
        using ring.push_law [OF rings(2), of res] run by (auto simp: worker_publish_def Let_def)
      from wf i t' show ?thesis
      proof (cases rule: worker_publish_cases)
        case (2 q)
        show ?thesis by (rule step [OF step_publish [OF i Publishing t'] 2(4)]) (use 2(3) Publishing in \<open>simp_all add: lane_work_def\<close>)
      qed (use run out in simp_all)
    next
      case Exited
      with alive_lane [OF alive run i] show ?thesis by simp
    qed
  qed
qed

lemma progress:
  assumes wf: "wf_threaded t" and ok: "engines_ok (th_engine t)" and alive: "alive t" and run: "running t"
    and busy: "\<not> served t"
  shows "\<exists>t'. threaded_step D mv rv t t' \<and> work t' < work t \<and> keeps_lanes t t'"
proof (cases "\<exists>i < length (lanes t). lane_work (lanes t ! i) \<noteq> 0")
  case True
  with lane_progress [OF wf ok alive run] show ?thesis by blast
next
  case False
  then have zero: "\<forall>l \<in> set (lanes t). lane_work l = 0" by (metis in_set_conv_nth)
  then have "submitting t \<noteq> None" using busy by (auto simp: served_def work_def sum_list_nonneg_eq_0_iff split: if_splits)
  then obtain s msg where sm: "submitting t = Some (s, msg)" by auto
  with wf have s: "s < length (lanes t)" by (simp add: wf_threaded_def)
  with zero have empty: "ring_contents (in_q (lanes t ! s)) = []" by (simp add: lane_work_def del: ring_contents_length)
  obtain t' where t': "submit_push mv t = Inr t'"
    using ring.push_law [of "in_q (lanes t ! s)" msg] wf_lane_rings [OF wf s] by (auto simp: submit_push_def sm)
  from wf t' show ?thesis
  proof (cases rule: submit_push_cases)
    case (2 s' msg' q)
    let ?l = "(lanes t ! s)\<lparr>in_q := q\<rparr>"
    have eq: "t' = set_lane s ?l (t\<lparr>submitting := None\<rparr>)" and q: "ring_contents q = [msg]"
      using 2 sm empty by simp_all
    have "lane_work ?l \<le> 4" using zero s q by (simp add: lane_work_def)
    moreover have "sum_list (map lane_work ((lanes t)[s := ?l])) = lane_work ?l"
      using zero s by (simp add: map_update sum_list_update sum_list_nonneg_eq_0_iff)
    ultimately have "work t' < work t" by (simp add: eq work_def set_lane_def sm)
    moreover have "keeps_lanes t t'" unfolding eq by (rule keeps_set_lane) simp_all
    ultimately show ?thesis using step_push [OF t'] by blast
  qed (use sm empty in simp_all)
qed

section \<open>Reachable states\<close>

definition threaded_inv ::
    "'d doubles \<Rightarrow> (command_msg \<Rightarrow> command_msg) \<Rightarrow> (result_msg \<Rightarrow> result_msg) \<Rightarrow> threaded \<Rightarrow> bool" where
  "threaded_inv D mv rv t \<longleftrightarrow> wf_threaded t \<and> (keeps_ids mv rv \<longrightarrow> ids_flow t) \<and> contents_ok D t \<and> alive t \<and>
     (safe_limits (risk (th_engine t)) \<longrightarrow> engines_ok (th_engine t))"

lemma risk_step:
  assumes "wf_threaded t" "threaded_step D mv rv t t'"
  shows "risk (th_engine t') = risk (th_engine t)"
  using assms(2)
proof cases
  case (step_execute i msg)
  have "wf_sharded (th_engine t)" using assms(1) by (simp add: wf_threaded_def)
  from step_execute(3) show ?thesis
    by (rule worker_execute_cases) (auto simp: execute_local [OF \<open>wf_sharded (th_engine t)\<close> refl] rbind_eq_Inr)
qed (auto simp: start_engine_def map_workers_def stop_request_def submit_begin_def submit_push_def worker_poll_def
    worker_publish_def drain_pop_def rbind_eq_Inr Let_def split: option.splits if_splits)

lemma threaded_init_engines:
  assumes "threaded_init t" "safe_limits (risk (th_engine t))"
  shows "engines_ok (th_engine t)"
  using assms(1)
proof (rule threaded_init_facts)
  fix n root ack limits disk
  assume new: "new_sharded n root ack limits disk = Inr (th_engine t)" and wf: "wf_sharded (th_engine t)"
  from new have "replicate (nat n) empty_engine = engines (th_engine t)"
    by (auto simp: new_sharded_def rbind_eq_Inr split: if_splits dest!: arg_cong [where f = engines])
  from this [symmetric] wf assms(2) show ?thesis by (simp add: engines_ok_def empty_engine_wf)
qed

lemma threaded_init_alive: "threaded_init t \<Longrightarrow> alive t"
  by (erule threaded_init_facts) (simp add: alive_def)

interpretation pipeline: invariant_system threaded_init "threaded_step D mv rv" "threaded_inv D mv rv" for D mv rv
proof
  show "threaded_inv D mv rv t" if "threaded_init t" for t
    using that
    by (simp add: threaded_inv_def threaded_init_wf threaded_init_ids threaded_init_contents threaded_init_alive
        threaded_init_engines)
  show "threaded_inv D mv rv t'" if "threaded_inv D mv rv t" "threaded_step D mv rv t t'" for t t'
    using that risk_step [of t D mv rv t']
    by (auto simp: threaded_inv_def intro: threaded_step_wf ids_flow_step contents_step alive_step engines_ok_step)
qed

lemma served_lane:
  assumes "served t" "i < length (lanes t)"
  shows "ring_contents (in_q (lanes t ! i)) = []" "ring_contents (out_q (lanes t ! i)) = []"
    "worker_ids (lane_worker (lanes t ! i)) = []" "worker_msgs (lane_worker (lanes t ! i)) = []"
    "worker_results (lane_worker (lanes t ! i)) = []" "pending_msgs t i = []"
proof -
  have "lane_work (lanes t ! i) = 0" "submitting t = None"
    using assms by (auto simp: served_def work_def sum_list_nonneg_eq_0_iff split: if_splits)
  then show "ring_contents (in_q (lanes t ! i)) = []" "ring_contents (out_q (lanes t ! i)) = []"
    "worker_ids (lane_worker (lanes t ! i)) = []" "worker_msgs (lane_worker (lanes t ! i)) = []"
    "worker_results (lane_worker (lanes t ! i)) = []" "pending_msgs t i = []"
    by (auto simp: lane_work_def pending_msgs_def simp del: ring_contents_length split: option.splits)
      (cases "lane_worker (lanes t ! i)"; simp)+
qed

lemma drains:
  assumes "threaded_inv D mv rv t" "running t" "safe_limits (risk (th_engine t))"
  shows "\<exists>t'. (threaded_step D mv rv)\<^sup>*\<^sup>* t t' \<and> served t' \<and> keeps_lanes t t' \<and> threaded_inv D mv rv t'"
  using assms
proof (induction "work t" arbitrary: t rule: less_induct)
  case less
  show ?case
  proof (cases "served t")
    case True
    with less.prems(1) show ?thesis by (auto simp: keeps_lanes_def)
  next
    case False
    with progress [of t D mv rv] less.prems obtain u where
      u: "threaded_step D mv rv t u" "work u < work t" "keeps_lanes t u" by (auto simp: threaded_inv_def)
    have "threaded_inv D mv rv u" by (rule pipeline.inv_step [OF less.prems(1) u(1)])
    moreover have "running u" using u(3) less.prems(2) by (simp add: keeps_lanes_def)
    moreover have "safe_limits (risk (th_engine u))"
      using risk_step [OF _ u(1)] less.prems by (simp add: threaded_inv_def)
    ultimately obtain t' where "(threaded_step D mv rv)\<^sup>*\<^sup>* u t'" "served t'" "keeps_lanes u t'" "threaded_inv D mv rv t'"
      using less.hyps [OF u(2)] by blast
    with u(1,3) show ?thesis by (auto simp: keeps_lanes_def intro: converse_rtranclp_into_rtranclp)
  qed
qed

section \<open>Properties\<close>


text \<open>C4: The threads compute what one thread would. As long as no push found its queue full, the worker of
  a shard has executed a prefix of the commands submitted to it, the state of the shard and the results are
  those of executing this prefix one after the other on the initial shard, and the results the consumer
  drained are among them in order. Once nothing is under way and no result was dropped by a stop, the drained
  results are the answers to all commands.\<close>

theorem pipeline_answers_in_order:
  assumes "reachable threaded_init (threaded_step D mv rv) t" "\<not> gh_retried t" "i < length (lanes t)"
  shows "let l = lanes t ! i; sh = th_engine t
    in prefix (gh_handled l) (gh_asked l) \<and>
      run_msgs D (risk sh) (gh_start l) (gh_handled l) = Inr (gh_results l, slice_of sh i) \<and>
      subseq (gh_drained l) (gh_results l) \<and> (\<not> gh_dropped l \<longrightarrow> prefix (gh_drained l) (gh_results l)) \<and>
      (served t \<and> \<not> gh_dropped l \<longrightarrow> run_msgs D (risk sh) (gh_start l) (gh_asked l) = Inr (gh_drained l, slice_of sh i))"
proof -
  let ?l = "lanes t ! i"
  have content: "lane_content D (th_engine t) i ?l (pending_msgs t i)"
    using pipeline.reachable_inv [OF assms(1)] assms(2,3) by (simp add: threaded_inv_def contents_ok_def)
  have "prefix (gh_handled ?l) (lane_commands ?l (pending_msgs t i))" "prefix (gh_drained ?l) (lane_results ?l)"
    by (simp_all add: lane_commands_def lane_results_def)
  moreover from this(2) content have "subseq (gh_drained ?l) (gh_results ?l)"
    by (auto simp: lane_content_def intro: subseq_order.trans prefix_imp_subseq)
  moreover have "gh_handled ?l = gh_asked ?l \<and> (\<not> gh_dropped ?l \<longrightarrow> gh_drained ?l = gh_results ?l)" if "served t"
    using content served_lane [OF that assms(3)] by (simp add: lane_content_def lane_commands_def lane_results_def)
  ultimately show ?thesis using content by (auto simp: Let_def lane_content_def)
qed


section \<open>A sample run\<close>

definition sample_cm :: command_msg where
  "sample_cm = \<lparr>cm_command = CCancel \<lparr>co_symbol = [], co_order_id = 0\<rparr>, cm_ingress = None, cm_correlation = 0\<rparr>"

definition sample_rm :: result_msg where
  "sample_rm = \<lparr>rm_correlation = 0, rm_events = [], rm_trades = []\<rparr>"

definition sample_lane :: "nat \<Rightarrow> lane" where
  "sample_lane i = \<lparr>in_q = \<lparr>spsc_capacity = 1, spsc_mask = 0, slots = [sample_cm], head = 0, tail = 0\<rparr>,
     out_q = \<lparr>spsc_capacity = 1, spsc_mask = 0, slots = [sample_rm], head = 0, tail = 0\<rparr>,
     lane_worker = Exited, gh_asked = [], gh_handled = [], gh_results = [], gh_drained = [], gh_dropped = False,
     gh_start = slice_of sample_sharded i\<rparr>"

definition sample_threaded :: threaded where
  "sample_threaded = \<lparr>th_engine = sample_sharded, lanes = [sample_lane 0, sample_lane 1], running = False,
     next_correlation = 0, submitting = None, gh_retried = False\<rparr>"

lemma sample_constructed:
  "new_sharded 2 ''d'' Async default_limits (\<lambda>_. (True, [], None)) = Inr sample_sharded"
  "new_threaded sample_cm sample_rm 1 sample_sharded = Some sample_threaded"
proof -
  show "new_sharded 2 ''d'' Async default_limits (\<lambda>_. (True, [], None)) = Inr sample_sharded"
    by (simp add: new_sharded_def sample_sharded_def sample_wal_def open_wal_def numeral_2_eq_2)
  have "round_up_pow2 1 = Some 1" unfolding round_up_pow2_def by (subst round_up_from.simps) simp
  then have "new_lane sample_cm sample_rm 1 (slice_of sample_sharded i) = Some (sample_lane i)" for i
    by (simp add: new_lane_def new_spsc_def sample_lane_def)
  then show "new_threaded sample_cm sample_rm 1 sample_sharded = Some sample_threaded"
    by (simp add: new_threaded_def sample_threaded_def sample_sharded_def upt_rec)
qed

lemma sample_threaded_reachable: "reachable threaded_init (threaded_step D mv rv) sample_threaded"
proof (rule reachable.reachable_init)
  show "threaded_init sample_threaded" unfolding threaded_init_def using sample_constructed
    by (intro exI [of _ sample_cm] exI [of _ sample_rm] exI [of _ 1] exI [of _ 2] exI [of _ "''d''"] exI [of _ Async]
        exI [of _ default_limits] exI [of _ "\<lambda>_. (True, [], None)"] exI [of _ sample_sharded]) simp
qed

lemma reachable_rtranclp: "step\<^sup>*\<^sup>* s t \<Longrightarrow> reachable init step s \<Longrightarrow> reachable init step t"
  by (induction rule: rtranclp_induct) (auto intro: reachable.reachable_step)

text \<open>One order submitted to the started pipeline.\<close>

definition sample_submitted :: threaded where
  "sample_submitted = submit_begin (CAdd first_order) None (start_engine sample_threaded)"

definition sample_msg :: command_msg where
  "sample_msg = \<lparr>cm_command = CAdd first_order, cm_ingress = None, cm_correlation = 1\<rparr>"

lemma sample_submitted_steps: "(threaded_step D mv rv)\<^sup>*\<^sup>* sample_threaded sample_submitted"
proof -
  have "workers_joined sample_threaded" by (simp add: workers_joined_def sample_threaded_def sample_lane_def)
  then have "threaded_step D mv rv sample_threaded (start_engine sample_threaded)" by (rule step_start)
  moreover have "threaded_step D mv rv (start_engine sample_threaded) sample_submitted"
    unfolding sample_submitted_def by (rule step_submit) (simp add: start_engine_def map_workers_def sample_threaded_def)
  ultimately show ?thesis by (blast intro: rtranclp.rtrancl_into_rtrancl)
qed

lemma sample_submitted_facts:
  "reachable threaded_init (threaded_step D mv rv) sample_submitted" "running sample_submitted" "\<not> gh_retried sample_submitted"
  "risk (th_engine sample_submitted) = default_limits" "shard sample_sharded ''X'' < length (lanes sample_submitted)"
  "gh_asked (lanes sample_submitted ! shard sample_sharded ''X'') = [sample_msg]"
  "\<not> gh_dropped (lanes sample_submitted ! shard sample_sharded ''X'')"
proof -
  show "reachable threaded_init (threaded_step D mv rv) sample_submitted"
    by (rule reachable_rtranclp [OF sample_submitted_steps sample_threaded_reachable])
  have lanes: "length (lanes (start_engine sample_threaded)) = 2" "th_engine (start_engine sample_threaded) = sample_sharded"
    "lanes (start_engine sample_threaded) = [(sample_lane 0)\<lparr>lane_worker := Polling\<rparr>, (sample_lane 1)\<lparr>lane_worker := Polling\<rparr>]"
    by (simp_all add: start_engine_def map_workers_def sample_threaded_def)
  have "shard sample_sharded ''X'' = 0 \<or> shard sample_sharded ''X'' = 1" using sample_shard [of "''X''"] by linarith
  with lanes show "running sample_submitted" "\<not> gh_retried sample_submitted"
    "risk (th_engine sample_submitted) = default_limits" "shard sample_sharded ''X'' < length (lanes sample_submitted)"
    "gh_asked (lanes sample_submitted ! shard sample_sharded ''X'') = [sample_msg]"
    "\<not> gh_dropped (lanes sample_submitted ! shard sample_sharded ''X'')"
    by (auto simp: sample_submitted_def submit_begin_def shard_of_def first_order_facts(3) sample_msg_def Let_def
        simp del: command_symbol.simps)
      (simp_all add: start_engine_def map_workers_def sample_threaded_def sample_sharded_def sample_lane_def)
qed

lemma sample_served:
  obtains t where "(threaded_step sample_doubles id id)\<^sup>*\<^sup>* sample_threaded t"
    "reachable threaded_init (threaded_step sample_doubles id id) t" "served t" "\<not> gh_retried t"
    "shard sample_sharded ''X'' < length (lanes t)" "gh_asked (lanes t ! shard sample_sharded ''X'') = [sample_msg]"
    "\<not> gh_dropped (lanes t ! shard sample_sharded ''X'')"
proof -
  note s = sample_submitted_facts(1) [of sample_doubles id id] sample_submitted_facts(2-)
  have "safe_limits (risk (th_engine sample_submitted))" using s(4) default_limits_safe by simp
  from drains [OF pipeline.reachable_inv [OF s(1)] s(2) this] obtain t where
    t: "(threaded_step sample_doubles id id)\<^sup>*\<^sup>* sample_submitted t" "served t" "keeps_lanes sample_submitted t" by blast
  show ?thesis
    by (rule that [of t])
      (use sample_submitted_steps [of sample_doubles id id] reachable_rtranclp [OF t(1) s(1)] t s
        keeps_lanes_nth [OF t(3)] keeps_lanes_length [OF t(3)] in \<open>simp_all add: keeps_lanes_def\<close>)
qed


theorem pipeline_answers_in_order_witness:
  "\<exists>t rs sl. reachable threaded_init (threaded_step sample_doubles id id) t \<and>
     run_msgs sample_doubles (risk (th_engine t)) (gh_start (lanes t ! shard sample_sharded ''X'')) [sample_msg] = Inr (rs, sl) \<and>
     gh_drained (lanes t ! shard sample_sharded ''X'') = rs"
proof -
  obtain t where t: "reachable threaded_init (threaded_step sample_doubles id id) t" "served t" "\<not> gh_retried t"
    "shard sample_sharded ''X'' < length (lanes t)" "gh_asked (lanes t ! shard sample_sharded ''X'') = [sample_msg]"
    "\<not> gh_dropped (lanes t ! shard sample_sharded ''X'')" by (rule sample_served)
  from pipeline_answers_in_order [OF t(1,3,4)] t show ?thesis by (auto simp: Let_def)
qed


section \<open>Full queues\<close>

text \<open>What moving from a command leaves where, as in the usual libraries, moving from a string empties it.\<close>

fun moved_command :: "command \<Rightarrow> command" where
  "moved_command (CAdd c) = CAdd (c\<lparr>ao_symbol := [], ao_participant_id := []\<rparr>)"
| "moved_command (CCancel c) = CCancel (c\<lparr>co_symbol := []\<rparr>)"
| "moved_command (CReplace c) = CReplace (c\<lparr>rp_symbol := []\<rparr>)"

definition moved_msg :: "command_msg \<Rightarrow> command_msg" where
  "moved_msg m = m\<lparr>cm_command := moved_command (cm_command m)\<rparr>"

definition cancel_msg :: "string \<Rightarrow> 64 word \<Rightarrow> command_msg" where
  "cancel_msg symb n = \<lparr>cm_command = CCancel \<lparr>co_symbol = symb, co_order_id = 1\<rparr>, cm_ingress = None, cm_correlation = n\<rparr>"

definition full_state ::
    "command_msg spsc \<Rightarrow> worker \<Rightarrow> command_msg list \<Rightarrow> bool \<Rightarrow> 64 word \<Rightarrow> (nat \<times> command_msg) option \<Rightarrow> bool \<Rightarrow> threaded" where
  "full_state q w asked run n sub retried =
     \<lparr>th_engine = sample_sharded,
      lanes = [(sample_lane 0)\<lparr>in_q := q, lane_worker := w, gh_asked := asked\<rparr>,
               (sample_lane 1)\<lparr>lane_worker := if run then Polling else Exited\<rparr>],
      running = run, next_correlation = n, submitting = sub, gh_retried = retried\<rparr>"

definition full_ring :: "command_msg \<Rightarrow> 64 word \<Rightarrow> 64 word \<Rightarrow> command_msg spsc" where
  "full_ring m h t = \<lparr>spsc_capacity = 1, spsc_mask = 0, slots = [m], head = h, tail = t\<rparr>"

lemmas full_defs = full_state_def full_ring_def sample_lane_def slot_of_def

lemma sample_shards: "shard sample_sharded ''A'' = 0" "shard sample_sharded [] = 1"
  by (simp_all add: shard_def sample_sharded_def fnv_step_def of_char_def)

lemma full_run:
  fixes D :: "'d doubles"
  defines "a \<equiv> cancel_msg ''A'' 1" and "b \<equiv> cancel_msg ''A'' 2" and "step \<equiv> threaded_step D moved_msg id"
  shows
    "step sample_threaded (full_state (full_ring sample_cm 0 0) Exited [a] False 1 (Some (0, a)) False)"
    "step (full_state (full_ring sample_cm 0 0) Exited [a] False 1 (Some (0, a)) False)
       (full_state (full_ring a 1 0) Exited [a] False 1 None False)"
    "step (full_state (full_ring a 1 0) Exited [a] False 1 None False)
       (full_state (full_ring a 1 0) Exited [a, b] False 2 (Some (0, b)) False)"
    "step (full_state (full_ring a 1 0) Exited [a, b] False 2 (Some (0, b)) False)
       (full_state (full_ring a 1 0) Exited [a, b] False 2 (Some (0, moved_msg b)) True)"
    "step (full_state (full_ring a 1 0) Exited [a, b] False 2 (Some (0, moved_msg b)) True)
       (full_state (full_ring a 1 0) Polling [a, b] True 2 (Some (0, moved_msg b)) True)"
    "step (full_state (full_ring a 1 0) Polling [a, b] True 2 (Some (0, moved_msg b)) True)
       (full_state (full_ring a 1 1) (Executing a) [a, b] True 2 (Some (0, moved_msg b)) True)"
    "step (full_state (full_ring a 1 1) (Executing a) [a, b] True 2 (Some (0, moved_msg b)) True)
       (full_state (full_ring (moved_msg b) 2 1) (Executing a) [a, b] True 2 None True)"
proof -
  let ?cancel = "CCancel \<lparr>co_symbol = ''A'', co_order_id = 1\<rparr>"
  show "step sample_threaded (full_state (full_ring sample_cm 0 0) Exited [a] False 1 (Some (0, a)) False)"
    using step_submit [of sample_threaded D moved_msg id ?cancel None]
    by (simp add: step_def submit_begin_def sample_threaded_def shard_of_def sample_shards a_def cancel_msg_def
        set_lane_def full_defs Let_def)
  show "step (full_state (full_ring sample_cm 0 0) Exited [a] False 1 (Some (0, a)) False)
      (full_state (full_ring a 1 0) Exited [a] False 1 None False)"
    unfolding step_def by (rule step_push) (simp add: submit_push_def spsc_push_def set_lane_def full_defs)
  show "step (full_state (full_ring a 1 0) Exited [a] False 1 None False)
      (full_state (full_ring a 1 0) Exited [a, b] False 2 (Some (0, b)) False)"
    using step_submit [of "full_state (full_ring a 1 0) Exited [a] False 1 None False" D moved_msg id ?cancel None]
    by (simp add: step_def submit_begin_def shard_of_def sample_shards b_def cancel_msg_def set_lane_def full_defs Let_def)
  show "step (full_state (full_ring a 1 0) Exited [a, b] False 2 (Some (0, b)) False)
      (full_state (full_ring a 1 0) Exited [a, b] False 2 (Some (0, moved_msg b)) True)"
    unfolding step_def by (rule step_push) (simp add: submit_push_def spsc_push_def full_defs)
  show "step (full_state (full_ring a 1 0) Exited [a, b] False 2 (Some (0, moved_msg b)) True)
      (full_state (full_ring a 1 0) Polling [a, b] True 2 (Some (0, moved_msg b)) True)"
    using step_start [of "full_state (full_ring a 1 0) Exited [a, b] False 2 (Some (0, moved_msg b)) True" D moved_msg id]
    by (simp add: step_def workers_joined_def start_engine_def map_workers_def full_defs)
  show "step (full_state (full_ring a 1 0) Polling [a, b] True 2 (Some (0, moved_msg b)) True)
      (full_state (full_ring a 1 1) (Executing a) [a, b] True 2 (Some (0, moved_msg b)) True)"
    unfolding step_def
    by (rule step_poll [of 0]) (simp_all add: worker_poll_def spsc_pop_def set_lane_def full_defs)
  show "step (full_state (full_ring a 1 1) (Executing a) [a, b] True 2 (Some (0, moved_msg b)) True)
      (full_state (full_ring (moved_msg b) 2 1) (Executing a) [a, b] True 2 None True)"
    unfolding step_def by (rule step_push) (simp add: submit_push_def spsc_push_def set_lane_def full_defs)
qed

text \<open>C36: A full queue spoils commands: \<open>push\<close> takes its argument by value, so the first refused push already
  moves the command away and the retry pushes what is left. With strings that are empty after a move, a
  reachable state has in the queue of shard 0 a command nobody submitted, without a symbol; the worker of shard
  0 will execute it on the engine of shard 1, which belongs to another thread.\<close>

theorem full_queue_spoils_command:
  "\<exists>t m. reachable threaded_init (threaded_step D moved_msg id) t \<and> keeps_ids moved_msg id \<and> running t \<and>
     ring_contents (in_q (lanes t ! 0)) = [m] \<and> m \<notin> set (gh_asked (lanes t ! 0)) \<and> shard_of t (cm_command m) = 1"
proof -
  let ?a = "cancel_msg ''A'' 1" and ?b = "cancel_msg ''A'' 2"
  let ?t = "full_state (full_ring (moved_msg ?b) 2 1) (Executing ?a) [?a, ?b] True 2 None True"
  have "reachable threaded_init (threaded_step D moved_msg id) ?t"
    using sample_threaded_reachable [of D moved_msg id] full_run [of D] by (meson reachable.reachable_step)
  moreover have "ring_contents (in_q (lanes ?t ! 0)) = [moved_msg ?b]"
    by (simp add: ring_contents_def ring_count_def full_defs)
  moreover have "shard_of ?t (cm_command (moved_msg ?b)) = 1" "moved_msg ?b \<notin> set (gh_asked (lanes ?t ! 0))" "running ?t"
    by (simp_all add: shard_of_def moved_msg_def cancel_msg_def full_state_def sample_shards)
  moreover have "keeps_ids moved_msg id" by (simp add: keeps_ids_def moved_msg_def)
  ultimately show ?thesis by blast
qed

section \<open>Draining\<close>

text \<open>\<open>drain\<close> returns: with the fuel of \<open>drain_queue\<close> it empties every queue and gives out the contents, queue
  after queue.\<close>

lemma drain_queue_all:
  assumes "ring_ok q" "ring_count q < n"
  shows "\<exists>q'. drain_queue n q out = Inr (out @ ring_contents q, q') \<and> ring_ok q' \<and> ring_contents q' = []"
  using assms
proof (induction n arbitrary: q out)
  case (Suc n)
  show ?case
  proof (cases "ring_contents q")
    case Nil
    with ring.pop_law [OF Suc.prems(1)] show ?thesis by auto
  next
    case (Cons x xs)
    with ring.pop_law [OF Suc.prems(1)] obtain q' where q': "spsc_pop q = Inr (Some x, q')" "ring_ok q'" "ring_contents q' = xs"
      by auto
    have "ring_count q' < n" using Suc.prems(2) Cons q'(3) by (metis ring_contents_length length_Cons Suc_less_eq)
    from Suc.IH [OF q'(2) this, of "out @ [x]"] q' Cons show ?thesis by auto
  qed
qed simp

lemma drain_all:
  assumes "\<forall>q \<in> set qs. ring_ok q"
  shows "\<exists>qs'. drain qs out = Inr (out @ concat (map ring_contents qs), qs') \<and> length qs' = length qs \<and>
    (\<forall>q \<in> set qs'. ring_ok q \<and> ring_contents q = [])"
  using assms
proof (induction qs arbitrary: out)
  case (Cons q qs)
  then have "ring_ok q" "ring_count q < Suc (length (slots q))" by (simp_all add: ring_ok_def)
  from drain_queue_all [OF this, of out] obtain q' where
    "drain_queue (Suc (length (slots q))) q out = Inr (out @ ring_contents q, q')" "ring_ok q'" "ring_contents q' = []" by blast
  with Cons.IH [of "out @ ring_contents q"] Cons.prems show ?case by (auto simp del: drain_queue.simps)
qed simp

end
