(* ===== verification/Crash_Recovery.thy ===== *)
theory Crash_Recovery
  imports Threaded_Contents
begin

text \<open>
  Crashes of the whole pipeline: the threads of \<open>include/threaded_engine.hpp\<close>, the shards of \<open>src/sharded.cpp\<close>,
  their logs and the matching engines together. Each executed command leaves at most one record in the log
  of its shard, and replaying the records of the first \<open>k\<close> commands gives the books after these commands
  (\<open>run_msgs_records\<close>). What a crash leaves of the log is therefore a state the shard has been in.
\<close>

section \<open>Ids that stay free\<close>

text \<open>The order ids a command brings into the books.\<close>

fun new_ids :: "command \<Rightarrow> int list" where
  "new_ids (CAdd c) = [ao_order_id c]"
| "new_ids (CCancel c) = []"
| "new_ids (CReplace c) = [rp_new_order_id c]"

lemma fresh_command_iff: "fresh_command Q c \<longleftrightarrow> (\<forall>k \<in> set (new_ids c). fresh Q k)"
  by (cases c) simp_all

lemma fresh_spec_add:
  assumes "fresh Q k" "ao_order_id cmd \<noteq> k"
  shows "fresh (fst (snd (spec_add cmd (Q, e)))) k"
proof -
  let ?s = "ao_symbol cmd" and ?osd = "opposite (ao_side cmd)"
  obtain q r where mq: "match_queue cmd (Q ?s ?osd) (accept_run cmd e) = (q, r)" by fastforce
  from match_queue_leaves [of "Q ?s ?osd" cmd "accept_run cmd e"] mq obtain gone where
    "leaves (Q ?s ?osd) gone q" by auto
  with assms(1) have fr: "fresh (set_queue ?s ?osd q Q) k" by (rule fresh_leaves)
  then have "fresh (fst (spec_rest cmd n (set_queue ?s ?osd q Q, f))) k" for n f
    using assms(2) by (fastforce simp: spec_rest_def fresh_def set_queue_apply resting_of_def Let_def split: if_splits)
  with fr assms(1) show ?thesis
    by (auto simp: spec_add_def mq Let_def split_beta)
qed

lemma fresh_spec_replace:
  assumes "fresh Q k" "rp_new_order_id cmd \<noteq> k"
  shows "fresh (fst (snd (spec_replace cmd (Q, e)))) k"
proof -
  let ?c = "spec_cancel \<lparr>co_symbol = rp_symbol cmd, co_order_id = rp_order_id cmd\<rparr> (Q, e)"
  obtain evs Q1 e1 where c: "?c = (evs, (Q1, e1))" by (cases ?c) auto
  have "fresh Q1 k" using fresh_cancel_queues [OF assms(1), of _ e] c by (metis snd_conv fst_conv)
  then have "fresh (fst (snd (spec_add (replacement cmd sd ord) (Q1, e1)))) k" for sd ord
    using assms(2) by (intro fresh_spec_add) (simp_all add: replacement_def)
  with assms(1) c show ?thesis
    by (auto simp: spec_replace_def spec_unknown_def split_beta Let_def split: option.splits)
qed

lemma fresh_execute:
  assumes "wf_engine e" "engine_execute c e = Inr (out, e')" "fresh (engine_queue e) k" "k \<notin> set (new_ids c)"
  shows "fresh (engine_queue e') k"
proof (cases c)
  case (CAdd cmd)
  with assms engine_add_view [of e cmd out e'] fresh_spec_add [of "engine_queue e" k cmd "forget e"] show ?thesis
    by (simp add: engine_execute_def view_pair)
next
  case (CCancel cmd)
  with assms obtain evs where "engine_cancel cmd e = Inr (evs, e')" by (auto simp: engine_execute_def rbind_eq_Inr)
  from engine_cancel_view [OF assms(1) this] fresh_cancel_queues [OF assms(3), of cmd "forget e"] show ?thesis
    by (simp add: view_pair)
next
  case (CReplace cmd)
  with assms engine_replace_view [of e cmd out e'] fresh_spec_replace [of "engine_queue e" k cmd "forget e"] show ?thesis
    by (simp add: engine_execute_def view_pair)
qed

section \<open>The records of a command\<close>

text \<open>Executing a command on a shard appends at most one record, exactly one when the command has no
  ingress number, and an engine similar to that of the shard stays similar when the record is applied to it.\<close>

definition follows :: "'d doubles \<Rightarrow> command \<Rightarrow> slice \<Rightarrow> slice \<Rightarrow> 'd json list \<Rightarrow> bool" where
  "follows D c sl sl' recs \<longleftrightarrow> length recs \<le> 1 \<and> sl_wal sl' = fold (wal_append D) recs (sl_wal sl) \<and>
     (\<forall>rec \<in> set recs. plain_json rec) \<and>
     (\<forall>k. fresh (engine_queue (sl_engine sl)) k \<longrightarrow> k \<notin> set (new_ids c) \<longrightarrow> fresh (engine_queue (sl_engine sl')) k) \<and>
     (\<forall>e. similar (sl_engine sl) e \<longrightarrow> (\<exists>e'. rfold (apply_record D) recs e = Inr e' \<and> similar (sl_engine sl') e'))"

lemma follows_run:
  fixes D :: "'d doubles"
  assumes "wf_engine (sl_engine sl)" "fits_command c" "fresh_command (engine_queue (sl_engine sl)) c"
    and "slice_run D c sl = Inr (out, sl')"
  shows "follows D c sl sl' [command_record c]"
proof -
  from assms(4) obtain e1 where e1: "engine_execute c (sl_engine sl) = Inr (out, e1)"
    "sl' = (slice_log D (command_record c) sl)\<lparr>sl_engine := e1\<rparr>" by (auto simp: slice_run_def rbind_eq_Inr)
  have "\<exists>e'. rfold (apply_record D) [command_record c] e = Inr e' \<and> similar e1 e'" if "similar (sl_engine sl) e" for e
    using similar_execute [OF that assms(3)] e1(1) by (auto simp: apply_command_record)
  moreover have "plain_json (command_record c :: 'd json)" by (rule plain_records(1) [OF assms(2)])
  ultimately show ?thesis
    using fresh_execute [OF assms(1) e1(1)] by (simp add: follows_def e1(2) slice_log_def)
qed

lemma follows_reject:
  assumes "slice_reject c reason sl = (ev, sl')"
  shows "follows D c sl sl' []"
proof -
  let ?e = "snd (engine_reject (command_symbol c) (command_order_id c) reason (sl_engine sl))"
  have "sl' = sl\<lparr>sl_engine := ?e\<rparr>" using assms by (simp add: slice_reject_def split_beta)
  moreover have "engine_queue ?e = engine_queue (sl_engine sl)" by (rule engine_queue_cong) (simp add: engine_reject_def)
  ultimately show ?thesis using similar_reject by (simp add: follows_def)
qed

lemma follows_checked:
  assumes "wf_engine (sl_engine sl)" "fits_command c" "fresh_command (engine_queue (sl_engine sl)) c"
    and run: "slice_checked D limits c sl = Inr (out, sl')"
  shows "\<exists>rec. follows D c sl sl' [rec]"
proof -
  have ran: ?thesis if "slice_run D c sl = Inr (out, sl')" using follows_run [OF assms(1-3) that] by blast
  show ?thesis
  proof (cases c)
    case (CAdd cmd)
    from run CAdd obtain reason where reason: "check_add limits cmd = Inr reason"
      by (auto simp: slice_checked_def rbind_eq_Inr)
    show ?thesis
    proof (cases reason)
      case None
      with run CAdd reason ran show ?thesis by (simp add: slice_checked_def)
    next
      case (Some r)
      obtain ev sl1 where rej: "slice_reject c r sl = (ev, sl1)" by fastforce
      with run CAdd reason Some have "sl' = slice_log D (reject_record cmd r) sl1" by (auto simp: slice_checked_def)
      with follows_reject [OF rej, of D] assms(2) CAdd show ?thesis
        by (intro exI [of _ "reject_record cmd r"])
          (auto simp: follows_def slice_log_def plain_records(2) apply_reject_record)
    qed
  qed (use run ran in \<open>simp_all add: slice_checked_def\<close>)
qed

lemma follows_execute:
  assumes "wf_engine (sl_engine sl)" "fits_command c" "fresh_command (engine_queue (sl_engine sl)) c"
    and run: "slice_execute D limits c ingress sl = Inr (out, sl')"
  shows "\<exists>recs. follows D c sl sl' recs \<and> (ingress = None \<longrightarrow> length recs = 1)"
proof (cases ingress)
  case None
  with run follows_checked [OF assms(1-3)] show ?thesis by (fastforce simp: slice_execute_def)
next
  case (Some n)
  show ?thesis
  proof (cases "n \<le> sl_last sl")
    case True
    obtain ev sl1 where rej: "slice_reject c ''OUT_OF_ORDER_INGRESS'' sl = (ev, sl1)" by fastforce
    with True run Some have "slice_reject c ''OUT_OF_ORDER_INGRESS'' sl = (ev, sl')" by (simp add: slice_execute_def)
    with Some follows_reject show ?thesis by blast
  next
    case False
    with run Some have "slice_checked D limits c (sl\<lparr>sl_last := n\<rparr>) = Inr (out, sl')" by (simp add: slice_execute_def)
    from follows_checked [OF _ assms(2) _ this] assms(1,3) obtain rec where "follows D c (sl\<lparr>sl_last := n\<rparr>) sl' [rec]" by auto
    then have "follows D c sl sl' [rec]" by (simp add: follows_def)
    with Some show ?thesis by blast
  qed
qed

section \<open>The records of a run\<close>

lemma run_msgs_records:
  assumes "run_msgs D limits sl ms = Inr (rs, sl')" "similar (sl_engine sl) e"
    and "\<forall>m \<in> set ms. fits_command (cm_command m)" "distinct (concat (map (\<lambda>m. new_ids (cm_command m)) ms))"
    and "\<forall>m \<in> set ms. fresh_command (engine_queue (sl_engine sl)) (cm_command m)"
  shows "\<exists>recss. length recss = length ms \<and> (\<forall>r \<in> set recss. length r \<le> 1) \<and>
    ((\<forall>m \<in> set ms. cm_ingress m = None) \<longrightarrow> (\<forall>r \<in> set recss. length r = 1)) \<and>
    sl_wal sl' = fold (wal_append D) (concat recss) (sl_wal sl) \<and> (\<forall>rec \<in> set (concat recss). plain_json rec) \<and>
    (\<forall>k. \<exists>rs1 sl1 e1. run_msgs D limits sl (take k ms) = Inr (rs1, sl1) \<and>
      rfold (apply_record D) (concat (take k recss)) e = Inr e1 \<and> similar (sl_engine sl1) e1)"
  using assms
proof (induction ms arbitrary: sl e rs)
  case Nil
  then show ?case by auto
next
  case (Cons m ms)
  from Cons.prems(1) obtain out sl1 rs1 where
    ex: "slice_execute D limits (cm_command m) (cm_ingress m) sl = Inr (out, sl1)" and
    rest: "run_msgs D limits sl1 ms = Inr (rs1, sl')" by (auto simp: rbind_eq_Inr)
  have "wf_engine (sl_engine sl)" using Cons.prems(2) by (simp add: similar_def ids_inv_def)
  from follows_execute [OF this _ _ ex] Cons.prems(3,5) obtain recs where
    recs: "follows D (cm_command m) sl sl1 recs" "cm_ingress m = None \<longrightarrow> length recs = 1" by auto
  then obtain e1 where e1: "rfold (apply_record D) recs e = Inr e1" "similar (sl_engine sl1) e1"
    using Cons.prems(2) by (auto simp: follows_def)
  have "\<forall>m' \<in> set ms. fresh_command (engine_queue (sl_engine sl1)) (cm_command m')"
    using recs(1) Cons.prems(4,5) unfolding follows_def fresh_command_iff by (fastforce simp: disjoint_iff)
  from Cons.IH [OF rest e1(2) _ _ this] Cons.prems(3,4) obtain recss where
    l: "length recss = length ms" "\<forall>r \<in> set recss. length r \<le> 1"
      "(\<forall>m \<in> set ms. cm_ingress m = None) \<longrightarrow> (\<forall>r \<in> set recss. length r = 1)"
      "sl_wal sl' = fold (wal_append D) (concat recss) (sl_wal sl1)" "\<forall>rec \<in> set (concat recss). plain_json rec" and
    k: "\<And>k. \<exists>rs1 sl2 e2. run_msgs D limits sl1 (take k ms) = Inr (rs1, sl2) \<and>
      rfold (apply_record D) (concat (take k recss)) e1 = Inr e2 \<and> similar (sl_engine sl2) e2" by auto
  have "\<exists>rs1 sl2 e2. run_msgs D limits sl (take k (m # ms)) = Inr (rs1, sl2) \<and>
      rfold (apply_record D) (concat (take k (recs # recss))) e = Inr e2 \<and> similar (sl_engine sl2) e2" for k
  proof (cases k)
    case 0
    with Cons.prems(2) show ?thesis by simp
  next
    case (Suc j)
    from k [of j] show ?thesis by (auto simp: Suc ex rfold_append e1(1))
  qed
  with l recs show ?case by (intro exI [of _ "recs # recss"]) (auto simp: follows_def)
qed

lemma take_concat_singles:
  assumes "\<forall>xs \<in> set xss. length xs \<le> 1"
  shows "\<exists>k. concat (take k xss) = take j (concat xss) \<and> ((\<forall>xs \<in> set xss. length xs = 1) \<longrightarrow> k = j)"
  using assms
proof (induction xss arbitrary: j)
  case Nil
  then show ?case by simp
next
  case (Cons xs xss)
  show ?case
  proof (cases xs)
    case Nil
    with Cons.IH [of j] Cons.prems obtain k where "concat (take k xss) = take j (concat xss)" by auto
    with Nil show ?thesis by (intro exI [of _ "Suc k"]) simp
  next
    case (Cons x ys)
    with Cons.prems have xs: "xs = [x]" by simp
    show ?thesis
    proof (cases j)
      case 0
      then show ?thesis by (intro exI [of _ 0]) simp
    next
      case (Suc i)
      with Cons.IH [of i] Cons.prems obtain k where
        "concat (take k xss) = take i (concat xss)" "(\<forall>xs \<in> set xss. length xs = 1) \<longrightarrow> k = i" by auto
      with Suc xs show ?thesis by (intro exI [of _ "Suc k"]) simp
    qed
  qed
qed

lemma concat_singles: "\<forall>xs \<in> set xss. length xs = 1 \<Longrightarrow> length (concat xss) = length xss"
  by (induction xss) simp_all

section \<open>A shard after a crash\<close>

definition new_shard :: "'d doubles \<Rightarrow> slice \<Rightarrow> bool" where
  "new_shard D sl \<longleftrightarrow> sl_engine sl = empty_engine \<and> wal_log D (sl_wal sl) [] [] \<and> snapshot_file (sl_wal sl) = None"

lemma empty_similar: "similar empty_engine empty_engine"
  using ids.inv_init [of empty_engine] by (simp add: similar_def engine_init_def)

lemma crashed_rebuild:
  assumes "snapshot_file w = None" "replay_commands D (after_crash n w) = Inr (recs, w1)"
  shows "rebuild D (after_crash n w) = rbind (rfold (apply_record D) recs empty_engine) (\<lambda>e. Inr (e, w1))"
  using assms by (simp add: rebuild_def read_snapshot_def after_crash_def)

lemma fold_append_file: "snapshot_file (fold (wal_append D) cs w) = snapshot_file w"
  by (induction cs arbitrary: w) simp_all

lemma wal_file_replay:
  assumes "wal_log D w f u"
  shows "replay_lines D (split_lines (wal_file w)) = Inr f"
proof -
  have "wal_file w = concat (map (wal_record D) f) @ []" and plain: "\<forall>c \<in> set f. plain_json c"
    using assms by (simp_all add: wal_log_def)
  then show ?thesis
    using replay_records [OF plain, of D "[]"] split_lines_records [OF plain, of D "[]"]
    by (simp add: split_lines_tail del: append_Nil2)
qed

text \<open>No torn record of the file has the checksum of the whole record.\<close>

definition file_tears_detected :: "'d doubles \<Rightarrow> wal_store \<Rightarrow> bool" where
  "file_tears_detected D w \<longleftrightarrow>
     (case replay_lines D (split_lines (wal_file w)) of Inl err \<Rightarrow> False | Inr recs \<Rightarrow> \<forall>rec \<in> set recs. tear_detected D rec)"

lemma run_survives_crash:
  assumes start: "new_shard D sl" and run: "run_msgs D limits sl ms = Inr (rs, sl')"
    and "\<forall>m \<in> set ms. fits_command (cm_command m)" "distinct (concat (map (\<lambda>m. new_ids (cm_command m)) ms))"
    and tears: "file_tears_detected D (sl_wal sl')"
    and synced: "wal_synced (sl_wal sl') \<le> n"
  shows "\<exists>k rs1 sl1 e w. run_msgs D limits sl (take k ms) = Inr (rs1, sl1) \<and>
    rebuild D (after_crash n (sl_wal sl')) = Inr (e, w) \<and> similar (sl_engine sl1) e \<and>
    ((wal_ack (sl_wal sl') = Fsync \<or> length (wal_file (sl_wal sl')) \<le> n) \<and> (\<forall>m \<in> set ms. cm_ingress m = None) \<longrightarrow>
      length ms \<le> k + 63)"
proof -
  let ?w = "sl_wal sl'"
  have s: "sl_engine sl = empty_engine" "wal_log D (sl_wal sl) [] []" "snapshot_file (sl_wal sl) = None"
    using start by (simp_all add: new_shard_def)
  have "fresh_command (engine_queue (sl_engine sl)) c" for c by (cases c) (simp_all add: s(1) fresh_def engine_queue_def)
  with run_msgs_records [OF run, of empty_engine] assms(3,4) obtain recss where
    r: "length recss = length ms" "\<forall>r \<in> set recss. length r \<le> 1"
      "(\<forall>m \<in> set ms. cm_ingress m = None) \<longrightarrow> (\<forall>r \<in> set recss. length r = 1)"
      "?w = fold (wal_append D) (concat recss) (sl_wal sl)" "\<forall>rec \<in> set (concat recss). plain_json rec" and
    k: "\<And>k. \<exists>rs1 sl1 e1. run_msgs D limits sl (take k ms) = Inr (rs1, sl1) \<and>
      rfold (apply_record D) (concat (take k recss)) empty_engine = Inr e1 \<and> similar (sl_engine sl1) e1"
    by (auto simp: s(1) empty_similar)
  from wal_log_appends [OF s(2) r(5)] r(4) obtain f u where log: "wal_log D ?w f u" "f @ u = concat recss" by auto
  have "\<forall>rec \<in> set f. tear_detected D rec" using tears by (simp add: file_tears_detected_def wal_file_replay [OF log(1)])
  from wal_log_crash [OF log(1) this, of n] obtain j where
    j: "replay_commands D (after_crash n ?w) = Inr (take j f, after_crash n ?w)"
      "length (wal_file ?w) \<le> n \<longrightarrow> length f \<le> j" by blast
  let ?j = "min j (length f)"
  have pre: "take j f = take ?j (concat recss)" unfolding log(2) [symmetric] by (auto simp: min_def)
  from take_concat_singles [OF r(2), of ?j] obtain i where
    i: "concat (take i recss) = take j f" "(\<forall>r \<in> set recss. length r = 1) \<longrightarrow> i = ?j" unfolding pre by blast
  from k [of i] obtain rs1 sl1 e1 where
    e1: "run_msgs D limits sl (take i ms) = Inr (rs1, sl1)" "rfold (apply_record D) (take j f) empty_engine = Inr e1"
      "similar (sl_engine sl1) e1" unfolding i(1) by blast
  have "rebuild D (after_crash n ?w) = Inr (e1, after_crash n ?w)"
    using crashed_rebuild [OF _ j(1)] e1(2) s(3) by (simp add: r(4) fold_append_file)
  moreover have "length ms \<le> i + 63"
    if "wal_ack ?w = Fsync \<or> length (wal_file ?w) \<le> n" "\<forall>m \<in> set ms. cm_ingress m = None"
  proof -
    have "length f \<le> j" using that(1) j(2) log(1) synced by (auto simp: wal_log_def)
    moreover have "length u \<le> 63" using log(1) by (simp add: wal_log_def commit_batch_def)
    moreover have "length (f @ u) = length ms" using concat_singles [of recss] r(1,3) that(2) by (simp add: log(2))
    ultimately show ?thesis using i(2) r(3) that(2) by simp
  qed
  ultimately show ?thesis using e1(1,3) by blast
qed

section \<open>The pipeline after a crash\<close>

text \<open>The pipeline constructed on an empty directory.\<close>

definition new_pipeline :: "threaded \<Rightarrow> bool" where
  "new_pipeline t \<longleftrightarrow> (\<exists>cm rm capacity n root ack limits sh. n < 2 ^ 31 \<and>
     new_sharded n root ack limits (\<lambda>_. (True, [], None)) = Inr sh \<and> new_threaded cm rm capacity sh = Some t)"

lemma new_pipeline_init: "new_pipeline t \<Longrightarrow> threaded_init t"
  unfolding new_pipeline_def threaded_init_def by blast

lemma reachable_mono: "reachable init step s \<Longrightarrow> (\<And>s. init s \<Longrightarrow> init' s) \<Longrightarrow> reachable init' step s"
  by (induction rule: reachable.induct) (auto intro: reachable.intros)

text \<open>The record of the state each lane started with is never changed.\<close>

definition new_starts :: "'d doubles \<Rightarrow> threaded \<Rightarrow> bool" where
  "new_starts D t \<longleftrightarrow> (\<forall>sl \<in> set (map gh_start (lanes t)). new_shard D sl)"

lemma starts_set_lane: "gh_start l = gh_start (lanes t ! i) \<Longrightarrow> map gh_start (lanes (set_lane i l t)) = map gh_start (lanes t)"
  by (simp add: set_lane_def map_update) (metis list_update_id map_update)

lemma starts_step: "threaded_step D mv rv t t' \<Longrightarrow> map gh_start (lanes t') = map gh_start (lanes t)"
  by (erule threaded_step.cases)
    (auto simp: start_engine_def map_workers_def stop_request_def submit_begin_def submit_push_def worker_poll_def
      worker_execute_def worker_publish_def drain_pop_def rbind_eq_Inr Let_def starts_set_lane split: option.splits if_splits)

lemma new_pipeline_starts:
  assumes "new_pipeline t"
  shows "new_starts D t"
proof -
  from assms obtain cm rm capacity n root ack limits sh where sh: "new_sharded n root ack limits (\<lambda>_. (True, [], None)) = Inr sh"
    "new_threaded cm rm capacity sh = Some t" unfolding new_pipeline_def by blast
  then obtain ws where ws: "open_wals root ack (\<lambda>_. (True, [], None)) [0..<nat n] = Inr ws"
    and sh': "sh = \<lparr>shard_count = n, engines = replicate (nat n) empty_engine, wals = ws, risk = limits,
      last_ingress_sequence = replicate (nat n) 0\<rparr>"
    by (auto simp: new_sharded_def rbind_eq_Inr split: if_splits)
  have "new_shard D (slice_of sh i)" if "i < nat n" for i
  proof -
    have "ws ! i \<in> set ws" using length_open_wals [OF ws] that by simp
    from open_wals_new [OF ws this, of D] that show ?thesis by (simp add: new_shard_def slice_of_def sh')
  qed
  moreover have "map gh_start (lanes t) = map (slice_of sh) [0..<nat n]"
    using sh(2) by (auto simp: new_threaded_def new_lane_def sh' Let_def split: if_splits option.splits)
  ultimately show ?thesis unfolding new_starts_def by auto
qed

interpretation starts: invariant_system new_pipeline "threaded_step D mv rv" "new_starts D" for D :: "'d doubles" and mv rv
proof
  show "new_starts D t" if "new_pipeline t" for t using that by (rule new_pipeline_starts)
  show "new_starts D t'" if "new_starts D t" "threaded_step D mv rv t t'" for t t'
    using that(1) by (simp only: new_starts_def starts_step [OF that(2)])
qed

section \<open>A sample run\<close>

lemma sample_threaded_new: "new_pipeline sample_threaded"
  unfolding new_pipeline_def using sample_constructed
  by (intro exI [of _ sample_cm] exI [of _ sample_rm] exI [of _ 1] exI [of _ 2] exI [of _ "''d''"] exI [of _ Async]
      exI [of _ default_limits] exI [of _ sample_sharded]) simp

lemma starts_steps: "(threaded_step D mv rv)\<^sup>*\<^sup>* t t' \<Longrightarrow> map gh_start (lanes t') = map gh_start (lanes t)"
  by (induction rule: rtranclp_induct) (simp_all add: starts_step)

lemma first_order_logged:
  assumes "slice_execute D limits (CAdd first_order) None (slice_of sample_sharded i) = Inr (out, sl)" "i < 2"
  shows "wal_file (sl_wal sl) = [] \<and> wal_synced (sl_wal sl) = 0"
  using assms
  by (auto simp: sample_slice slice_execute_def slice_checked_def slice_run_def slice_reject_def slice_log_def sample_wal_def
      wal_append_def commit_batch_def rbind_eq_Inr Let_def split_beta split: option.splits)

lemma sample_executed:
  obtains t where "reachable new_pipeline (threaded_step sample_doubles id id) t" "\<not> gh_retried t"
    "shard sample_sharded ''X'' < length (lanes t)" "gh_asked (lanes t ! shard sample_sharded ''X'') = [sample_msg]"
    "gh_handled (lanes t ! shard sample_sharded ''X'') = [sample_msg]"
    "wal_file (wals (th_engine t) ! shard sample_sharded ''X'') = []"
    "wal_synced (wals (th_engine t) ! shard sample_sharded ''X'') = 0"
proof -
  let ?s = "shard sample_sharded ''X''"
  obtain t where t: "(threaded_step sample_doubles id id)\<^sup>*\<^sup>* sample_threaded t"
    "reachable threaded_init (threaded_step sample_doubles id id) t" "served t" "\<not> gh_retried t"
    "?s < length (lanes t)" "gh_asked (lanes t ! ?s) = [sample_msg]" by (rule sample_served)
  have content: "lane_content sample_doubles (th_engine t) ?s (lanes t ! ?s) (pending_msgs t ?s)"
    using pipeline.reachable_inv [OF t(2)] t(4,5) by (simp add: threaded_inv_def contents_ok_def)
  then have handled: "gh_handled (lanes t ! ?s) = [sample_msg]"
    using t(6) served_lane [OF t(3,5)] by (simp add: lane_content_def lane_commands_def)
  have "map gh_start (lanes t) = [slice_of sample_sharded 0, slice_of sample_sharded 1]"
    unfolding starts_steps [OF t(1)] by (simp add: sample_threaded_def sample_lane_def)
  then have "gh_start (lanes t ! i) = slice_of sample_sharded i" if "i < 2" for i
    using that by (auto simp: less_2_cases_iff map_eq_Cons_conv)
  from this [OF sample_shard] obtain out where "slice_execute sample_doubles (risk (th_engine t)) (CAdd first_order) None (slice_of sample_sharded ?s) =
      Inr (out, slice_of (th_engine t) ?s)"
    using content unfolding lane_content_def handled by (simp add: sample_msg_def rbind_eq_Inr split_beta) blast
  from first_order_logged [OF this sample_shard] have
    "wal_file (wals (th_engine t) ! ?s) = []" "wal_synced (wals (th_engine t) ! ?s) = 0" by (simp_all add: slice_of_def)
  moreover have "reachable new_pipeline (threaded_step sample_doubles id id) t"
    by (rule reachable_rtranclp [OF t(1)], rule reachable.reachable_init, rule sample_threaded_new)
  ultimately show ?thesis using t(4-6) handled by (intro that)
qed

end
