(* ===== verification/Threaded_Capacity.thy ===== *)
theory Threaded_Capacity
  imports Threaded_Contents
begin

text \<open>
  Retries. A push is retried only when its queue is full, and that takes more commands to the shard than the
  queue has slots (\<open>few_commands_no_retry\<close>).
\<close>

text \<open>What no step changes or only extends: the size of the queues and the record of the submitted commands.\<close>

definition lane_extends :: "lane \<Rightarrow> lane \<Rightarrow> bool" where
  "lane_extends l l' \<longleftrightarrow> length (slots (in_q l')) = length (slots (in_q l)) \<and>
     length (slots (out_q l')) = length (slots (out_q l)) \<and> prefix (gh_asked l) (gh_asked l')"

lemma lane_extends_refl [simp]: "lane_extends l l"
  by (simp add: lane_extends_def)

definition lanes_extend :: "threaded \<Rightarrow> threaded \<Rightarrow> bool" where
  "lanes_extend t t' \<longleftrightarrow> list_all2 lane_extends (lanes t) (lanes t')"

lemma lanes_extend_set:
  assumes "lanes u = lanes t" "lane_extends (lanes t ! i) l"
  shows "lanes_extend t (set_lane i l u)"
  using assms
  by (cases "i < length (lanes t)") (auto simp: lanes_extend_def set_lane_def list_all2_conv_all_nth nth_list_update)

lemma lanes_extend_same [simp]:
  "lanes_extend t t" "lanes_extend t (t\<lparr>running := b\<rparr>)" "lanes_extend t (t\<lparr>submitting := x, gh_retried := b\<rparr>)"
  by (simp_all add: lanes_extend_def list_all2_conv_all_nth)

lemma push_slots: "spsc_push x q = Inr (ok, q') \<Longrightarrow> length (slots q') = length (slots q)"
  by (auto simp: spsc_push_def Let_def split: if_splits)

lemma pop_slots: "spsc_pop q = Inr (m, q') \<Longrightarrow> length (slots q') = length (slots q)"
  by (auto simp: spsc_pop_def Let_def split: if_splits)

lemma step_extends:
  assumes "threaded_step D mv rv t t'"
  shows "lanes_extend t t'"
  using assms
proof cases
  case step_start
  then show ?thesis
    by (auto simp: start_engine_def map_workers_def lanes_extend_def list_all2_conv_all_nth lane_extends_def)
qed (auto simp: stop_request_def submit_begin_def submit_push_def worker_poll_def worker_execute_def worker_publish_def
    drain_pop_def rbind_eq_Inr Let_def lanes_extend_set lane_extends_def push_slots pop_slots split: option.splits if_splits)

text \<open>Some shard was sent more commands than one of its queues has slots.\<close>

definition crowded :: "threaded \<Rightarrow> bool" where
  "crowded t \<longleftrightarrow> (\<exists>l \<in> set (lanes t). length (slots (in_q l)) < length (gh_asked l) \<or> length (slots (out_q l)) < length (gh_asked l))"

lemma crowdedI:
  "i < length (lanes t) \<Longrightarrow> length (slots (in_q (lanes t ! i))) < length (gh_asked (lanes t ! i)) \<or>
     length (slots (out_q (lanes t ! i))) < length (gh_asked (lanes t ! i)) \<Longrightarrow> crowded t"
  unfolding crowded_def by (metis nth_mem)

lemma crowded_extends:
  assumes "lanes_extend t t'" "crowded t"
  shows "crowded t'"
proof -
  from assms(2) obtain i where i: "i < length (lanes t)" "length (slots (in_q (lanes t ! i))) < length (gh_asked (lanes t ! i)) \<or>
      length (slots (out_q (lanes t ! i))) < length (gh_asked (lanes t ! i))"
    unfolding crowded_def by (metis in_set_conv_nth)
  then have "lane_extends (lanes t ! i) (lanes t' ! i)" "length (lanes t') = length (lanes t)"
    using assms(1) by (auto simp: lanes_extend_def list_all2_conv_all_nth)
  with i prefix_length_le [of "gh_asked (lanes t ! i)" "gh_asked (lanes t' ! i)"] show ?thesis
    by (intro crowdedI [of i]) (auto simp: lane_extends_def)
qed

lemma run_msgs_length: "run_msgs D limits sl ms = Inr (rs, sl') \<Longrightarrow> length rs = length ms"
  by (induction ms arbitrary: sl rs) (auto simp: rbind_eq_Inr)

lemma full_push:
  assumes "ring_ok q" "spsc_push x q = Inr (False, q')"
  shows "length (slots q) \<le> length (ring_contents q)"
  using spsc_push_cases(3) [OF assms] by simp

lemma refused_command_crowded:
  assumes content: "lane_content D (th_engine t) s (lanes t ! s) (pending_msgs t s)" and s: "s < length (lanes t)"
    and sub: "submitting t = Some (s, msg)" and wf: "wf_threaded t" and push: "spsc_push msg (in_q (lanes t ! s)) = Inr (False, q)"
  shows "crowded t"
proof -
  have "length (slots (in_q (lanes t ! s))) \<le> length (ring_contents (in_q (lanes t ! s)))"
    using full_push [OF _ push] wf_lane_rings [OF wf s] by blast
  moreover have "length (ring_contents (in_q (lanes t ! s)) @ [msg]) \<le> length (gh_asked (lanes t ! s))"
    using content sub by (auto simp: lane_content_def lane_commands_def pending_msgs_def dest!: arg_cong [where f = length])
  ultimately show ?thesis using s by (intro crowdedI [of s]) auto
qed

lemma refused_result_crowded:
  assumes content: "lane_content D (th_engine t) i (lanes t ! i) (pending_msgs t i)" and i: "i < length (lanes t)"
    and res: "lane_worker (lanes t ! i) = Publishing res" and wf: "wf_threaded t"
    and push: "spsc_push res (out_q (lanes t ! i)) = Inr (False, q)"
  shows "crowded t"
proof -
  let ?l = "lanes t ! i"
  have "length (slots (out_q ?l)) \<le> length (ring_contents (out_q ?l))"
    using full_push [OF _ push] wf_lane_rings [OF wf i] by blast
  also have "\<dots> < length (lane_results ?l)" using res by (simp add: lane_results_def)
  also have "\<dots> \<le> length (gh_results ?l)" using content by (auto simp: lane_content_def intro: list_emb_length)
  also have "\<dots> = length (gh_handled ?l)" using content by (auto simp: lane_content_def dest: run_msgs_length)
  also have "\<dots> \<le> length (gh_asked ?l)"
    using content by (auto simp: lane_content_def lane_commands_def dest!: arg_cong [where f = length])
  finally show ?thesis using i by (intro crowdedI [of i]) auto
qed

lemma retry_crowded:
  assumes inv: "threaded_inv D mv rv t" and step: "threaded_step D mv rv t t'" and "gh_retried t \<longrightarrow> crowded t" "gh_retried t'"
  shows "crowded t'"
proof (cases "gh_retried t")
  case True
  with assms(3) crowded_extends [OF step_extends [OF step]] show ?thesis by blast
next
  case False
  have content: "lane_content D (th_engine t) i (lanes t ! i) (pending_msgs t i)" if "i < length (lanes t)" for i
    using inv False that by (simp add: threaded_inv_def contents_ok_def)
  from inv have wf: "wf_threaded t" by (simp add: threaded_inv_def)
  from step have "crowded t"
  proof cases
    case step_push
    with False assms(4) obtain s msg ok q where sub: "submitting t = Some (s, msg)" "spsc_push msg (in_q (lanes t ! s)) = Inr (ok, q)"
      "t' = (if ok then set_lane s ((lanes t ! s)\<lparr>in_q := q\<rparr>) (t\<lparr>submitting := None\<rparr>)
        else t\<lparr>submitting := Some (s, mv msg), gh_retried := True\<rparr>)"
      by (auto simp: submit_push_def rbind_eq_Inr split: option.splits prod.splits)
    with False assms(4) have "spsc_push msg (in_q (lanes t ! s)) = Inr (False, q)" by (cases ok) simp_all
    note sub(1) this
    moreover from sub(1) wf have "s < length (lanes t)" by (auto simp: wf_threaded_def)
    ultimately show ?thesis using refused_command_crowded [OF content _ _ wf] by blast
  next
    case (step_publish i res)
    have "running t" using step_publish(3) False assms(4) by (cases "running t") (auto simp: worker_publish_def Let_def)
    with step_publish(3) obtain ok q where pub: "spsc_push res (out_q (lanes t ! i)) = Inr (ok, q)"
      "t' = (if ok then set_lane i ((lanes t ! i)\<lparr>out_q := q, lane_worker := Polling\<rparr>) t
        else set_lane i ((lanes t ! i)\<lparr>lane_worker := Publishing (rv res)\<rparr>) (t\<lparr>gh_retried := True\<rparr>))"
      by (auto simp: worker_publish_def rbind_eq_Inr Let_def)
    with False assms(4) have "spsc_push res (out_q (lanes t ! i)) = Inr (False, q)" by (cases ok) simp_all
    with step_publish show ?thesis using refused_result_crowded [OF content _ _ wf] by blast
  qed (use False assms(4) in \<open>auto simp: start_engine_def map_workers_def stop_request_def submit_begin_def worker_poll_def
      worker_execute_def drain_pop_def rbind_eq_Inr Let_def split: option.splits if_splits\<close>)
  with crowded_extends [OF step_extends [OF step]] show ?thesis by blast
qed

interpretation retries: invariant_system threaded_init "threaded_step D mv rv"
  "\<lambda>t. threaded_inv D mv rv t \<and> (gh_retried t \<longrightarrow> crowded t)" for D mv rv
proof
  show "threaded_inv D mv rv t \<and> (gh_retried t \<longrightarrow> crowded t)" if "threaded_init t" for t
    using pipeline.inv_init [OF that] that by (auto elim: threaded_init_facts)
  show "threaded_inv D mv rv t' \<and> (gh_retried t' \<longrightarrow> crowded t')"
    if "threaded_inv D mv rv t \<and> (gh_retried t \<longrightarrow> crowded t)" "threaded_step D mv rv t t'" for t t'
    using that pipeline.inv_step [of D mv rv t t'] retry_crowded [of D mv rv t t'] by blast
qed

lemma few_commands_no_retry:
  assumes "reachable threaded_init (threaded_step D mv rv) t"
    and "\<forall>l \<in> set (lanes t). length (gh_asked l) \<le> length (slots (in_q l)) \<and> length (gh_asked l) \<le> length (slots (out_q l))"
  shows "\<not> gh_retried t"
  using retries.reachable_inv [OF assms(1)] assms(2) by (fastforce simp: crowded_def)

end
