(* ===== verification/Object_Pool.thy ===== *)
theory Object_Pool
  imports ME_Prelude
begin

unbundle bit_operations_syntax

text \<open>
  The node pool of \<open>include/object_pool.hpp\<close>: blocks of one size carved from chunks, the free ones linked
  through their own first bytes.

  Memory is modelled byte by byte. A pointer in memory is eight bytes that remember the pointer and their
  place in it, so that a pointer can be read back only where all its bytes are still there: reading a link
  that a client has overwritten is an error, not a guess. Reading and writing a pointer outside the regions
  the global allocator has handed out, or at an address that is not a multiple of 8, is undefined in C++
  and is the error \<open>BadAccess\<close>.

  The global \<open>operator new\<close> is a parameter \<open>os\<close>: from the regions in use, a size and an alignment it chooses
  an address, or \<open>None\<close> when it throws \<open>std::bad_alloc\<close>. What the pool relies on is \<open>sound_new\<close>.
\<close>

section \<open>Memory\<close>

datatype mbyte = Raw "8 word" | PtrByte nat nat

type_synonym region = "nat \<times> nat"

record heap =
  bytes :: "nat \<Rightarrow> mbyte"
  regions :: "region list"

type_synonym system_new = "region list \<Rightarrow> nat \<Rightarrow> nat \<Rightarrow> nat option"

definition apart :: "region \<Rightarrow> region \<Rightarrow> bool" where
  "apart r q \<longleftrightarrow> fst r + max (snd r) 1 \<le> fst q \<or> fst q + max (snd q) 1 \<le> fst r"

fun regions_ok :: "region list \<Rightarrow> bool" where
  "regions_ok [] = True"
| "regions_ok (r # rs) \<longleftrightarrow> fst r \<noteq> 0 \<and> (\<forall>q \<in> set rs. apart r q) \<and> regions_ok rs"

definition sound_new :: "system_new \<Rightarrow> bool" where
  "sound_new os \<longleftrightarrow> (\<forall>rs sz align p. os rs sz align = Some p \<longrightarrow>
     p \<noteq> 0 \<and> align dvd p \<and> (\<forall>r \<in> set rs. apart (p, sz) r))"

definition in_region :: "nat \<Rightarrow> nat \<Rightarrow> heap \<Rightarrow> bool" where
  "in_region a n h \<longleftrightarrow> (\<exists>r \<in> set (regions h). fst r \<le> a \<and> a + n \<le> fst r + snd r)"

definition operator_new :: "system_new \<Rightarrow> nat \<Rightarrow> nat \<Rightarrow> heap \<Rightarrow> (nat \<times> heap) result" where
  "operator_new os sz align h =
     (case os (regions h) sz align of
        None \<Rightarrow> Inl (RuntimeError ''std::bad_alloc'')
      | Some p \<Rightarrow> Inr (p, h\<lparr>regions := (p, sz) # regions h\<rparr>))"

definition operator_delete :: "nat \<Rightarrow> heap \<Rightarrow> heap result" where
  "operator_delete p h =
     (if p = 0 then Inr h
      else if p \<in> fst ` set (regions h) then Inr (h\<lparr>regions := filter (\<lambda>r. fst r \<noteq> p) (regions h)\<rparr>)
      else Inl BadAccess)"

definition load_ptr :: "nat \<Rightarrow> heap \<Rightarrow> nat result" where
  "load_ptr a h =
     (case bytes h a of
        Raw _ \<Rightarrow> Inl BadAccess
      | PtrByte p _ \<Rightarrow>
          (if 8 dvd a \<and> in_region a 8 h \<and> (\<forall>k < 8. bytes h (a + k) = PtrByte p k) then Inr p else Inl BadAccess))"

definition store_ptr :: "nat \<Rightarrow> nat \<Rightarrow> heap \<Rightarrow> heap result" where
  "store_ptr a p h =
     (if 8 dvd a \<and> in_region a 8 h
      then Inr (h\<lparr>bytes := \<lambda>x. if a \<le> x \<and> x < a + 8 then PtrByte p (x - a) else bytes h x\<rparr>)
      else Inl BadAccess)"

section \<open>PoolResource\<close>

record pool =
  block :: "64 word"
  pool_align :: "64 word"
  free_block :: nat
  chunks :: "nat list"

text \<open>\<open>alignof(std::max_align_t)\<close> is 16 on the supported platforms; the first allocation overwrites it.\<close>

definition new_pool :: pool where
  "new_pool = \<lparr>block = 0, pool_align = 16, free_block = 0, chunks = []\<rparr>"

definition blocks_per_chunk :: nat where
  "blocks_per_chunk = 1024"

definition block_size :: "64 word \<Rightarrow> 64 word \<Rightarrow> 64 word" where
  "block_size sz align = (let b = (if sz < 8 then 8 else sz) in (b + align - 1) AND NOT (align - 1))"

definition link_block :: "nat \<Rightarrow> nat \<Rightarrow> pool \<times> heap \<Rightarrow> (pool \<times> heap) result" where
  "link_block chunk i ph =
     (let (p, h) = ph; slot = chunk + unat (word_of_nat i * block p)
      in rbind (store_ptr slot (free_block p) h) (\<lambda>h1. Inr (p\<lparr>free_block := slot\<rparr>, h1)))"

definition grow :: "system_new \<Rightarrow> pool \<times> heap \<Rightarrow> (pool \<times> heap) result" where
  "grow os ph =
     (let (p, h) = ph
      in rbind (operator_new os (unat (block p * word_of_nat blocks_per_chunk)) (unat (pool_align p)) h) (\<lambda>(chunk, h1).
           rfold (link_block chunk) [0..<blocks_per_chunk] (p\<lparr>chunks := chunks p @ [chunk]\<rparr>, h1)))"

text \<open>Taking the first free block, after growing when there is none.\<close>

definition take_block :: "system_new \<Rightarrow> pool \<times> heap \<Rightarrow> (nat \<times> pool \<times> heap) result" where
  "take_block os ph =
     rbind (if free_block (fst ph) = 0 then grow os ph else Inr ph) (\<lambda>(p, h).
     rbind (load_ptr (free_block p) h) (\<lambda>next. Inr (free_block p, p\<lparr>free_block := next\<rparr>, h)))"

definition pool_allocate :: "system_new \<Rightarrow> 64 word \<Rightarrow> 64 word \<Rightarrow> pool \<times> heap \<Rightarrow> (nat \<times> pool \<times> heap) result" where
  "pool_allocate os sz align ph =
     (let (p, h) = ph; need = block_size sz align
      in if block p = 0 then take_block os (p\<lparr>block := need, pool_align := align\<rparr>, h)
         else if need \<noteq> block p \<or> align \<noteq> pool_align p
           then rbind (operator_new os (unat sz) (unat align) h) (\<lambda>(a, h1). Inr (a, p, h1))
         else take_block os ph)"

definition pool_deallocate :: "nat \<Rightarrow> 64 word \<Rightarrow> 64 word \<Rightarrow> pool \<times> heap \<Rightarrow> (pool \<times> heap) result" where
  "pool_deallocate a sz align ph =
     (let (p, h) = ph
      in if block p = 0 \<or> block_size sz align \<noteq> block p \<or> align \<noteq> pool_align p
           then rbind (operator_delete a h) (\<lambda>h1. Inr (p, h1))
         else rbind (store_ptr a (free_block p) h) (\<lambda>h1. Inr (p\<lparr>free_block := a\<rparr>, h1)))"

definition destroy_pool :: "pool \<times> heap \<Rightarrow> heap result" where
  "destroy_pool ph = rfold operator_delete (chunks (fst ph)) (snd ph)"

section \<open>PoolAllocator\<close>

text \<open>For a type of size \<open>sz\<close> and alignment \<open>align\<close>; only single objects come from the pool.\<close>

definition allocator_allocate ::
    "system_new \<Rightarrow> 64 word \<Rightarrow> 64 word \<Rightarrow> 64 word \<Rightarrow> pool \<times> heap \<Rightarrow> (nat \<times> pool \<times> heap) result" where
  "allocator_allocate os sz align n ph =
     (if n \<noteq> 1 then rbind (operator_new os (unat (n * sz)) (unat align) (snd ph)) (\<lambda>(a, h). Inr (a, fst ph, h))
      else pool_allocate os sz align ph)"

definition allocator_deallocate ::
    "64 word \<Rightarrow> 64 word \<Rightarrow> nat \<Rightarrow> 64 word \<Rightarrow> pool \<times> heap \<Rightarrow> (pool \<times> heap) result" where
  "allocator_deallocate sz align a n ph =
     (if n \<noteq> 1 then rbind (operator_delete a (snd ph)) (\<lambda>h. Inr (fst ph, h))
      else pool_deallocate a sz align ph)"

section \<open>A client of the pool\<close>

text \<open>A client allocates and frees objects and writes any bytes into the objects it holds.\<close>

type_synonym object = "nat \<times> 64 word \<times> 64 word"

record arena =
  ar_pool :: "pool \<times> heap"
  live :: "object list"

definition ok_request :: "64 word \<Rightarrow> 64 word \<Rightarrow> bool" where
  "ok_request sz align \<longleftrightarrow> (\<exists>k \<in> {3..<53}. align = 2 ^ k) \<and> unat sz + unat align \<le> 2 ^ 53"

inductive arena_step :: "system_new \<Rightarrow> arena \<Rightarrow> arena \<Rightarrow> bool" for os where
  step_allocate: "ok_request sz align \<Longrightarrow> pool_allocate os sz align (ar_pool s) = Inr (a, ph) \<Longrightarrow>
    arena_step os s \<lparr>ar_pool = ph, live = (a, sz, align) # live s\<rparr>"
| step_deallocate: "(a, sz, align) \<in> set (live s) \<Longrightarrow> pool_deallocate a sz align (ar_pool s) = Inr ph \<Longrightarrow>
    arena_step os s \<lparr>ar_pool = ph, live = remove1 (a, sz, align) (live s)\<rparr>"
| step_write: "(a, sz, align) \<in> set (live s) \<Longrightarrow> a \<le> x \<Longrightarrow> x < a + unat sz \<Longrightarrow> ar_pool s = (p, h) \<Longrightarrow>
    arena_step os s (s\<lparr>ar_pool := (p, h\<lparr>bytes := (bytes h)(x := v)\<rparr>)\<rparr>)"

definition arena_init :: "arena \<Rightarrow> bool" where
  "arena_init s \<longleftrightarrow> (\<exists>h. s = \<lparr>ar_pool = (new_pool, h), live = []\<rparr> \<and> regions_ok (regions h))"

end
