(* ===== verification/Object_Pool_Properties.thy ===== *)
theory Object_Pool_Properties
  imports Object_Pool "HOL-Library.Multiset"
begin

unbundle bit_operations_syntax

text \<open>
  The pool hands out memory safely. The free blocks form a list through memory, and free and live blocks
  together are exactly the blocks of all chunks (\<open>pool_inv\<close>). It follows that live objects never overlap,
  that following a link never reads anything but a link, and that chunks are added only when all blocks
  are in use.
\<close>

section \<open>Sizes\<close>

lemma unat_clear_low: "unat (x AND NOT (2 ^ k - 1) :: 64 word) = unat x div 2 ^ k * 2 ^ k"
proof -
  have lt: "unat x < 2 ^ 64" by (rule order_less_le_trans [OF unsigned_less]) simp
  have "x AND NOT (2 ^ k - 1) = push_bit k (drop_bit k x)"
    by (rule bit_word_eqI) (auto simp: mask_eq_exp_minus_1 [symmetric] bit_simps)
  then have "unat (x AND NOT (2 ^ k - 1)) = take_bit 64 (push_bit k (drop_bit k (unat x)))"
    using lt by (simp add: unsigned_push_bit_eq unsigned_drop_bit_eq take_bit_nat_eq_self)
  moreover have "unat x div 2 ^ k * 2 ^ k < 2 ^ 64"
    using lt div_times_less_eq_dividend [of "unat x" "2 ^ k"] by linarith
  ultimately show ?thesis by (simp add: push_bit_eq_mult drop_bit_eq_div take_bit_nat_eq_self)
qed

lemma round_up_bounds:
  assumes "0 < (a :: nat)"
  shows "m \<le> (m + a - 1) div a * a" "(m + a - 1) div a * a \<le> m + a"
  using div_mult_mod_eq [of "m + a - 1" a] mod_less_divisor [OF assms, of "m + a - 1"] by linarith+

lemma ok_request_align:
  assumes "ok_request sz align"
  obtains k where "k \<in> {3..<53}" "align = 2 ^ k" "unat align = 2 ^ k" "unat sz + 2 ^ k \<le> 2 ^ 53"
proof -
  from assms obtain k where k: "k \<in> {3..<53}" "align = 2 ^ k" "unat sz + unat align \<le> 2 ^ 53"
    by (auto simp: ok_request_def)
  then have "unat align = 2 ^ k" by (simp add: pow2_unat)
  with k show ?thesis by (auto intro: that)
qed

lemma unat_block_size:
  assumes "ok_request sz align"
  shows "unat (block_size sz align) = (max (unat sz) 8 + unat align - 1) div unat align * unat align"
proof -
  from assms obtain k where k: "k \<in> {3..<53}" "align = 2 ^ k" "unat align = 2 ^ k" "unat sz + 2 ^ k \<le> 2 ^ 53"
    by (rule ok_request_align)
  let ?b = "if sz < 8 then 8 else sz"
  have b: "unat ?b = max (unat sz) 8" by (auto simp: word_less_nat_alt max_def)
  have "(2 :: nat) ^ k \<le> 2 ^ 53" using k(1) by (intro power_increasing) auto
  then have "unat (?b + align - 1) = max (unat sz) 8 + unat align - 1"
    using k(3,4) b by (simp add: unat_word_ariths unat_sub_if' word_le_nat_alt)
  with k(2,3) show ?thesis by (simp add: block_size_def Let_def unat_clear_low)
qed

lemma block_size_facts:
  assumes "ok_request sz align"
  shows "unat sz \<le> unat (block_size sz align)" "8 \<le> unat (block_size sz align)" "unat align dvd unat (block_size sz align)"
    "unat (block_size sz align) * blocks_per_chunk < 2 ^ 64" "block_size sz align \<noteq> 0"
proof -
  from assms obtain k where k: "unat align = 2 ^ k" "unat sz + 2 ^ k \<le> 2 ^ 53" by (rule ok_request_align)
  let ?m = "max (unat sz) 8" and ?a = "2 ^ k :: nat" and ?n = "unat (block_size sz align)"
  have n: "?n = (?m + ?a - 1) div ?a * ?a" using unat_block_size [OF assms] k(1) by simp
  have "?m \<le> ?n" "?n \<le> ?m + ?a"
    unfolding n by (intro round_up_bounds; simp)+
  with k n show "unat sz \<le> ?n" "8 \<le> ?n" "unat align dvd ?n" by auto
  from \<open>?n \<le> ?m + ?a\<close> k(2) have "?n \<le> 2 ^ 53 + 8" by linarith
  then show "?n * blocks_per_chunk < 2 ^ 64" by (simp add: blocks_per_chunk_def)
  from \<open>8 \<le> ?n\<close> show "block_size sz align \<noteq> 0" by auto
qed

section \<open>Regions and pointers in memory\<close>

lemma apart_sym: "apart r q \<Longrightarrow> apart q r"
  by (auto simp: apart_def)

lemma regions_apart:
  assumes "regions_ok rs" "r \<in> set rs" "q \<in> set rs" "r \<noteq> q"
  shows "apart r q"
  using assms by (induction rs) (auto dest: apart_sym)

lemma regions_same:
  assumes "regions_ok rs" "r \<in> set rs" "q \<in> set rs" "fst r = fst q"
  shows "r = q"
  using regions_apart [OF assms(1-3)] assms(4) by (auto simp: apart_def)

lemma regions_nonnull: "regions_ok rs \<Longrightarrow> r \<in> set rs \<Longrightarrow> fst r \<noteq> 0"
  by (induction rs) auto

lemma regions_filter: "regions_ok rs \<Longrightarrow> regions_ok (filter P rs)"
  by (induction rs) auto

lemma load_ptr_cong:
  assumes "load_ptr a h = Inr p" "\<And>k. k < 8 \<Longrightarrow> bytes h' (a + k) = bytes h (a + k)" "in_region a 8 h \<Longrightarrow> in_region a 8 h'"
  shows "load_ptr a h' = Inr p"
  using assms(1,3) assms(2) [of 0] assms(2)
  by (auto simp: load_ptr_def split: mbyte.splits if_splits)

lemma store_ptr_cases:
  assumes "store_ptr a p h = Inr h'"
  shows "regions h' = regions h" "load_ptr a h' = Inr p" "x + 8 \<le> a \<or> a + 8 \<le> x \<Longrightarrow> load_ptr x h' = load_ptr x h"
  using assms by (auto simp: store_ptr_def load_ptr_def in_region_def split: if_splits mbyte.splits)

lemma store_ptr_returns: "8 dvd a \<Longrightarrow> in_region a 8 h \<Longrightarrow> \<exists>h'. store_ptr a p h = Inr h'"
  by (simp add: store_ptr_def)

section \<open>The free list\<close>

fun linked :: "heap \<Rightarrow> nat \<Rightarrow> nat list \<Rightarrow> bool" where
  "linked h a [] \<longleftrightarrow> a = 0"
| "linked h a (x # xs) \<longleftrightarrow> a = x \<and> x \<noteq> 0 \<and> (\<exists>n. load_ptr x h = Inr n \<and> linked h n xs)"

lemma linked_cong:
  assumes "linked h a fs" "\<And>x n. x \<in> set fs \<Longrightarrow> load_ptr x h = Inr n \<Longrightarrow> load_ptr x h' = Inr n"
  shows "linked h' a fs"
  using assms by (induction fs arbitrary: a) auto

lemma linked_null: "linked h 0 fs \<longleftrightarrow> fs = []"
  by (cases fs) auto

lemma linked_push:
  assumes "linked h f fs" "store_ptr a f h = Inr h'" "a \<noteq> 0" "\<forall>x \<in> set fs. x + 8 \<le> a \<or> a + 8 \<le> x"
  shows "linked h' a (a # fs)"
proof -
  note s = store_ptr_cases [OF assms(2)]
  have "linked h' f fs" by (rule linked_cong [OF assms(1)]) (use assms(4) s(3) in auto)
  with s(2) assms(3) show ?thesis by simp
qed

section \<open>Blocks\<close>

definition chunk_blocks :: "pool \<Rightarrow> nat \<Rightarrow> nat list" where
  "chunk_blocks p c = map (\<lambda>i. c + i * unat (block p)) [0..<blocks_per_chunk]"

definition all_blocks :: "pool \<Rightarrow> nat list" where
  "all_blocks p = concat (map (chunk_blocks p) (chunks p))"

definition pooled :: "pool \<Rightarrow> object \<Rightarrow> bool" where
  "pooled p ob \<longleftrightarrow> block_size (fst (snd ob)) (snd (snd ob)) = block p \<and> snd (snd ob) = pool_align p"

definition pool_shape :: "pool \<Rightarrow> heap \<Rightarrow> bool" where
  "pool_shape p h \<longleftrightarrow> regions_ok (regions h) \<and> 8 dvd unat (pool_align p) \<and> unat (pool_align p) dvd unat (block p) \<and>
     8 \<le> unat (block p) \<and> unat (block p) * blocks_per_chunk < 2 ^ 64 \<and> distinct (chunks p) \<and>
     (\<forall>c \<in> set (chunks p). (c, unat (block p) * blocks_per_chunk) \<in> set (regions h) \<and> unat (pool_align p) dvd c)"

definition outside :: "pool \<Rightarrow> heap \<Rightarrow> object list \<Rightarrow> bool" where
  "outside p h obs \<longleftrightarrow> distinct (map fst obs) \<and> (\<forall>(a, sz, align) \<in> set obs.
     (a, unat sz) \<in> set (regions h) \<and> a \<notin> set (chunks p) \<and> unat align dvd a)"

definition pool_inv :: "pool \<Rightarrow> heap \<Rightarrow> object list \<Rightarrow> bool" where
  "pool_inv p h obs \<longleftrightarrow> pool_shape p h \<and>
     (\<exists>fs. linked h (free_block p) fs \<and> mset fs + image_mset fst (filter_mset (pooled p) (mset obs)) = mset (all_blocks p)) \<and>
     outside p h (filter (\<lambda>ob. \<not> pooled p ob) obs) \<and> (\<forall>(a, sz, align) \<in> set obs. ok_request sz align)"

definition arena_inv :: "arena \<Rightarrow> bool" where
  "arena_inv s \<longleftrightarrow> (case ar_pool s of (p, h) \<Rightarrow>
     if block p = 0 then live s = [] \<and> chunks p = [] \<and> free_block p = 0 \<and> regions_ok (regions h) else pool_inv p h (live s))"

lemma chunk_blockE:
  assumes "x \<in> set (chunk_blocks p c)"
  obtains i where "i < blocks_per_chunk" "x = c + i * unat (block p)" "x + unat (block p) \<le> c + unat (block p) * blocks_per_chunk"
proof -
  from assms obtain i where i: "i < blocks_per_chunk" "x = c + i * unat (block p)" by (auto simp: chunk_blocks_def)
  then have "Suc i * unat (block p) \<le> blocks_per_chunk * unat (block p)" by (intro mult_le_mono1) simp
  with i show ?thesis by (intro that [of i]) (auto simp: mult.commute)
qed

lemma all_blockE:
  assumes "x \<in> set (all_blocks p)"
  obtains c where "c \<in> set (chunks p)" "x \<in> set (chunk_blocks p c)"
  using assms by (auto simp: all_blocks_def)

lemma block_facts:
  assumes shape: "pool_shape p h" and x: "x \<in> set (all_blocks p)"
  shows "x \<noteq> 0" "unat (pool_align p) dvd x" "in_region x (unat (block p)) h" "in_region x 8 h" "8 dvd x"
proof -
  from x obtain c where c: "c \<in> set (chunks p)" "x \<in> set (chunk_blocks p c)" by (rule all_blockE)
  from c(2) obtain i where i: "x = c + i * unat (block p)" "x + unat (block p) \<le> c + unat (block p) * blocks_per_chunk"
    by (rule chunk_blockE)
  have reg: "(c, unat (block p) * blocks_per_chunk) \<in> set (regions h)" "unat (pool_align p) dvd c"
    using shape c(1) by (auto simp: pool_shape_def)
  then have "c \<noteq> 0" using regions_nonnull [OF _ reg(1)] shape by (simp add: pool_shape_def)
  with i(1) show "x \<noteq> 0" by simp
  show dvd: "unat (pool_align p) dvd x" using shape reg(2) i(1) by (auto simp: pool_shape_def)
  show "8 dvd x" using shape dvd by (auto simp: pool_shape_def intro: dvd_trans)
  have in_reg: "in_region x n h" if "n \<le> unat (block p)" for n
    using reg(1) i that unfolding in_region_def by (intro bexI [OF _ reg(1)]) auto
  show "in_region x (unat (block p)) h" "in_region x 8 h"
    using shape by (auto intro!: in_reg simp: pool_shape_def)
qed

lemma blocks_apart:
  assumes shape: "pool_shape p h" and "x \<in> set (all_blocks p)" "y \<in> set (all_blocks p)" "x \<noteq> y"
  shows "x + unat (block p) \<le> y \<or> y + unat (block p) \<le> x"
proof -
  from assms(2) obtain c where c: "c \<in> set (chunks p)" "x \<in> set (chunk_blocks p c)" by (rule all_blockE)
  from assms(3) obtain d where d: "d \<in> set (chunks p)" "y \<in> set (chunk_blocks p d)" by (rule all_blockE)
  from c(2) obtain i where i: "x = c + i * unat (block p)" "x + unat (block p) \<le> c + unat (block p) * blocks_per_chunk"
    by (rule chunk_blockE)
  from d(2) obtain j where j: "y = d + j * unat (block p)" "y + unat (block p) \<le> d + unat (block p) * blocks_per_chunk"
    by (rule chunk_blockE)
  show ?thesis
  proof (cases "c = d")
    case True
    then have "i \<noteq> j" using assms(4) i(1) j(1) by auto
    then consider "Suc i \<le> j" | "Suc j \<le> i" by linarith
    then have "Suc i * unat (block p) \<le> j * unat (block p) \<or> Suc j * unat (block p) \<le> i * unat (block p)"
      by cases (blast intro: mult_le_mono1)+
    with True i(1) j(1) show ?thesis by auto
  next
    case False
    have "regions_ok (regions h)" "(c, unat (block p) * blocks_per_chunk) \<in> set (regions h)"
      "(d, unat (block p) * blocks_per_chunk) \<in> set (regions h)" using shape c(1) d(1) by (auto simp: pool_shape_def)
    from regions_apart [OF this] False have "apart (c, unat (block p) * blocks_per_chunk) (d, unat (block p) * blocks_per_chunk)" by simp
    then show ?thesis using i j by (auto simp: apart_def)
  qed
qed

lemma distinct_blocks:
  assumes shape: "pool_shape p h"
  shows "distinct (all_blocks p)"
proof -
  have pos: "0 < unat (block p)" using shape by (simp add: pool_shape_def)
  then have one: "distinct (chunk_blocks p c)" for c by (auto simp: chunk_blocks_def distinct_map inj_on_def)
  have two: "set (chunk_blocks p c) \<inter> set (chunk_blocks p d) = {}"
    if "c \<in> set (chunks p)" "d \<in> set (chunks p)" "c \<noteq> d" for c d
  proof -
    have "regions_ok (regions h)" "(c, unat (block p) * blocks_per_chunk) \<in> set (regions h)"
      "(d, unat (block p) * blocks_per_chunk) \<in> set (regions h)" using shape that by (auto simp: pool_shape_def)
    from regions_apart [OF this] that have "apart (c, unat (block p) * blocks_per_chunk) (d, unat (block p) * blocks_per_chunk)" by simp
    then show ?thesis using pos by (fastforce simp: apart_def elim!: chunk_blockE)
  qed
  have "distinct (concat (map (chunk_blocks p) cs))" if "distinct cs" "set cs \<subseteq> set (chunks p)" for cs
    using that by (induction cs) (auto simp: one dest: two)
  with shape show ?thesis by (simp add: all_blocks_def pool_shape_def)
qed

text \<open>The list survives every change of memory outside the free blocks.\<close>

lemma linked_keep:
  assumes "linked h f fs" "pool_shape p h'" "set fs \<subseteq> set (all_blocks p)"
    and "\<And>x k. x \<in> set fs \<Longrightarrow> k < 8 \<Longrightarrow> bytes h' (x + k) = bytes h (x + k)"
  shows "linked h' f fs"
proof (rule linked_cong [OF assms(1)])
  fix x n
  assume x: "x \<in> set fs" "load_ptr x h = Inr n"
  from x(1) assms(3) have "in_region x 8 h'" by (intro block_facts(4) [OF assms(2)]) blast
  with x show "load_ptr x h' = Inr n" by (intro load_ptr_cong [OF x(2)]) (auto simp: assms(4))
qed

lemma pool_invE:
  assumes "pool_inv p h obs"
  obtains fs where "pool_shape p h" "linked h (free_block p) fs"
    "mset fs + image_mset fst (filter_mset (pooled p) (mset obs)) = mset (all_blocks p)"
    "outside p h (filter (\<lambda>ob. \<not> pooled p ob) obs)" "\<forall>(a, sz, align) \<in> set obs. ok_request sz align"
    "set fs \<subseteq> set (all_blocks p)" "distinct fs" "\<And>ob. ob \<in> set obs \<Longrightarrow> pooled p ob \<Longrightarrow> fst ob \<in> set (all_blocks p) \<and> fst ob \<notin> set fs"
proof -
  from assms obtain fs where fs: "pool_shape p h" "linked h (free_block p) fs"
    "mset fs + image_mset fst (filter_mset (pooled p) (mset obs)) = mset (all_blocks p)"
    "outside p h (filter (\<lambda>ob. \<not> pooled p ob) obs)" "\<forall>(a, sz, align) \<in> set obs. ok_request sz align"
    by (auto simp: pool_inv_def)
  have parts: "mset (fs @ map fst (filter (pooled p) obs)) = mset (all_blocks p)" using fs(3) by simp
  then have "distinct (fs @ map fst (filter (pooled p) obs))"
    using distinct_blocks [OF fs(1)] by (metis mset_eq_imp_distinct_iff)
  moreover have "set (fs @ map fst (filter (pooled p) obs)) = set (all_blocks p)"
    using parts by (metis set_mset_mset)
  ultimately show ?thesis using fs by (intro that [of fs]) auto
qed

section \<open>Growing\<close>

lemma link_block_returns:
  assumes "8 dvd c + i * unat (block p)" "in_region (c + i * unat (block p)) 8 h" "i * unat (block p) < 2 ^ 64"
  shows "\<exists>h'. store_ptr (c + i * unat (block p)) (free_block p) h = Inr h' \<and>
    link_block c i (p, h) = Inr (p\<lparr>free_block := c + i * unat (block p)\<rparr>, h')"
proof -
  have "unat (word_of_nat i * block p) = i * unat (block p)"
    using assms(3) by (simp add: unat_word_ariths unsigned_of_nat take_bit_eq_mod mod_mult_left_eq)
  with store_ptr_returns [OF assms(1,2), of "free_block p"] show ?thesis by (auto simp: link_block_def)
qed

text \<open>The first \<open>n\<close> blocks of a new chunk, linked in front of an empty list.\<close>

lemma link_blocks:
  assumes "8 dvd c" "8 dvd unat (block p)" "8 \<le> unat (block p)" "c \<noteq> 0" "n \<le> blocks_per_chunk" "free_block p = 0"
    and chunk: "(c, unat (block p) * blocks_per_chunk) \<in> set (regions h)" "unat (block p) * blocks_per_chunk < 2 ^ 64"
  shows "\<exists>f h'. rfold (link_block c) [0..<n] (p, h) = Inr (p\<lparr>free_block := f\<rparr>, h') \<and> regions h' = regions h \<and>
    linked h' f (rev (map (\<lambda>i. c + i * unat (block p)) [0..<n]))"
  using assms(5)
proof (induction n)
  case 0
  have "p\<lparr>free_block := 0\<rparr> = p" using assms(6) by simp
  then show ?case by (intro exI [of _ 0] exI [of _ h]) simp
next
  case (Suc n)
  let ?B = "unat (block p)"
  from Suc obtain f h' where ih: "rfold (link_block c) [0..<n] (p, h) = Inr (p\<lparr>free_block := f\<rparr>, h')" "regions h' = regions h"
    "linked h' f (rev (map (\<lambda>i. c + i * ?B) [0..<n]))" by auto
  have "Suc n * ?B \<le> blocks_per_chunk * ?B" using Suc.prems by (intro mult_le_mono1)
  then have fit: "n * ?B + ?B \<le> ?B * blocks_per_chunk" by (simp add: mult.commute)
  then have "in_region (c + n * ?B) 8 h'"
    unfolding in_region_def ih(2) using assms(3) by (intro bexI [OF _ chunk(1)]) auto
  moreover have "8 dvd c + n * ?B" using assms(1,2) by simp
  moreover have "n * ?B < 2 ^ 64" using fit chunk(2) assms(3) by linarith
  ultimately obtain h2 where h2: "store_ptr (c + n * ?B) f h' = Inr h2"
    "link_block c n (p\<lparr>free_block := f\<rparr>, h') = Inr (p\<lparr>free_block := c + n * ?B\<rparr>, h2)"
    using link_block_returns [of c n "p\<lparr>free_block := f\<rparr>" h'] by auto
  have "i * ?B + 8 \<le> n * ?B" if "i < n" for i
  proof -
    have "Suc i * ?B \<le> n * ?B" using that by (intro mult_le_mono1) simp
    with assms(3) show ?thesis by simp
  qed
  then have "linked h2 (c + n * ?B) ((c + n * ?B) # rev (map (\<lambda>i. c + i * ?B) [0..<n]))"
    using assms(4) by (intro linked_push [OF ih(3) h2(1)]) auto
  with ih h2 store_ptr_cases(1) [OF h2(1)] show ?case
    by (intro exI [of _ "c + n * ?B"] exI [of _ h2]) (simp add: rfold_append)
qed

lemma grow_cases:
  assumes sound: "sound_new os" and shape: "pool_shape p h" and free: "free_block p = 0"
  obtains "grow os (p, h) = Inl (RuntimeError ''std::bad_alloc'')"
    "os (regions h) (unat (block p) * blocks_per_chunk) (unat (pool_align p)) = None"
  | c f h' where "grow os (p, h) = Inr (p\<lparr>chunks := chunks p @ [c], free_block := f\<rparr>, h')"
    "regions h' = (c, unat (block p) * blocks_per_chunk) # regions h" "pool_shape (p\<lparr>chunks := chunks p @ [c], free_block := f\<rparr>) h'"
    "linked h' f (rev (chunk_blocks p c))"
proof -
  let ?n = "unat (block p) * blocks_per_chunk"
  have size: "unat (block p * word_of_nat blocks_per_chunk) = ?n"
    using shape by (simp add: pool_shape_def unat_word_ariths blocks_per_chunk_def)
  show ?thesis
  proof (cases "os (regions h) ?n (unat (pool_align p))")
    case None
    show ?thesis by (rule that(1)) (use None in \<open>simp_all add: grow_def operator_new_def size\<close>)
  next
    case (Some c)
    let ?h = "h\<lparr>regions := (c, ?n) # regions h\<rparr>" and ?p = "p\<lparr>chunks := chunks p @ [c]\<rparr>"
    have c: "c \<noteq> 0" "unat (pool_align p) dvd c" "\<forall>r \<in> set (regions h). apart (c, ?n) r"
      using sound Some unfolding sound_new_def by blast+
    have "8 dvd c" "8 dvd unat (block p)" using shape c(2) by (auto simp: pool_shape_def intro: dvd_trans)
    with shape c(1) free link_blocks [of c ?p blocks_per_chunk ?h] obtain f h' where
      run: "rfold (link_block c) [0..<blocks_per_chunk] (?p, ?h) = Inr (?p\<lparr>free_block := f\<rparr>, h')"
        "regions h' = (c, ?n) # regions h" "linked h' f (rev (chunk_blocks p c))"
      by (auto simp: pool_shape_def chunk_blocks_def)
    have "c \<notin> set (chunks p)"
    proof
      assume "c \<in> set (chunks p)"
      then have "apart (c, ?n) (c, ?n)" using shape c(3) by (auto simp: pool_shape_def)
      then show False by (simp add: apart_def)
    qed
    then have "pool_shape (?p\<lparr>free_block := f\<rparr>) h'"
      using shape c by (auto simp: pool_shape_def run(2))
    with run show ?thesis
      by (intro that(2) [where c = c and f = f and h' = h']) (simp_all add: grow_def operator_new_def size Some)
  qed
qed

lemma pool_fields [simp]:
  "chunk_blocks (p\<lparr>chunks := cs\<rparr>) = chunk_blocks p" "chunk_blocks (p\<lparr>free_block := f\<rparr>) = chunk_blocks p"
  "pooled (p\<lparr>chunks := cs\<rparr>) = pooled p" "pooled (p\<lparr>free_block := f\<rparr>) = pooled p"
  "all_blocks (p\<lparr>free_block := f\<rparr>) = all_blocks p" "pool_shape (p\<lparr>free_block := f\<rparr>) h = pool_shape p h"
  "outside (p\<lparr>free_block := f\<rparr>) h obs = outside p h obs"
  by (simp_all add: pooled_def fun_eq_iff all_blocks_def chunk_blocks_def pool_shape_def outside_def cong: map_cong)

lemma all_blocks_grow:
  "all_blocks (p\<lparr>chunks := chunks p @ [c]\<rparr>) = all_blocks p @ chunk_blocks p c"
  by (simp add: all_blocks_def)

lemma grow_inv:
  assumes sound: "sound_new os" and inv: "pool_inv p h obs" and free: "free_block p = 0"
  obtains "grow os (p, h) = Inl (RuntimeError ''std::bad_alloc'')"
    "os (regions h) (unat (block p) * blocks_per_chunk) (unat (pool_align p)) = None"
  | c f h' where "grow os (p, h) = Inr (p\<lparr>chunks := chunks p @ [c], free_block := f\<rparr>, h')" "f \<noteq> 0"
    "pool_inv (p\<lparr>chunks := chunks p @ [c], free_block := f\<rparr>) h' obs"
proof -
  have shape: "pool_shape p h" and out: "outside p h (filter (\<lambda>ob. \<not> pooled p ob) obs)"
    and all: "image_mset fst (filter_mset (pooled p) (mset obs)) = mset (all_blocks p)"
    using inv free by (auto simp: pool_inv_def linked_null)
  show ?thesis
  proof (rule grow_cases [OF sound shape free])
    assume "grow os (p, h) = Inl (RuntimeError ''std::bad_alloc'')"
      "os (regions h) (unat (block p) * blocks_per_chunk) (unat (pool_align p)) = None"
    then show ?thesis by (rule that(1))
  next
    fix c f h'
    let ?p = "p\<lparr>chunks := chunks p @ [c], free_block := f\<rparr>"
    assume g: "grow os (p, h) = Inr (?p, h')" "regions h' = (c, unat (block p) * blocks_per_chunk) # regions h"
      "pool_shape ?p h'" "linked h' f (rev (chunk_blocks p c))"
    have "chunk_blocks p c \<noteq> []" by (simp add: chunk_blocks_def blocks_per_chunk_def)
    then have "f \<noteq> 0" using g(4) by (metis linked_null rev_is_Nil_conv)
    moreover have "\<forall>q \<in> set (regions h). c \<noteq> fst q"
      using g(2,3) by (auto simp: pool_shape_def apart_def)
    with out g(2) have "outside ?p h' (filter (\<lambda>ob. \<not> pooled p ob) obs)"
      by (fastforce simp: outside_def)
    ultimately have "pool_inv ?p h' obs"
      using g(3,4) inv all unfolding pool_inv_def
      by (intro conjI exI [of _ "rev (chunk_blocks p c)"]) (simp_all add: all_blocks_grow)
    with g(1) \<open>f \<noteq> 0\<close> show ?thesis by (rule that(2))
  qed
qed

section \<open>Allocation\<close>

lemma take_free_block:
  assumes inv: "pool_inv p h obs" and free: "free_block p \<noteq> 0" and new: "\<And>a. pooled p (a, sz, align)" "ok_request sz align"
  obtains nx where "load_ptr (free_block p) h = Inr nx" "pool_inv (p\<lparr>free_block := nx\<rparr>) h ((free_block p, sz, align) # obs)"
proof -
  from inv obtain fs where fs: "linked h (free_block p) fs"
    "mset fs + image_mset fst (filter_mset (pooled p) (mset obs)) = mset (all_blocks p)" by (auto simp: pool_inv_def)
  with free obtain nx gs where g: "fs = free_block p # gs" "load_ptr (free_block p) h = Inr nx" "linked h nx gs"
    by (cases fs) auto
  have "pool_inv (p\<lparr>free_block := nx\<rparr>) h ((free_block p, sz, align) # obs)"
    using inv new fs(2) g(3) unfolding pool_inv_def
    by (intro conjI exI [of _ gs]) (simp_all add: g(1))
  with g(2) show ?thesis by (rule that)
qed

lemma take_block_inv:
  assumes sound: "sound_new os" and inv: "pool_inv p h obs" and new: "\<And>a. pooled p (a, sz, align)" "ok_request sz align"
  obtains "take_block os (p, h) = Inl (RuntimeError ''std::bad_alloc'')" "free_block p = 0"
    "os (regions h) (unat (block p) * blocks_per_chunk) (unat (pool_align p)) = None"
  | a p' h' where "take_block os (p, h) = Inr (a, p', h')" "pool_inv p' h' ((a, sz, align) # obs)"
    "block p' = block p" "pool_align p' = pool_align p"
    "if free_block p = 0 then \<exists>c. chunks p' = chunks p @ [c] else a = free_block p \<and> chunks p' = chunks p \<and> h' = h"
proof (cases "free_block p = 0")
  case False
  from take_free_block [OF inv False new] obtain nx where "load_ptr (free_block p) h = Inr nx"
    "pool_inv (p\<lparr>free_block := nx\<rparr>) h ((free_block p, sz, align) # obs)" by blast
  with False show ?thesis
    by (intro that(2) [of "free_block p" "p\<lparr>free_block := nx\<rparr>" h]) (simp_all add: take_block_def)
next
  case True
  show ?thesis
  proof (rule grow_inv [OF sound inv True])
    assume "grow os (p, h) = Inl (RuntimeError ''std::bad_alloc'')"
      "os (regions h) (unat (block p) * blocks_per_chunk) (unat (pool_align p)) = None"
    then show ?thesis by (intro that(1)) (simp_all add: take_block_def True)
  next
    fix c f h'
    let ?p = "p\<lparr>chunks := chunks p @ [c], free_block := f\<rparr>"
    assume g: "grow os (p, h) = Inr (?p, h')" "f \<noteq> 0" "pool_inv ?p h' obs"
    have new': "\<And>a. pooled ?p (a, sz, align)" using new(1) by simp
    from take_free_block [OF g(3) _ new' new(2)] g(2) obtain nx where "load_ptr f h' = Inr nx"
      "pool_inv (?p\<lparr>free_block := nx\<rparr>) h' ((f, sz, align) # obs)" by auto
    with g show ?thesis
      by (intro that(2) [of f "?p\<lparr>free_block := nx\<rparr>" h']) (simp_all add: take_block_def True)
  qed
qed

lemma pool_inv_start:
  assumes "regions_ok (regions h)" "ok_request sz align" "chunks p = []" "free_block p = 0"
  shows "pool_inv (p\<lparr>block := block_size sz align, pool_align := align\<rparr>) h []"
proof -
  from assms(2) obtain k where k: "k \<in> {3..<53}" "unat align = 2 ^ k" by (rule ok_request_align)
  then have "(2 :: nat) ^ 3 dvd 2 ^ k" by (intro le_imp_power_dvd) simp
  then have "8 dvd unat align" by (simp add: k(2))
  with assms block_size_facts [OF assms(2)] show ?thesis
    by (simp add: pool_inv_def pool_shape_def outside_def all_blocks_def linked_null)
qed

text \<open>An allocation either fails because the system refuses memory, or adds a block.\<close>

lemma pool_align_pos: "pool_inv p h obs \<Longrightarrow> unat (pool_align p) \<noteq> 0"
proof
  assume "pool_inv p h obs" "unat (pool_align p) = 0"
  then show False by (auto simp: pool_inv_def pool_shape_def)
qed

lemma pool_allocate_inv:
  assumes sound: "sound_new os" and inv: "arena_inv \<lparr>ar_pool = (p, h), live = obs\<rparr>" and new: "ok_request sz align"
  obtains sz' al' where "pool_allocate os sz align (p, h) = Inl (RuntimeError ''std::bad_alloc'')"
    "os (regions h) sz' al' = None" "al' \<noteq> 0"
  | a p' h' where "pool_allocate os sz align (p, h) = Inr (a, p', h')" "pool_inv p' h' ((a, sz, align) # obs)"
    "if block p \<noteq> 0 \<and> (block_size sz align \<noteq> block p \<or> align \<noteq> pool_align p) then p' = p
     else if free_block p = 0 then \<exists>c. chunks p' = chunks p @ [c] else a = free_block p \<and> chunks p' = chunks p \<and> h' = h"
proof (cases "block p = 0")
  case True
  let ?p = "p\<lparr>block := block_size sz align, pool_align := align\<rparr>"
  have obs: "obs = []" and free: "free_block p = 0" and "pool_inv ?p h []"
    using inv True pool_inv_start [OF _ new, of h p] by (auto simp: arena_inv_def)
  note inv0 = this(3)
  have fits: "\<And>a. pooled ?p (a, sz, align)" by (simp add: pooled_def)
  show ?thesis
  proof (rule take_block_inv [OF sound inv0 fits new])
    assume "take_block os (?p, h) = Inl (RuntimeError ''std::bad_alloc'')"
      "os (regions h) (unat (block ?p) * blocks_per_chunk) (unat (pool_align ?p)) = None"
    then show ?thesis using True pool_align_pos [OF inv0]
      by (intro that(1) [where al' = "unat (pool_align ?p)"]) (simp_all add: pool_allocate_def)
  next
    fix a p' h'
    assume "take_block os (?p, h) = Inr (a, p', h')" "pool_inv p' h' [(a, sz, align)]"
      "if free_block ?p = 0 then \<exists>c. chunks p' = chunks ?p @ [c] else a = free_block ?p \<and> chunks p' = chunks ?p \<and> h' = h"
    then show ?thesis using True obs free by (intro that(2) [of a p' h']) (simp_all add: pool_allocate_def)
  qed
next
  case False
  with inv have inv0: "pool_inv p h obs" by (simp add: arena_inv_def)
  show ?thesis
  proof (cases "block_size sz align = block p \<and> align = pool_align p")
    case True
    then have eq: "block_size sz (pool_align p) = block p" "align = pool_align p" by auto
    then have fits: "\<And>a. pooled p (a, sz, align)" by (simp add: pooled_def)
    show ?thesis
    proof (rule take_block_inv [OF sound inv0 fits new])
      assume "take_block os (p, h) = Inl (RuntimeError ''std::bad_alloc'')"
        "os (regions h) (unat (block p) * blocks_per_chunk) (unat (pool_align p)) = None"
      then show ?thesis using eq False pool_align_pos [OF inv0]
        by (intro that(1) [where al' = "unat (pool_align p)"]) (simp_all add: pool_allocate_def)
    next
      fix a p' h'
      assume "take_block os (p, h) = Inr (a, p', h')" "pool_inv p' h' ((a, sz, align) # obs)"
        "if free_block p = 0 then \<exists>c. chunks p' = chunks p @ [c] else a = free_block p \<and> chunks p' = chunks p \<and> h' = h"
      then show ?thesis using eq False by (intro that(2) [of a p' h']) (simp_all add: pool_allocate_def)
    qed
  next
    case off: False
    then have not_pooled: "\<not> pooled p (a, sz, align)" for a by (simp add: pooled_def)
    show ?thesis
    proof (cases "os (regions h) (unat sz) (unat align)")
      case None
      moreover from new have "unat align \<noteq> 0" by (rule ok_request_align) simp
      ultimately show ?thesis using off False
        by (intro that(1) [where al' = "unat align"]) (auto simp: pool_allocate_def operator_new_def)
    next
      case (Some a)
      let ?h = "h\<lparr>regions := (a, unat sz) # regions h\<rparr>"
      have a: "a \<noteq> 0" "unat align dvd a" "\<forall>r \<in> set (regions h). apart (a, unat sz) r"
        using sound Some unfolding sound_new_def by blast+
      then have fresh: "\<forall>r \<in> set (regions h). fst r \<noteq> a" by (auto simp: apart_def)
      from inv0 show ?thesis
      proof (rule pool_invE)
        fix fs
        assume i: "pool_shape p h" "linked h (free_block p) fs"
          "mset fs + image_mset fst (filter_mset (pooled p) (mset obs)) = mset (all_blocks p)"
          "outside p h (filter (\<lambda>ob. \<not> pooled p ob) obs)" "\<forall>(a, sz, align) \<in> set obs. ok_request sz align"
          "set fs \<subseteq> set (all_blocks p)"
        have shape: "pool_shape p ?h" using i(1) a by (auto simp: pool_shape_def)
        have "linked ?h (free_block p) fs" by (rule linked_keep [OF i(2) shape i(6)]) simp
        moreover have "a \<notin> set (chunks p)" using i(1) fresh by (force simp: pool_shape_def)
        with i(4) a(2) fresh have "outside p ?h (filter (\<lambda>ob. \<not> pooled p ob) ((a, sz, align) # obs))"
          by (fastforce simp: outside_def not_pooled)
        ultimately have "pool_inv p ?h ((a, sz, align) # obs)"
          using shape i(3,5) new unfolding pool_inv_def
          by (intro conjI exI [of _ fs]) (simp_all add: not_pooled)
        then show ?thesis
          using off False Some by (intro that(2) [of a p ?h]) (auto simp: pool_allocate_def operator_new_def)
      qed
    qed
  qed
qed

section \<open>Deallocation and writes\<close>

lemma mset_remove1_image:
  assumes "x \<in> set xs"
  shows "image_mset f (mset xs) = add_mset (f x) (image_mset f (mset (remove1 x xs)))"
  using assms by (metis image_mset_add_mset mset_remove1 insert_DiffM set_mset_mset)

lemma outside_remove:
  assumes out: "outside p h obs" and ob: "(a, sz, align) \<in> set obs"
  shows "outside p (h\<lparr>regions := filter (\<lambda>r. fst r \<noteq> a) (regions h)\<rparr>) (remove1 (a, sz, align) obs)"
proof -
  let ?obs = "remove1 (a, sz, align) obs"
  have dist: "distinct obs" "inj_on fst (set obs)" using out by (auto simp: outside_def distinct_map)
  then have set: "set ?obs = set obs - {(a, sz, align)}" by simp
  have "fst ob' \<noteq> a" if "ob' \<in> set ?obs" for ob'
    using inj_onD [OF dist(2), of ob' "(a, sz, align)"] that ob unfolding set by auto
  then have kept: "(b, unat s) \<in> set (filter (\<lambda>r. fst r \<noteq> a) (regions h)) \<and> b \<notin> set (chunks p) \<and> unat l dvd b"
    if "(b, s, l) \<in> set ?obs" for b s l
    using that out set by (fastforce simp: outside_def)
  have "distinct (map fst ?obs)" using dist by (simp add: distinct_map set inj_on_diff)
  moreover have "\<forall>(b, s, l) \<in> set ?obs. (b, unat s) \<in> set (regions (h\<lparr>regions := filter (\<lambda>r. fst r \<noteq> a) (regions h)\<rparr>)) \<and>
      b \<notin> set (chunks p) \<and> unat l dvd b"
    using kept by (simp del: set_filter) blast
  ultimately show ?thesis unfolding outside_def by blast
qed

lemma pool_deallocate_inv:
  assumes inv: "pool_inv p h obs" and ob: "(a, sz, align) \<in> set obs"
  obtains p' h' where "pool_deallocate a sz align (p, h) = Inr (p', h')" "pool_inv p' h' (remove1 (a, sz, align) obs)"
    "block p' = block p" "pool_align p' = pool_align p" "chunks p' = chunks p"
    "if pooled p (a, sz, align) then free_block p' = a \<and> regions h' = regions h else p' = p"
  using inv
proof (rule pool_invE)
  let ?ob = "(a, sz, align)"
  fix fs
  assume i: "pool_shape p h" "linked h (free_block p) fs"
    "mset fs + image_mset fst (filter_mset (pooled p) (mset obs)) = mset (all_blocks p)"
    "outside p h (filter (\<lambda>ob. \<not> pooled p ob) obs)" "\<forall>(a, sz, align) \<in> set obs. ok_request sz align"
    "set fs \<subseteq> set (all_blocks p)"
    and used: "\<And>ob. ob \<in> set obs \<Longrightarrow> pooled p ob \<Longrightarrow> fst ob \<in> set (all_blocks p) \<and> fst ob \<notin> set fs"
  have pos: "block p \<noteq> 0" "8 \<le> unat (block p)" using i(1) by (auto simp: pool_shape_def)
  have reqs: "\<forall>(a, sz, align) \<in> set (remove1 ?ob obs). ok_request sz align"
    using i(5) by (meson notin_set_remove1)
  show ?thesis
  proof (cases "pooled p ?ob")
    case True
    then have x: "a \<in> set (all_blocks p)" "a \<notin> set fs" using used [OF ob] by auto
    from store_ptr_returns [OF block_facts(5,4) [OF i(1) x(1)]] obtain h' where h': "store_ptr a (free_block p) h = Inr h'"
      by blast
    have "\<forall>x \<in> set fs. x + 8 \<le> a \<or> a + 8 \<le> x"
    proof
      fix y
      assume "y \<in> set fs"
      with i(6) x blocks_apart [OF i(1), of y a] pos(2) show "y + 8 \<le> a \<or> a + 8 \<le> y" by fastforce
    qed
    from linked_push [OF i(2) h' block_facts(1) [OF i(1) x(1)] this] have link: "linked h' a (a # fs)" .
    have shape: "pool_shape p h'" using i(1) store_ptr_cases(1) [OF h'] by (simp add: pool_shape_def)
    have out: "outside p h' (filter (\<lambda>ob. \<not> pooled p ob) (remove1 ?ob obs))"
      using i(4) True store_ptr_cases(1) [OF h'] by (simp add: outside_def filter_remove1 remove1_idem)
    have "image_mset fst (filter_mset (pooled p) (mset obs)) =
        add_mset a (image_mset fst (filter_mset (pooled p) (mset (remove1 ?ob obs))))"
      using mset_remove1_image [of ?ob "filter (pooled p) obs" fst] ob True by (simp add: filter_remove1)
    with i(3) have blocks: "mset (a # fs) + image_mset fst (filter_mset (pooled p) (mset (remove1 ?ob obs))) = mset (all_blocks p)"
      by simp
    have "pool_inv (p\<lparr>free_block := a\<rparr>) h' (remove1 ?ob obs)"
      unfolding pool_inv_def using shape link blocks out reqs by (intro conjI exI [of _ "a # fs"]) simp_all
    with h' True pos(1) store_ptr_cases(1) [OF h'] show ?thesis
      by (intro that [of "p\<lparr>free_block := a\<rparr>" h']) (auto simp: pool_deallocate_def pooled_def)
  next
    case False
    let ?h = "h\<lparr>regions := filter (\<lambda>r. fst r \<noteq> a) (regions h)\<rparr>"
    have reg: "(a, unat sz) \<in> set (regions h)" "a \<notin> set (chunks p)" using i(4) ob False by (auto simp: outside_def)
    then have "a \<noteq> 0" using regions_nonnull [OF _ reg(1)] i(1) by (simp add: pool_shape_def)
    then have del: "operator_delete a h = Inr ?h" using reg(1) by (force simp: operator_delete_def)
    have shape: "pool_shape p ?h" using i(1) reg(2) by (auto simp: pool_shape_def regions_filter)
    have link: "linked ?h (free_block p) fs" by (rule linked_keep [OF i(2) shape i(6)]) simp
    have "outside p ?h (remove1 ?ob (filter (\<lambda>ob. \<not> pooled p ob) obs))"
      by (rule outside_remove [OF i(4)]) (use ob False in simp)
    then have out: "outside p ?h (filter (\<lambda>ob. \<not> pooled p ob) (remove1 ?ob obs))" by (simp add: filter_remove1)
    have blocks: "mset fs + image_mset fst (filter_mset (pooled p) (mset (remove1 ?ob obs))) = mset (all_blocks p)"
      using i(3) False by (simp flip: mset_filter add: filter_remove1 remove1_idem)
    have "pool_inv p ?h (remove1 ?ob obs)"
      unfolding pool_inv_def using shape link blocks out reqs by (intro conjI exI [of _ fs]) simp_all
    with del False pos(1) show ?thesis
      by (intro that [of p ?h]) (auto simp: pool_deallocate_def pooled_def)
  qed
qed

text \<open>The bytes of a live object lie apart from every free block.\<close>

lemma live_block_apart:
  assumes shape: "pool_shape p h" and out: "outside p h (filter (\<lambda>ob. \<not> pooled p ob) obs)"
    and ok: "\<forall>(a, sz, align) \<in> set obs. ok_request sz align" and ob: "(a, sz, align) \<in> set obs" and y: "y \<in> set (all_blocks p)"
    and ne: "pooled p (a, sz, align) \<Longrightarrow> a \<in> set (all_blocks p) \<and> a \<noteq> y"
  shows "a + max (unat sz) 1 \<le> y \<or> y + unat (block p) \<le> a"
proof (cases "pooled p (a, sz, align)")
  case True
  have "8 \<le> unat (block p)" using shape by (simp add: pool_shape_def)
  have "ok_request sz align" using ok ob by auto
  from block_size_facts(1) [OF this] True have "unat sz \<le> unat (block p)" by (auto simp: pooled_def)
  with blocks_apart [OF shape, of a y] ne [OF True] y \<open>8 \<le> unat (block p)\<close> show ?thesis by auto
next
  case False
  then have reg: "(a, unat sz) \<in> set (regions h)" "a \<notin> set (chunks p)" using out ob by (auto simp: outside_def)
  from y obtain c where c: "c \<in> set (chunks p)" "y \<in> set (chunk_blocks p c)" by (rule all_blockE)
  from c(2) obtain i where i: "y = c + i * unat (block p)" "y + unat (block p) \<le> c + unat (block p) * blocks_per_chunk"
    by (rule chunk_blockE)
  have "regions_ok (regions h)" "(c, unat (block p) * blocks_per_chunk) \<in> set (regions h)"
    using shape c(1) by (auto simp: pool_shape_def)
  from regions_apart [OF this(1) reg(1) this(2)] reg(2) c(1) have "apart (a, unat sz) (c, unat (block p) * blocks_per_chunk)" by auto
  with i show ?thesis by (auto simp: apart_def)
qed

lemma pool_write_inv:
  assumes inv: "pool_inv p h obs" and ob: "(a, sz, align) \<in> set obs" and x: "a \<le> x" "x < a + unat sz"
  shows "pool_inv p (h\<lparr>bytes := (bytes h)(x := v)\<rparr>) obs"
  using inv
proof (rule pool_invE)
  let ?h = "h\<lparr>bytes := (bytes h)(x := v)\<rparr>"
  fix fs
  assume i: "pool_shape p h" "linked h (free_block p) fs"
    "mset fs + image_mset fst (filter_mset (pooled p) (mset obs)) = mset (all_blocks p)"
    "outside p h (filter (\<lambda>ob. \<not> pooled p ob) obs)" "\<forall>(a, sz, align) \<in> set obs. ok_request sz align"
    "set fs \<subseteq> set (all_blocks p)"
    and used: "\<And>ob. ob \<in> set obs \<Longrightarrow> pooled p ob \<Longrightarrow> fst ob \<in> set (all_blocks p) \<and> fst ob \<notin> set fs"
  have shape: "pool_shape p ?h" using i(1) by (simp add: pool_shape_def)
  have "8 \<le> unat (block p)" using i(1) by (simp add: pool_shape_def)
  have keep: "y + k \<noteq> x" if "y \<in> set fs" "k < 8" for y k
  proof -
    have "y \<in> set (all_blocks p)" using that(1) i(6) by blast
    moreover have "a \<in> set (all_blocks p) \<and> a \<noteq> y" if "pooled p (a, sz, align)"
      using used [OF ob that] \<open>y \<in> set fs\<close> by auto
    ultimately have "a + max (unat sz) 1 \<le> y \<or> y + unat (block p) \<le> a" by (rule live_block_apart [OF i(1,4,5) ob])
    with \<open>8 \<le> unat (block p)\<close> x that(2) show ?thesis by linarith
  qed
  have "linked ?h (free_block p) fs" by (rule linked_keep [OF i(2) shape i(6)]) (use keep in simp)
  moreover have "outside p ?h (filter (\<lambda>ob. \<not> pooled p ob) obs)" using i(4) by (simp add: outside_def)
  ultimately show ?thesis using shape i(3,5) unfolding pool_inv_def by (intro conjI exI [of _ fs]) simp_all
qed

section \<open>All clients\<close>

lemma arena_busy:
  assumes "arena_inv s" "ar_pool s = (p, h)" "live s \<noteq> []"
  shows "pool_inv p h (live s)"
  using assms by (auto simp: arena_inv_def split: if_splits)

lemma pool_inv_arena: "pool_inv p h obs \<Longrightarrow> arena_inv \<lparr>ar_pool = (p, h), live = obs\<rparr>"
  by (auto simp: arena_inv_def pool_inv_def pool_shape_def)

lemma arena_step_inv:
  assumes sound: "sound_new os" and inv: "arena_inv s" and step: "arena_step os s s'"
  shows "arena_inv s'"
  using step
proof cases
  case (step_allocate sz align a ph)
  obtain p h where ph: "ar_pool s = (p, h)" by (cases "ar_pool s")
  with inv have "arena_inv \<lparr>ar_pool = (p, h), live = live s\<rparr>" by (simp add: arena_inv_def)
  from sound this step_allocate(2) show ?thesis
    by (rule pool_allocate_inv) (use step_allocate(1,3) ph in \<open>auto intro: pool_inv_arena\<close>)
next
  case (step_deallocate a sz align ph)
  obtain p h where ph: "ar_pool s = (p, h)" by (cases "ar_pool s")
  have "pool_inv p h (live s)" using step_deallocate(2) by (intro arena_busy [OF inv ph]) auto
  from this step_deallocate(2) obtain p' h' where "pool_deallocate a sz align (p, h) = Inr (p', h')"
    "pool_inv p' h' (remove1 (a, sz, align) (live s))" by (rule pool_deallocate_inv)
  with step_deallocate ph show ?thesis by (auto intro: pool_inv_arena)
next
  case (step_write a sz align x p h v)
  have "pool_inv p h (live s)" using step_write(2) by (intro arena_busy [OF inv step_write(5)]) auto
  from pool_inv_arena [OF pool_write_inv [OF this step_write(2,3,4)], of v] show ?thesis
    unfolding step_write(1) by (auto simp: arena_inv_def split: if_splits)
qed

interpretation arenas: invariant_system arena_init "arena_step os" "\<lambda>s. sound_new os \<longrightarrow> arena_inv s" for os
proof
  show "sound_new os \<longrightarrow> arena_inv s" if "arena_init s" for s
    using that by (auto simp: arena_init_def arena_inv_def new_pool_def)
  show "sound_new os \<longrightarrow> arena_inv s'" if "sound_new os \<longrightarrow> arena_inv s" "arena_step os s s'" for s s'
    using that arena_step_inv by blast
qed

text \<open>Live objects have different addresses.\<close>

lemma distinct_filters: "distinct xs \<longleftrightarrow> distinct (filter P xs) \<and> distinct (filter (\<lambda>x. \<not> P x) xs)"
proof
  show "distinct xs" if "distinct (filter P xs) \<and> distinct (filter (\<lambda>x. \<not> P x) xs)"
    using that by (induction xs) (auto split: if_splits simp del: distinct_filter)
qed simp

lemma distinct_mapD: "distinct (map f xs) \<Longrightarrow> distinct xs"
  by (simp add: distinct_map)

lemma live_distinct:
  assumes inv: "pool_inv p h obs"
  shows "distinct (map fst obs)"
  using inv
proof (rule pool_invE)
  fix fs
  assume i: "pool_shape p h" "mset fs + image_mset fst (filter_mset (pooled p) (mset obs)) = mset (all_blocks p)"
    "outside p h (filter (\<lambda>ob. \<not> pooled p ob) obs)" "\<forall>(a, sz, align) \<in> set obs. ok_request sz align"
    and used: "\<And>ob. ob \<in> set obs \<Longrightarrow> pooled p ob \<Longrightarrow> fst ob \<in> set (all_blocks p) \<and> fst ob \<notin> set fs"
  have "mset (fs @ map fst (filter (pooled p) obs)) = mset (all_blocks p)" using i(2) by simp
  then have "distinct (fs @ map fst (filter (pooled p) obs))" using distinct_blocks [OF i(1)] by (metis mset_eq_imp_distinct_iff)
  then have ins: "distinct (map fst (filter (pooled p) obs))" by simp
  have outs: "distinct (map fst (filter (\<lambda>ob. \<not> pooled p ob) obs))" using i(3) by (simp add: outside_def)
  have cross: "fst ob \<noteq> fst ob'" if "ob \<in> set obs" "ob' \<in> set obs" "pooled p ob" "\<not> pooled p ob'" for ob ob'
  proof -
    obtain a sz align where ob': "ob' = (a, sz, align)" by (cases ob')
    have y: "fst ob \<in> set (all_blocks p)" using used that by blast
    have "0 < unat (block p)" using i(1) by (simp add: pool_shape_def)
    with live_block_apart [OF i(1,3,4) that(2) [unfolded ob'] y] that(4) ob' show ?thesis by auto
  qed
  show ?thesis
  proof -
    have "distinct obs"
      by (rule distinct_filters [where P = "pooled p", THEN iffD2]) (use ins outs in \<open>blast dest: distinct_mapD\<close>)
    moreover have "inj_on fst (set obs)"
    proof (rule inj_onI)
      fix x y
      assume xy: "x \<in> set obs" "y \<in> set obs" "fst x = fst y"
      with cross [of x y] cross [of y x] have "pooled p x = pooled p y" by metis
      moreover have "inj_on fst {ob \<in> set obs. pooled p ob}" "inj_on fst {ob \<in> set obs. \<not> pooled p ob}"
        using ins outs by (simp_all add: distinct_map)
      ultimately show "x = y" using xy by (cases "pooled p x") (auto dest: inj_onD)
    qed
    ultimately show ?thesis by (simp add: distinct_map)
  qed
qed

text \<open>When the free list is empty, all blocks are in use.\<close>

lemma exhausted_blocks:
  assumes "pool_inv p h obs" "free_block p = 0"
  shows "length (filter (pooled p) obs) = blocks_per_chunk * length (chunks p)"
proof -
  from assms have "image_mset fst (filter_mset (pooled p) (mset obs)) = mset (all_blocks p)"
    by (auto simp: pool_inv_def linked_null)
  then have "size (filter_mset (pooled p) (mset obs)) = length (all_blocks p)" by (metis size_image_mset size_mset)
  moreover have "length (all_blocks p) = blocks_per_chunk * length (chunks p)"
    by (simp add: all_blocks_def length_concat comp_def chunk_blocks_def sum_list_triv)
  ultimately show ?thesis by (metis mset_filter size_mset)
qed

section \<open>A sample system allocator\<close>

text \<open>The lowest suitable address behind everything in use.\<close>

definition bump_new :: system_new where
  "bump_new rs sz align =
     (let e = foldr (\<lambda>r m. max (fst r + max (snd r) 1) m) rs 1
      in if align = 0 then None else Some ((e + align - 1) div align * align))"

lemma bump_new_sound: "sound_new bump_new"
  unfolding sound_new_def
proof (intro allI impI conjI ballI)
  fix rs :: "region list" and sz align p
  let ?e = "foldr (\<lambda>r m. max (fst r + max (snd r) 1) m) rs 1"
  assume "bump_new rs sz align = Some p"
  then have p: "0 < align" "p = (?e + align - 1) div align * align" by (auto simp: bump_new_def Let_def split: if_splits)
  have e: "1 \<le> ?e" "\<And>r. r \<in> set rs \<Longrightarrow> fst r + max (snd r) 1 \<le> ?e" by (induction rs) (auto simp: le_max_iff_disj)
  have "?e \<le> p" unfolding p(2) by (rule round_up_bounds) (rule p(1))
  with e(1) show "p \<noteq> 0" by simp
  show "align dvd p" unfolding p(2) by simp
  show "apart (p, sz) r" if "r \<in> set rs" for r
    using e(2) [OF that] \<open>?e \<le> p\<close> by (simp add: apart_def)
qed

lemma bump_new_returns: "align \<noteq> 0 \<Longrightarrow> bump_new rs sz align \<noteq> None"
  by (simp add: bump_new_def Let_def)

definition sample_arena :: arena where
  "sample_arena = \<lparr>ar_pool = (new_pool, \<lparr>bytes = (\<lambda>_. Raw 0), regions = []\<rparr>), live = []\<rparr>"

lemma sample_request: "ok_request 48 8"
  unfolding ok_request_def by (intro conjI bexI [of _ 3]) simp_all

lemma sample_arena_reachable: "reachable arena_init (arena_step os) sample_arena"
  by (rule reachable.reachable_init) (simp add: arena_init_def sample_arena_def)

text \<open>From any state one more object can be allocated.\<close>

lemma allocate_more:
  assumes "reachable arena_init (arena_step bump_new) s"
  shows "\<exists>a ph. reachable arena_init (arena_step bump_new) \<lparr>ar_pool = ph, live = (a, 48, 8) # live s\<rparr>"
proof -
  obtain p h where ph: "ar_pool s = (p, h)" by (cases "ar_pool s")
  have inv: "arena_inv s" using arenas.reachable_inv [OF assms] bump_new_sound by blast
  then have "arena_inv \<lparr>ar_pool = (p, h), live = live s\<rparr>" by (simp add: arena_inv_def ph)
  from bump_new_sound this sample_request obtain a p' h' where "pool_allocate bump_new 48 8 (p, h) = Inr (a, p', h')"
    by (rule pool_allocate_inv) (use bump_new_returns in blast)+
  then have "arena_step bump_new s \<lparr>ar_pool = (p', h'), live = (a, 48, 8) # live s\<rparr>"
    using step_allocate [OF sample_request] ph by simp
  with assms show ?thesis by (blast intro: reachable.reachable_step)
qed

lemma sample_pair:
  obtains s a b where "reachable arena_init (arena_step bump_new) s" "live s = [(b, 48, 8), (a, 48, 8)]"
proof -
  from allocate_more [OF sample_arena_reachable] obtain a ph where
    one: "reachable arena_init (arena_step bump_new) \<lparr>ar_pool = ph, live = [(a, 48, 8)]\<rparr>" by (auto simp: sample_arena_def)
  from allocate_more [OF one] obtain b ph' where
    "reachable arena_init (arena_step bump_new) \<lparr>ar_pool = ph', live = [(b, 48, 8), (a, 48, 8)]\<rparr>" by auto
  then show ?thesis by (rule that) simp
qed

section \<open>Properties\<close>





section \<open>Limits\<close>

text \<open>Destroying the pool returns all its chunks to the system and nothing else.\<close>

lemma destroy_pool_returns:
  assumes "pool_inv p h obs"
  shows "\<exists>h'. destroy_pool (p, h) = Inr h' \<and> regions h' = filter (\<lambda>r. fst r \<notin> set (chunks p)) (regions h)"
proof -
  have "\<exists>h'. rfold operator_delete cs h = Inr h' \<and> regions h' = filter (\<lambda>r. fst r \<notin> set cs) (regions h)"
    if "distinct cs" "\<forall>c \<in> set cs. c \<noteq> 0 \<and> c \<in> fst ` set (regions h)" for cs
    using that
  proof (induction cs arbitrary: h)
    case (Cons c cs)
    let ?h = "h\<lparr>regions := filter (\<lambda>r. fst r \<noteq> c) (regions h)\<rparr>"
    have "operator_delete c h = Inr ?h" using Cons.prems(2) by (simp add: operator_delete_def)
    moreover have "\<forall>d \<in> set cs. d \<noteq> 0 \<and> d \<in> fst ` set (regions ?h)" using Cons.prems by fastforce
    with Cons.IH [of ?h] Cons.prems(1) obtain h' where "rfold operator_delete cs ?h = Inr h'"
      "regions h' = filter (\<lambda>r. fst r \<notin> set cs) (regions ?h)" by auto
    ultimately show ?case by (auto intro: filter_cong)
  qed simp
  moreover have shape: "distinct (chunks p)" "regions_ok (regions h)"
      "\<And>c. c \<in> set (chunks p) \<Longrightarrow> (c, unat (block p) * blocks_per_chunk) \<in> set (regions h)"
    using assms by (simp_all add: pool_inv_def pool_shape_def)
  moreover have "c \<noteq> 0 \<and> c \<in> fst ` set (regions h)" if "c \<in> set (chunks p)" for c
    using regions_nonnull [OF shape(2) shape(3) [OF that]] shape(3) [OF that] by force
  ultimately show ?thesis by (simp add: destroy_pool_def)
qed

text \<open>The links need addresses that are multiples of 8, but the block size is rounded up to the alignment of
  the type only: for a type of 12 bytes with alignment 4 the very first allocation writes a link to an
  address no pointer may have.\<close>

lemma misaligned_links:
  assumes "os [] (12 * 1024) 4 = Some c" "regions h = []"
  shows "pool_allocate os 12 4 (new_pool, h) = Inl BadAccess"
proof -
  have lt: "0 < blocks_per_chunk" "Suc 0 < blocks_per_chunk" by (simp_all add: blocks_per_chunk_def)
  have loop: "[0..<blocks_per_chunk] = 0 # Suc 0 # [Suc (Suc 0)..<blocks_per_chunk]"
    using upt_conv_Cons [OF lt(1)] upt_conv_Cons [OF lt(2)] by simp
  have "block_size 12 4 = 12" "(word_of_nat blocks_per_chunk :: 64 word) = 1024"
    by (simp_all add: block_size_def blocks_per_chunk_def)
  then have start: "pool_allocate os 12 4 (new_pool, h) =
      rbind (rbind (rfold (link_block c) [0..<blocks_per_chunk] (\<lparr>block = 12, pool_align = 4, free_block = 0, chunks = [c]\<rparr>,
        h\<lparr>regions := [(c, 12288)]\<rparr>)) Inr) (\<lambda>(p, h). rbind (load_ptr (free_block p) h) (\<lambda>nx. Inr (free_block p, p\<lparr>free_block := nx\<rparr>, h)))"
    using assms by (simp add: pool_allocate_def take_block_def new_pool_def grow_def operator_new_def rbind_assoc)
  have "\<not> 8 dvd c + 12" if "8 dvd c" using that by presburger
  then show ?thesis unfolding start loop by (auto simp: link_block_def store_ptr_def rbind_eq_Inl)
qed

end
