(* ===== verification/Demo.thy ===== *)
theory Demo
  imports Crash_Recovery Threaded_Capacity Protocol_Frames "HOL-Library.List_Lexorder" "HOL-Library.Char_ord"
begin

text \<open>
  The demonstration program \<open>src/main.cpp\<close>: its scenarios on the parts of the system, with the text it prints.
  \<open>std::cout\<close> is the string a scenario returns; an exception is the error of the result type.
\<close>

section \<open>Printing\<close>

fun print_payload_value :: "payload_value \<Rightarrow> string" where
  "print_payload_value (PInt n) = print_int n"
| "print_payload_value (PStr s) = s"

text \<open>The payload is a \<open>std::map\<close>: it is printed in the order of its keys.\<close>

definition print_event :: "exec_event \<Rightarrow> string" where
  "print_event ev =
     ''  seq='' @ print_int (ev_sequence ev) @ '' '' @ event_type_to_string (ev_type ev) @ '' '' @ ev_symbol ev @
     concat (map (\<lambda>k. '' '' @ k @ ''='' @ print_payload_value (the (ev_payload ev k)))
       (sorted_list_of_set (dom (ev_payload ev)))) @ [CHR 0x0A]"

definition print_events :: "exec_event list \<Rightarrow> string" where
  "print_events events = concat (map print_event events)"

definition print_trades :: "trade list \<Rightarrow> string" where
  "print_trades trades =
     concat (map (\<lambda>t. ''  TRADE '' @ tr_symbol t @ '' px='' @ print_int (tr_price_ticks t) @ '' qty='' @
       print_int (tr_quantity t) @ '' buyer='' @ print_int (tr_buyer_order_id t) @ '' seller='' @
       print_int (tr_seller_order_id t) @ [CHR 0x0A]) trades)"

section \<open>The scenarios\<close>

definition demo_order :: "string \<Rightarrow> int \<Rightarrow> string \<Rightarrow> side \<Rightarrow> int \<Rightarrow> int \<Rightarrow> add_order" where
  "demo_order symb k who sd p q =
     \<lparr>ao_symbol = symb, ao_order_id = k, ao_participant_id = who, ao_side = sd, ao_price_ticks = p,
      ao_quantity = q, ao_time_in_force = GTC, ao_stp = StpNone\<rparr>"

definition demo_priority :: "string result" where
  "demo_priority =
     rbind (engine_add (demo_order ''NFLX'' 1 ''A'' Sell 100 5) empty_engine) (\<lambda>(_, e1).
     rbind (engine_add (demo_order ''NFLX'' 2 ''B'' Sell 100 5) e1) (\<lambda>(_, e2).
     rbind (engine_add (demo_order ''NFLX'' 3 ''C'' Buy 101 7) e2) (\<lambda>((events, trades), _).
     Inr (print_events events @ print_trades trades))))"

definition demo_ioc :: "string result" where
  "demo_ioc =
     rbind (engine_add (demo_order ''GM'' 1 ''S'' Sell 100 3) empty_engine) (\<lambda>(_, e1).
     rbind (engine_add ((demo_order ''GM'' 2 ''B'' Buy 100 10)\<lparr>ao_time_in_force := IOC\<rparr>) e1) (\<lambda>((events, trades), _).
     Inr (print_events events @ print_trades trades)))"

definition demo_fok :: "string result" where
  "demo_fok =
     rbind (engine_add (demo_order ''K'' 1 ''S'' Sell 50 4) empty_engine) (\<lambda>(_, e1).
     rbind (engine_add ((demo_order ''K'' 2 ''B'' Buy 50 5)\<lparr>ao_time_in_force := FOK\<rparr>) e1) (\<lambda>((events, _), _).
     Inr (print_events events)))"

definition demo_stp :: "string result" where
  "demo_stp =
     rbind (engine_add (demo_order ''NFLX'' 1 ''A'' Sell 100 5) empty_engine) (\<lambda>(_, e1).
     rbind (engine_add ((demo_order ''NFLX'' 2 ''A'' Buy 100 3)\<lparr>ao_stp := CancelBoth\<rparr>) e1) (\<lambda>((events, trades), _).
     Inr (print_events events @ print_trades trades)))"

definition demo_codec :: "string result" where
  "demo_codec =
     rbind (pack_add_order ((demo_order ''AAPL'' 42 ''DESK1'' Buy 1500 250)
       \<lparr>ao_time_in_force := IOC, ao_stp := CancelPassive\<rparr>)) (\<lambda>bytes.
     rbind (unpack_add_order bytes) (\<lambda>decoded.
     Inr (''  symbol='' @ ao_symbol decoded @ '' order_id='' @ print_int (ao_order_id decoded) @
       '' price='' @ print_int (ao_price_ticks decoded) @ '' qty='' @ print_int (ao_quantity decoded) @
       '' tif='' @ tif_to_string (ao_time_in_force decoded) @ '' stp='' @ stp_to_string (ao_stp decoded) @ [CHR 0x0A])))"

text \<open>\<open>disk\<close> is what the program finds in \<open>demo_data\<close>.\<close>

definition demo_sharded :: "'d doubles \<Rightarrow> disk \<Rightarrow> string result" where
  "demo_sharded D disk =
     rbind (new_sharded 4 ''demo_data'' Async default_limits disk) (\<lambda>sh.
     rbind (sharded_add D (demo_order ''AAPL'' 1 ''A'' Buy 100 5) None sh) (\<lambda>(_, sh1).
     rbind (sharded_add D (demo_order ''AAPL'' 2 ''B'' Sell 100 2) None sh1) (\<lambda>(_, sh2).
     rbind (sharded_add D (demo_order ''MSFT'' 3 ''C'' Buy 200 4) None sh2) (\<lambda>(_, sh3).
     let shard_id = shard_for_symbol sh3 ''AAPL''
     in rbind (replay_shard D shard_id sh3) (\<lambda>(rebuilt, _).
        Inr (''  AAPL routed to shard '' @ print_int shard_id @ ''; replayed best_bid='' @
          (case best_bid ''AAPL'' rebuilt of Some bid \<Rightarrow> print_int bid | None \<Rightarrow> ''none'') @ [CHR 0x0A]))))))"

text \<open>The pipeline scenario. \<open>batches\<close> are the results of the calls of \<open>drain\<close> that come before the deadline.\<close>

definition demo_commands :: "command list" where
  "demo_commands =
     [CAdd (demo_order ''AAPL'' 1 ''A'' Sell 100 5), CAdd (demo_order ''AAPL'' 2 ''B'' Sell 100 5),
      CAdd (demo_order ''AAPL'' 3 ''C'' Buy 101 7), CCancel \<lparr>co_symbol = ''AAPL'', co_order_id = 0\<rparr>]"

fun demo_collect :: "result_msg list list \<Rightarrow> result_msg list \<Rightarrow> result_msg list" where
  "demo_collect [] results = results"
| "demo_collect (batch # batches) results =
     (if length results < 4 then demo_collect batches (results @ batch) else results)"

definition demo_pipeline :: "result_msg list list \<Rightarrow> string" where
  "demo_pipeline batches =
     (let results = demo_collect batches [];
          filled = sum_list (map (\<lambda>r. sum_list (map tr_quantity (rm_trades r))) results)
      in ''  drained '' @ print_int (int (length results)) @ '' async results; aggressor filled '' @
         print_int filled @ [CHR 0x0A])"

text \<open>The pipeline as the program constructs it, with the default capacity of its queues.\<close>

definition demo_constructed :: "threaded \<Rightarrow> bool" where
  "demo_constructed t \<longleftrightarrow> (\<exists>cm rm sh. new_sharded 4 ''demo_data_threaded'' Async default_limits (\<lambda>_. (True, [], None)) = Inr sh \<and>
     new_threaded cm rm 4096 sh = Some t)"

text \<open>The calls of \<open>submit\<close>, as the shards have received them.\<close>

definition demo_submitted :: "threaded \<Rightarrow> bool" where
  "demo_submitted t \<longleftrightarrow> map (\<lambda>l. map (\<lambda>m. (cm_command m, cm_ingress m)) (gh_asked l)) (lanes t) =
     [[], map (\<lambda>c. (c, None)) demo_commands, [], []]"

definition demo_main :: "'d doubles \<Rightarrow> disk \<Rightarrow> result_msg list list \<Rightarrow> string result" where
  "demo_main D disk batches =
     rbind demo_priority (\<lambda>s1.
     rbind demo_ioc (\<lambda>s2.
     rbind demo_fok (\<lambda>s3.
     rbind demo_stp (\<lambda>s4.
     rbind demo_codec (\<lambda>s5.
     rbind (demo_sharded D disk) (\<lambda>s6.
     Inr (''=== Price-time priority + passive-price execution ==='' @ [CHR 0x0A] @ s1 @
       [CHR 0x0A] @ ''=== IOC remainder is cancelled ==='' @ [CHR 0x0A] @ s2 @
       [CHR 0x0A] @ ''=== FOK rejected when not fully fillable ==='' @ [CHR 0x0A] @ s3 @
       [CHR 0x0A] @ ''=== Self-trade prevention (CANCEL_BOTH) ==='' @ [CHR 0x0A] @ s4 @
       [CHR 0x0A] @ ''=== Binary add-order codec round trip ==='' @ [CHR 0x0A] @ s5 @
       [CHR 0x0A] @ ''=== Sharded engine with WAL replay ==='' @ [CHR 0x0A] @ s6 @
       [CHR 0x0A] @ ''=== Multi-core pipeline (SPSC queues + per-shard workers) ==='' @ [CHR 0x0A] @ demo_pipeline batches @
       [CHR 0x0A] @ ''Done.'' @ [CHR 0x0A])))))))"

section \<open>What the engine scenarios print\<close>

definition out_lines :: "string list \<Rightarrow> string" where
  "out_lines ls = concat (map (\<lambda>l. l @ [CHR 0x0A]) ls)"

lemmas print_eval = print_int_def print_nat.simps char_of_def bit_iff_odd print_events_def print_event_def
  print_trades_def out_lines_def

lemmas demo_eval = demo_order_def empty_engine_def engine_eval cancels_passive_def cancel_aggressor_event_def stp_stop_def

lemma demo_priority_output:
  "demo_priority = Inr (out_lines
     [''  seq=5 ACCEPTED NFLX order_id=3 qty=7'',
      ''  seq=6 EXECUTED NFLX aggressive_order_id=3 passive_order_id=1 price_ticks=100 qty=5'',
      ''  seq=7 EXECUTED NFLX aggressive_order_id=3 passive_order_id=2 price_ticks=100 qty=2'',
      ''  TRADE NFLX px=100 qty=5 buyer=3 seller=1'',
      ''  TRADE NFLX px=100 qty=2 buyer=3 seller=2''])"
  by (simp add: demo_priority_def demo_eval) (simp add: print_eval)

lemma demo_ioc_output:
  "demo_ioc = Inr (out_lines
     [''  seq=3 ACCEPTED GM order_id=2 qty=10'',
      ''  seq=4 EXECUTED GM aggressive_order_id=2 passive_order_id=1 price_ticks=100 qty=3'',
      ''  seq=5 CANCELLED GM order_id=2 remaining=7'',
      ''  TRADE GM px=100 qty=3 buyer=2 seller=1''])"
  by (simp add: demo_ioc_def demo_eval) (simp add: print_eval)

lemma demo_fok_output: "demo_fok = Inr (out_lines [''  seq=3 REJECTED K order_id=2 reason=FOK_UNFILLABLE''])"
  by (simp add: demo_fok_def demo_eval) (simp add: print_eval)

lemma demo_stp_output:
  "demo_stp = Inr (out_lines
     [''  seq=3 ACCEPTED NFLX order_id=2 qty=3'',
      ''  seq=4 CANCELLED NFLX order_id=1 reason=SELF_TRADE_PREVENTION remaining=5'',
      ''  seq=5 CANCELLED NFLX order_id=2 reason=SELF_TRADE_PREVENTION remaining=3''])"
  by (simp add: demo_stp_def demo_eval) (simp add: print_eval)

lemma demo_codec_output:
  "demo_codec = Inr (out_lines [''  symbol=AAPL order_id=42 price=1500 qty=250 tif=IOC stp=CANCEL_PASSIVE''])"
proof -
  let ?o = "(demo_order ''AAPL'' 42 ''DESK1'' Buy 1500 250)\<lparr>ao_time_in_force := IOC, ao_stp := CancelPassive\<rparr>"
  have "wire_add ?o" by (simp add: demo_order_def wire_add_def fits_ll_iff)
  with add_codec.pack_unpack [of ?o] obtain bytes where "pack_add_order ?o = Inr bytes" "unpack_add_order bytes = Inr ?o" by blast
  then show ?thesis by (simp add: demo_codec_def) (simp add: demo_order_def print_eval)
qed

section \<open>What the sharded scenario prints\<close>

lemma best_bid_similar:
  assumes "similar e e'"
  shows "best_bid s e' = best_bid s e"
proof -
  have wf: "wf_engine e" "wf_engine e'" using assms by (simp_all add: similar_def ids_inv_def)
  have "cores (engine_queue e) s Buy = cores (engine_queue e') s Buy" using assms by (simp add: similar_def)
  then show ?thesis
    by (cases "engine_queue e s Buy"; cases "engine_queue e' s Buy")
      (auto simp: best_bid_hd [OF wf(1)] best_bid_hd [OF wf(2)] cores_def queue_core_def order_core_def
        dest: arg_cong [where f = ro_price_ticks])
qed

text \<open>An order that passes the checks, with an id not in use, on a shard that can be rebuilt.\<close>

lemma sharded_add_accepted:
  assumes "all_recoverable D sh" "s = shard sh (ao_symbol cmd)" "fits_command (CAdd cmd)"
    and "fresh (engine_queue (engines sh ! s)) (ao_order_id cmd)" "check_add (risk sh) cmd = Inr None"
  shows "\<exists>out sh'. sharded_add D cmd None sh = Inr (out, sh') \<and> all_recoverable D sh' \<and> risk sh' = risk sh \<and>
    shard_count sh' = shard_count sh \<and> engines sh' ! s = after_add cmd (engines sh ! s)"
proof -
  have wf: "wf_sharded sh" using assms(1) by (simp add: all_recoverable_def)
  then have s: "s < nat (shard_count sh)" "s < length (engines sh)"
    using shard_in_range [OF wf, of "ao_symbol cmd"] assms(2) by (simp_all add: wf_sharded_def)
  then have "recoverable D (slice_of sh s)" using assms(1) by (simp add: all_recoverable_def)
  from recoverable_run [OF this assms(3)] assms(4) obtain out sl where
    run: "slice_run D (CAdd cmd) (slice_of sh s) = Inr (out, sl)" "recoverable D sl" by (auto simp: slice_of_def)
  then have "slice_execute D (risk sh) (CAdd cmd) None (slice_of sh s) = Inr (out, sl)"
    using assms(5) by (simp add: slice_execute_def slice_checked_def)
  then have "sharded_add D cmd None sh = Inr (out, put_slice s sl sh)"
    using execute_local [OF wf, of s "CAdd cmd" D None] assms(2) by (simp add: execute_def)
  moreover have "sl_engine sl = after_add cmd (engines sh ! s)"
    using run(1) by (auto simp: slice_run_def engine_execute_def after_add_def rbind_eq_Inr slice_of_def)
  ultimately show ?thesis using all_recoverable_put [OF assms(1) run(2)] s by simp
qed

lemma demo_shards: "shard_count sh = 4 \<Longrightarrow> shard sh ''AAPL'' = 1 \<and> shard sh ''MSFT'' = 1"
  by (simp add: shard_def fnv_step_def of_char_def)

lemma demo_order_passes:
  assumes "fits_ll k" "0 < p" "p \<le> 1000" "0 < q" "q \<le> 1000"
  shows "fits_command (CAdd (demo_order symb k who sd p q))" "check_add default_limits (demo_order symb k who sd p q) = Inr None"
proof -
  have "p * q \<le> 1000 * 1000" using assms by (intro mult_mono) auto
  moreover have "- 9223372036854775808 \<le> p * q" using assms by (intro order_trans [OF _ mult_nonneg_nonneg]) auto
  ultimately show "fits_command (CAdd (demo_order symb k who sd p q))"
    "check_add default_limits (demo_order symb k who sd p q) = Inr None"
    using assms by (auto simp: demo_order_def check_add_def default_limits_def mult_ll_def fits_ll_iff mult.commute)
qed

lemma after_add_executes:
  assumes "wf_engine e"
  shows "\<exists>out. engine_execute (CAdd cmd) e = Inr (out, after_add cmd e)" "wf_engine (after_add cmd e)"
  using engine_execute_total [OF assms, of "CAdd cmd"] by (auto simp: engine_execute_def after_add_def)

lemma after_add_fresh:
  assumes "wf_engine e" "fresh (engine_queue e) k" "ao_order_id cmd \<noteq> k"
  shows "fresh (engine_queue (after_add cmd e)) k"
  using after_add_executes(1) [OF assms(1), of cmd] fresh_execute [OF assms(1) _ assms(2)] assms(3) by fastforce

lemma demo_sharded_output:
  "demo_sharded D (\<lambda>_. (True, [], None)) = Inr (out_lines [''  AAPL routed to shard 1; replayed best_bid=100''])"
proof -
  let ?o1 = "demo_order ''AAPL'' 1 ''A'' Buy 100 5" and ?o2 = "demo_order ''AAPL'' 2 ''B'' Sell 100 2"
    and ?o3 = "demo_order ''MSFT'' 3 ''C'' Buy 200 4"
  obtain sh where sh: "new_sharded 4 ''demo_data'' Async default_limits (\<lambda>_. (True, [], None)) = Inr sh"
    by (simp add: new_sharded_def open_wal_def numeral_eq_Suc)
  then have "sharded_init sh" unfolding sharded_init_def
    by (intro exI [of _ 4] exI [of _ "''demo_data''"] exI [of _ Async] exI [of _ default_limits]) simp
  from all_recoverable_init [OF this, of D] have rec: "all_recoverable D sh" .
  have sh0: "shard_count sh = 4" "risk sh = default_limits" "engines sh ! 1 = empty_engine"
    using sh by (auto simp: new_sharded_def rbind_eq_Inr)
  have free: "fresh (engine_queue empty_engine) k" for k by (simp add: fresh_def engine_queue_def)
  note fits = demo_order_passes [of _ 100 5] demo_order_passes [of _ 100 2] demo_order_passes [of _ 200 4]
  have ids: "fits_ll 1" "fits_ll 2" "fits_ll 3" by (simp_all add: fits_ll_iff)
  from sharded_add_accepted [OF rec, of 1 ?o1] demo_shards [OF sh0(1)] sh0 free fits ids obtain out1 sh1 where
    sh1: "sharded_add D ?o1 None sh = Inr (out1, sh1)" "all_recoverable D sh1" "risk sh1 = default_limits" "shard_count sh1 = 4"
      "engines sh1 ! 1 = after_add ?o1 empty_engine" by (auto simp: demo_order_def)
  note after1 = after_add_fresh [OF empty_engine_wf free, of ?o1]
  from sharded_add_accepted [OF sh1(2), of 1 ?o2] demo_shards [OF sh1(4)] sh1 after1 fits ids obtain out2 sh2 where
    sh2: "sharded_add D ?o2 None sh1 = Inr (out2, sh2)" "all_recoverable D sh2" "risk sh2 = default_limits" "shard_count sh2 = 4"
      "engines sh2 ! 1 = after_add ?o2 (after_add ?o1 empty_engine)" by (auto simp: demo_order_def)
  have after2: "fresh (engine_queue (after_add ?o2 (after_add ?o1 empty_engine))) 3"
    by (rule after_add_fresh [OF after_add_executes(2) [OF empty_engine_wf] after1]) (simp_all add: demo_order_def)
  from sharded_add_accepted [OF sh2(2), of 1 ?o3] demo_shards [OF sh2(4)] sh2 after2 fits ids obtain out3 sh3 where
    sh3: "sharded_add D ?o3 None sh2 = Inr (out3, sh3)" "all_recoverable D sh3" "shard_count sh3 = 4"
      "engines sh3 ! 1 = after_add ?o3 (after_add ?o2 (after_add ?o1 empty_engine))" by (auto simp: demo_order_def)
  from all_recoverable_replay [OF sh3(2), of 1] sh3(3) obtain e sh4 where
    e: "replay_shard D 1 sh3 = Inr (e, sh4)" "similar (engines sh3 ! 1) e" by auto
  have "best_bid ''AAPL'' (engines sh3 ! 1) = Some 100"
    unfolding sh3(4) by (simp add: after_add_def demo_eval best_bid_def find_book_def)
  with best_bid_similar [OF e(2)] have "best_bid ''AAPL'' e = Some 100" by simp
  with sh sh1(1) sh2(1) sh3(1) e(1) demo_shards [OF sh3(3)] show ?thesis
    by (simp add: demo_sharded_def shard_for_symbol_def) (simp add: print_eval)
qed

section \<open>What the pipeline scenario prints\<close>

lemma demo_collect_all: "length (results @ concat batches) \<le> 4 \<Longrightarrow> demo_collect batches results = results @ concat batches"
proof (induction batches arbitrary: results)
  case (Cons batch batches)
  show ?case
  proof (cases "length results < 4")
    case True
    with Cons.IH [of "results @ batch"] Cons.prems show ?thesis by simp
  next
    case False
    with Cons.prems have "length (batch @ concat batches) = 0" unfolding length_append concat.simps by linarith
    then have "batch @ concat batches = []" by (simp only: length_0_conv)
    with False show ?thesis by simp
  qed
qed simp

text \<open>The four commands one after the other on a new shard: the third takes 5 from the first order and 2 from
  the second, the cancel is rejected.\<close>

lemma run_msgs_engine:
  assumes "engine_execute (cm_command m) (sl_engine sl) = Inr (out, e)" "cm_ingress m = None"
    and "\<And>cmd. cm_command m = CAdd cmd \<Longrightarrow> check_add limits cmd = Inr None"
  shows "\<exists>sl1. sl_engine sl1 = e \<and> run_msgs D limits sl (m # ms) =
    rbind (run_msgs D limits sl1 ms) (\<lambda>(rs, sl2). Inr (result_of m out # rs, sl2))"
proof -
  have "\<exists>sl1. slice_execute D limits (cm_command m) None sl = Inr (out, sl1) \<and> sl_engine sl1 = e"
    using assms(1,3) by (cases "cm_command m") (auto simp: slice_execute_def slice_checked_def slice_run_def)
  with assms(2) show ?thesis by auto
qed

lemma demo_steps:
  defines "e1 \<equiv> after_add (demo_order ''AAPL'' 1 ''A'' Sell 100 5) empty_engine"
  defines "e2 \<equiv> after_add (demo_order ''AAPL'' 2 ''B'' Sell 100 5) e1"
  defines "e3 \<equiv> after_add (demo_order ''AAPL'' 3 ''C'' Buy 101 7) e2"
  shows "\<exists>evs. engine_execute (CAdd (demo_order ''AAPL'' 1 ''A'' Sell 100 5)) empty_engine = Inr ((evs, []), e1)"
    "\<exists>evs. engine_execute (CAdd (demo_order ''AAPL'' 2 ''B'' Sell 100 5)) e1 = Inr ((evs, []), e2)"
    "\<exists>evs ts. engine_execute (CAdd (demo_order ''AAPL'' 3 ''C'' Buy 101 7)) e2 = Inr ((evs, ts), e3) \<and> map tr_quantity ts = [5, 2]"
    "\<exists>evs e4. engine_execute (CCancel \<lparr>co_symbol = ''AAPL'', co_order_id = 0\<rparr>) e3 = Inr ((evs, []), e4)"
  unfolding e3_def e2_def e1_def engine_execute_def command.case
  by (simp_all add: after_add_def demo_eval engine_cancel_def)

lemma demo_run:
  assumes "run_msgs D default_limits sl ms = Inr (rs, sl')" "sl_engine sl = empty_engine"
    and "map cm_command ms = demo_commands" "\<forall>m \<in> set ms. cm_ingress m = None"
  shows "map (\<lambda>r. map tr_quantity (rm_trades r)) rs = [[], [], [5, 2], []]"
proof -
  from assms(3) obtain m1 m2 m3 m4 where ms: "ms = [m1, m2, m3, m4]"
    "cm_command m1 = CAdd (demo_order ''AAPL'' 1 ''A'' Sell 100 5)" "cm_command m2 = CAdd (demo_order ''AAPL'' 2 ''B'' Sell 100 5)"
    "cm_command m3 = CAdd (demo_order ''AAPL'' 3 ''C'' Buy 101 7)" "cm_command m4 = CCancel \<lparr>co_symbol = ''AAPL'', co_order_id = 0\<rparr>"
    by (auto simp: demo_commands_def map_eq_Cons_conv)
  have ids: "fits_ll 1" "fits_ll 2" "fits_ll 3" by (simp_all add: fits_ll_iff)
  note passes = demo_order_passes(2) [of _ 100 5] demo_order_passes(2) [of _ 101 7]
  have none: "cm_ingress m1 = None" "cm_ingress m2 = None" "cm_ingress m3 = None" "cm_ingress m4 = None"
    using assms(4) ms(1) by simp_all
  let ?e1 = "after_add (demo_order ''AAPL'' 1 ''A'' Sell 100 5) empty_engine"
  let ?e2 = "after_add (demo_order ''AAPL'' 2 ''B'' Sell 100 5) ?e1"
  obtain evs1 evs2 evs3 ts evs4 e3 e4 where
    e: "engine_execute (cm_command m1) empty_engine = Inr ((evs1, []), ?e1)"
      "engine_execute (cm_command m2) ?e1 = Inr ((evs2, []), ?e2)"
      "engine_execute (cm_command m3) ?e2 = Inr ((evs3, ts), e3)" "map tr_quantity ts = [5, 2]"
      "engine_execute (cm_command m4) e3 = Inr ((evs4, []), e4)"
    using demo_steps ms by metis
  obtain sl1 where sl1: "sl_engine sl1 = ?e1" "run_msgs D default_limits sl [m1, m2, m3, m4] =
      rbind (run_msgs D default_limits sl1 [m2, m3, m4]) (\<lambda>(rs, sl2). Inr (result_of m1 (evs1, []) # rs, sl2))"
    using run_msgs_engine [of m1 sl "(evs1, [])" "?e1" default_limits D "[m2, m3, m4]"] e(1) assms(2) none ms(2) passes ids by (auto simp del: run_msgs.simps)
  obtain sl2 where sl2: "sl_engine sl2 = ?e2" "run_msgs D default_limits sl1 [m2, m3, m4] =
      rbind (run_msgs D default_limits sl2 [m3, m4]) (\<lambda>(rs, sl2). Inr (result_of m2 (evs2, []) # rs, sl2))"
    using run_msgs_engine [of m2 sl1 "(evs2, [])" "?e2" default_limits D "[m3, m4]"] e(2) sl1(1) none ms(3) passes ids by (auto simp del: run_msgs.simps)
  obtain sl3 where sl3: "sl_engine sl3 = e3" "run_msgs D default_limits sl2 [m3, m4] =
      rbind (run_msgs D default_limits sl3 [m4]) (\<lambda>(rs, sl2). Inr (result_of m3 (evs3, ts) # rs, sl2))"
    using run_msgs_engine [of m3 sl2 "(evs3, ts)" "e3" default_limits D "[m4]"] e(3) sl2(1) none ms(4) passes ids by (auto simp del: run_msgs.simps)
  obtain sl4 where "run_msgs D default_limits sl3 [m4] =
      rbind (run_msgs D default_limits sl4 []) (\<lambda>(rs, sl2). Inr (result_of m4 (evs4, []) # rs, sl2))"
    using run_msgs_engine [of m4 sl3 "(evs4, [])" "e4" default_limits D "[]"] e(5) sl3(1) none ms(5) by (auto simp del: run_msgs.simps)
  with sl1(2) sl2(2) sl3(2) assms(1) ms(1) e(4) show ?thesis
    by (auto simp: result_of_def simp del: run_msgs.simps(2))
qed

text \<open>What stays as constructed.\<close>

definition demo_shape :: "'d doubles \<Rightarrow> threaded \<Rightarrow> bool" where
  "demo_shape D t \<longleftrightarrow> new_starts D t \<and> risk (th_engine t) = default_limits \<and> length (lanes t) = 4 \<and>
     (\<forall>l \<in> set (lanes t). length (slots (in_q l)) = 4096 \<and> length (slots (out_q l)) = 4096)"

lemma demo_constructed_new:
  assumes "demo_constructed t"
  shows "new_pipeline t"
proof -
  from assms obtain cm rm sh where "new_sharded 4 ''demo_data_threaded'' Async default_limits (\<lambda>_. (True, [], None)) = Inr sh"
    "new_threaded cm rm 4096 sh = Some t" unfolding demo_constructed_def by blast
  then show ?thesis unfolding new_pipeline_def
    by (intro exI [of _ cm] exI [of _ rm] exI [of _ 4096] exI [of _ 4] exI [of _ "''demo_data_threaded''"] exI [of _ Async]
        exI [of _ default_limits] exI [of _ sh]) simp
qed

lemma demo_capacity: "round_up_pow2 4096 = Some 4096"
  by (simp add: round_up_pow2_def round_up_from.simps)

lemma demo_constructed_shape:
  assumes "demo_constructed t"
  shows "demo_shape D t"
proof -
  from assms obtain cm rm sh where sh: "new_sharded 4 ''demo_data_threaded'' Async default_limits (\<lambda>_. (True, [], None)) = Inr sh"
    "new_threaded cm rm 4096 sh = Some t" unfolding demo_constructed_def by blast
  have "shard_count sh = 4" "risk sh = default_limits" using sh(1) by (auto simp: new_sharded_def rbind_eq_Inr)
  with sh(2) new_pipeline_starts [OF demo_constructed_new [OF assms], of D] show ?thesis
    by (auto simp: demo_shape_def new_threaded_def new_lane_def new_spsc_def demo_capacity Let_def split: if_splits)
qed

lemma demo_shape_step:
  assumes "demo_shape D t" "threaded_inv D mv rv t" "threaded_step D mv rv t t'"
  shows "demo_shape D t'"
proof -
  have "risk (th_engine t') = risk (th_engine t)"
    using risk_step [OF _ assms(3)] assms(2) by (simp add: threaded_inv_def)
  moreover have "list_all2 lane_extends (lanes t) (lanes t')" using step_extends [OF assms(3)] by (simp add: lanes_extend_def)
  ultimately show ?thesis
    using assms(1) starts_step [OF assms(3)]
    by (auto simp: demo_shape_def new_starts_def list_all2_conv_all_nth lane_extends_def all_set_conv_all_nth)
qed

interpretation demo: invariant_system demo_constructed "threaded_step D mv rv"
  "\<lambda>t. threaded_inv D mv rv t \<and> demo_shape D t" for D :: "'d doubles" and mv rv
proof
  show "threaded_inv D mv rv t \<and> demo_shape D t" if "demo_constructed t" for t
    using that pipeline.inv_init [OF new_pipeline_init [OF demo_constructed_new [OF that]]] demo_constructed_shape by blast
  show "threaded_inv D mv rv t' \<and> demo_shape D t'" if "threaded_inv D mv rv t \<and> demo_shape D t" "threaded_step D mv rv t t'" for t t'
    using that pipeline.inv_step [of D mv rv t t'] demo_shape_step by blast
qed

lemma demo_answers:
  assumes "reachable demo_constructed (threaded_step D mv rv) t" "demo_submitted t" "served t" "\<not> gh_dropped (lanes t ! 1)"
  shows "map (\<lambda>r. map tr_quantity (rm_trades r)) (gh_drained (lanes t ! 1)) = [[], [], [5, 2], []]"
proof -
  let ?l = "lanes t ! 1"
  have shape: "demo_shape D t" and inv: "threaded_inv D mv rv t" using demo.reachable_inv [OF assms(1)] by auto
  have asked: "map (\<lambda>m. (cm_command m, cm_ingress m)) (gh_asked ?l) = map (\<lambda>c. (c, None)) demo_commands"
    using assms(2) [unfolded demo_submitted_def, THEN arg_cong [where f = "\<lambda>xs. xs ! 1"]] shape
    by (simp add: demo_shape_def)
  have few: "length (gh_asked l) \<le> 4" if "l \<in> set (lanes t)" for l
  proof -
    have "map (\<lambda>m. (cm_command m, cm_ingress m)) (gh_asked l) \<in> set [[], map (\<lambda>c. (c, None)) demo_commands, [], []]"
      using that assms(2) unfolding demo_submitted_def by (metis (no_types, lifting) image_eqI list.set_map)
    then show ?thesis by (auto simp: demo_commands_def dest!: arg_cong [where f = length])
  qed
  have "reachable threaded_init (threaded_step D mv rv) t"
    by (rule reachable_mono [OF assms(1)]) (rule new_pipeline_init [OF demo_constructed_new])
  from few_commands_no_retry [OF this] few shape have "\<not> gh_retried t" by (force simp: demo_shape_def)
  then have content: "lane_content D (th_engine t) 1 ?l (pending_msgs t 1)"
    using inv shape by (simp add: threaded_inv_def contents_ok_def demo_shape_def)
  have all: "gh_handled ?l = gh_asked ?l" "gh_drained ?l = gh_results ?l"
    using content assms(4) served_lane [OF assms(3), of 1] shape
    by (simp_all add: lane_content_def lane_commands_def lane_results_def demo_shape_def)
  have "run_msgs D default_limits (gh_start ?l) (gh_handled ?l) = Inr (gh_results ?l, slice_of (th_engine t) 1)"
    using content shape by (simp add: lane_content_def demo_shape_def)
  then have "run_msgs D default_limits (gh_start ?l) (gh_asked ?l) = Inr (gh_drained ?l, slice_of (th_engine t) 1)"
    by (simp only: all)
  moreover have "sl_engine (gh_start ?l) = empty_engine" using shape by (simp add: demo_shape_def new_starts_def new_shard_def)
  moreover have "map cm_command (gh_asked ?l) = demo_commands"
    using arg_cong [OF asked, of "map fst"] by (simp add: comp_def)
  moreover have "\<forall>m \<in> set (gh_asked ?l). cm_ingress m = None" using arg_cong [OF asked, of set] by auto
  ultimately show ?thesis by (rule demo_run)
qed

lemma demo_pipeline_output:
  assumes "map (\<lambda>r. map tr_quantity (rm_trades r)) (concat batches) = [[], [], [5, 2], []]"
  shows "demo_pipeline batches = out_lines [''  drained 4 async results; aggressor filled 7'']"
proof -
  have "length (concat batches) = 4" using arg_cong [OF assms, of length] by simp
  moreover from this have "demo_collect batches [] = concat batches" using demo_collect_all [of "[]" batches] by simp
  moreover have "map (\<lambda>r. sum_list (map tr_quantity (rm_trades r))) (concat batches) = [0, 0, 7, 0]"
    using arg_cong [OF assms, of "map sum_list"] by (simp add: comp_def)
  ultimately show ?thesis by (simp add: demo_pipeline_def Let_def) (simp add: print_eval)
qed

section \<open>A run of the pipeline scenario\<close>

text \<open>The pipeline runs, has been sent \<open>cs\<close> and dropped no result.\<close>

definition demo_sent :: "'d doubles \<Rightarrow> command list \<Rightarrow> threaded \<Rightarrow> bool" where
  "demo_sent D cs t \<longleftrightarrow> reachable demo_constructed (threaded_step D id id) t \<and> running t \<and> submitting t = None \<and>
     map gh_dropped (lanes t) = replicate 4 False \<and>
     map (map (\<lambda>m. (cm_command m, cm_ingress m))) (map gh_asked (lanes t)) = [[], map (\<lambda>c. (c, None)) cs, [], []]"

lemma demo_sent_more:
  assumes "demo_sent D cs t" "command_symbol c = ''AAPL''"
  shows "\<exists>t'. demo_sent D (cs @ [c]) t' \<and> served t'"
proof -
  let ?u = "submit_begin c None t"
  have t: "reachable demo_constructed (threaded_step D id id) t" "running t" "submitting t = None"
    and lanes: "map gh_dropped (lanes t) = replicate 4 False"
      "map (map (\<lambda>m. (cm_command m, cm_ingress m))) (map gh_asked (lanes t)) = [[], map (\<lambda>c. (c, None)) cs, [], []]"
    using assms(1) by (simp_all add: demo_sent_def)
  have len: "length (lanes t) = 4" "shard_count (th_engine t) = 4"
    using demo.reachable_inv [OF t(1)] by (auto simp: demo_shape_def threaded_inv_def wf_threaded_def)
  then have s: "shard_of t c = 1" using demo_shards [of "th_engine t"] assms(2) by (simp add: shard_of_def)
  have reach: "reachable demo_constructed (threaded_step D id id) ?u"
    by (rule reachable.reachable_step [OF t(1) step_submit [OF t(3)]])
  then have inv: "threaded_inv D id id ?u" "demo_shape D ?u" using demo.reachable_inv by blast+
  have run: "running ?u" using t(2) by (simp add: submit_begin_def Let_def)
  have "safe_limits (risk (th_engine ?u))" using inv(2) default_limits_safe by (simp add: demo_shape_def)
  with drains [OF inv(1) run] obtain t' where
    t': "(threaded_step D id id)\<^sup>*\<^sup>* ?u t'" "served t'" "keeps_lanes ?u t'" by blast
  have "map gh_dropped (lanes ?u) = map gh_dropped (lanes t)"
    using len by (simp add: submit_begin_def set_lane_def s Let_def map_update) (metis list_update_id map_update)
  moreover obtain m where "map gh_asked (lanes ?u) = (map gh_asked (lanes t))[1 := map gh_asked (lanes t) ! 1 @ [m]]"
      "cm_command m = c" "cm_ingress m = None"
    using len by (auto simp: submit_begin_def set_lane_def s Let_def map_update)
  moreover have "submitting t' = None" using t'(2) by (simp add: served_def work_def split: if_splits)
  moreover have "map (\<lambda>m. (cm_command m, cm_ingress m)) (gh_asked (lanes t ! 1)) = map (\<lambda>c. (c, None)) cs"
    using arg_cong [OF lanes(2), of "\<lambda>xs. xs ! 1"] len by simp
  ultimately have "demo_sent D (cs @ [c]) t'"
    using reachable_rtranclp [OF t'(1) reach] t'(3) run lanes len
    by (simp add: demo_sent_def keeps_lanes_def map_update del: map_map)
  with t'(2) show ?thesis by blast
qed

lemma demo_started: "\<exists>t. demo_sent D [] t"
proof -
  obtain sh where sh: "new_sharded 4 ''demo_data_threaded'' Async default_limits (\<lambda>_. (True, [], None)) = Inr sh"
    by (simp add: new_sharded_def open_wal_def numeral_eq_Suc)
  then have "shard_count sh = 4" by (auto simp: new_sharded_def rbind_eq_Inr)
  then have "new_threaded sample_cm sample_rm 4096 sh \<noteq> None"
    by (auto simp: new_threaded_def new_lane_def new_spsc_def demo_capacity Let_def)
  then obtain t where t: "new_threaded sample_cm sample_rm 4096 sh = Some t" by blast
  have lanes: "lane_worker l = Exited \<and> gh_asked l = [] \<and> \<not> gh_dropped l" if "l \<in> set (lanes t)" for l
    using that t by (auto simp: new_threaded_def new_lane_def new_spsc_def demo_capacity Let_def split: if_splits)
  have "demo_constructed t" unfolding demo_constructed_def using sh t by blast
  then have reach: "reachable demo_constructed (threaded_step D id id) t" by (rule reachable.reachable_init)
  then have len: "length (lanes t) = 4" using demo.reachable_inv [OF reach] by (simp add: demo_shape_def)
  have "threaded_step D id id t (start_engine t)" by (rule step_start) (simp add: workers_joined_def lanes)
  from reachable.reachable_step [OF reach this] have "reachable demo_constructed (threaded_step D id id) (start_engine t)" .
  moreover have "submitting t = None" "\<not> running t" using t by (auto simp: new_threaded_def Let_def split: if_splits)
  moreover have "map gh_dropped (lanes t) = map (\<lambda>_. False) (lanes t)" "map gh_asked (lanes t) = map (\<lambda>_. []) (lanes t)"
    using lanes by simp_all
  then have "map gh_dropped (lanes t) = replicate 4 False" "map gh_asked (lanes t) = [[], [], [], []]"
    by (simp_all add: map_replicate_const len numeral_eq_Suc)
  moreover have "map gh_dropped (lanes (start_engine t)) = map gh_dropped (lanes t)"
    "map gh_asked (lanes (start_engine t)) = map gh_asked (lanes t)"
    "submitting (start_engine t) = submitting t" "running (start_engine t)"
    by (simp_all add: start_engine_def map_workers_def)
  ultimately have "demo_sent D [] (start_engine t)" by (simp add: demo_sent_def del: map_map)
  then show ?thesis by blast
qed

lemma demo_sent_all:
  assumes "\<forall>c \<in> set cs. command_symbol c = ''AAPL''" "cs \<noteq> []"
  shows "\<exists>t. demo_sent D cs t \<and> served t"
  using assms
proof (induction cs rule: rev_induct)
  case (snoc c cs)
  have "\<exists>t. demo_sent D cs t" using snoc demo_started by (cases "cs = []") auto
  with demo_sent_more snoc.prems(1) show ?case by auto
qed simp

lemma demo_served: "\<exists>t. reachable demo_constructed (threaded_step D id id) t \<and> demo_submitted t \<and> served t \<and> \<not> gh_dropped (lanes t ! 1)"
proof -
  obtain t where t: "demo_sent D demo_commands t" "served t"
    using demo_sent_all [of demo_commands D] by (auto simp: demo_commands_def demo_order_def)
  then have "length (lanes t) = 4" using demo.reachable_inv [of D id id t] by (auto simp: demo_sent_def demo_shape_def)
  moreover have "map gh_dropped (lanes t) ! 1 = False" using t(1) by (simp add: demo_sent_def)
  ultimately show ?thesis using t by (auto simp: demo_sent_def demo_submitted_def comp_def)
qed

end
